(* ===== verification/Prelude.thy ===== *)
theory Prelude
  imports Main "HOL-Library.Word"
begin

text \<open>
  Shared vocabulary of the development: the machine types the C++ sources use, the collections
  of rewrite rules that the component theories fill, and the lemmas on machine words and on
  byte lists that several components need.

  Conventions. A \<open>std::size_t\<close> or \<open>std::uint64_t\<close> that is a limit, a counter or a
  shared total is a 64-bit word, so that every addition and subtraction wraps as it does in the
  program; the size of a buffer that lives in memory is the \<open>nat\<close> length of a list.
\<close>

unbundle bit_operations_syntax

subsection \<open>Machine types\<close>

type_synonym byte = "8 word"
type_synonym u16 = "16 word"
type_synonym u32 = "32 word"
type_synonym u64 = "64 word"
type_synonym size_t = "64 word"

named_theorems size_simps \<open>sizes of buffers and counters, as natural numbers\<close>
named_theorems inv_intros \<open>an operation keeps the invariant of its component\<close>
named_theorems abs_simps \<open>what an operation does to the abstract value of its component\<close>

subsection \<open>Exceptions\<close>

text \<open>The exceptions the modelled code throws, as error values.\<close>

datatype cpp_exception =
    InvalidArgument string
  | LengthError string
  | LogicError string
  | OutOfRange string
  | ConstructorThrew

subsection \<open>Guarded additions\<close>

text \<open>
  The sources never write \<open>used + bytes > limit\<close>: they test \<open>bytes > limit\<close> and then
  \<open>used > limit - bytes\<close>, which cannot wrap. Passing both tests makes the addition exact.
\<close>

definition fits :: "size_t \<Rightarrow> size_t \<Rightarrow> size_t \<Rightarrow> bool" where
  "fits bytes used limit \<longleftrightarrow> \<not> (bytes > limit \<or> used > limit - bytes)"

lemma fits_iff [size_simps]: "fits bytes used limit \<longleftrightarrow> unat used + unat bytes \<le> unat limit"
proof (cases "bytes \<le> limit")
  case True
  then have "unat (limit - bytes) = unat limit - unat bytes"
    by (simp add: unat_sub)
  with True show ?thesis
    by (auto simp: fits_def word_le_nat_alt not_less)
next
  case False
  then show ?thesis
    by (auto simp: fits_def word_le_nat_alt word_less_nat_alt)
qed

lemma unat_add_fits [size_simps]:
  assumes "fits bytes used limit"
  shows "unat (used + bytes) = unat used + unat bytes"
proof -
  have "unat limit < 2 ^ LENGTH(64)"
    by (rule unsigned_less)
  with assms have "unat used + unat bytes < 2 ^ LENGTH(64)"
    by (simp add: fits_iff)
  then show ?thesis
    by (simp add: unat_word_ariths)
qed

lemma unat_of_nat_size [size_simps]: "n < 2 ^ 64 \<Longrightarrow> unat (of_nat n :: size_t) = n"
  by (simp add: unat_of_nat)

lemma unat_diff_le [size_simps]: "(b :: 'a::len word) \<le> a \<Longrightarrow> unat (a - b) = unat a - unat b"
  by (rule unat_sub)

subsection \<open>Totals of machine words\<close>

lemma sum_list_word_unat:
  assumes "sum_list (map (\<lambda>x. unat (f x)) xs) < 2 ^ LENGTH('a)"
  shows "unat (sum_list (map (f :: _ \<Rightarrow> 'a::len word) xs)) = sum_list (map (\<lambda>x. unat (f x)) xs)"
  using assms by (induction xs) (simp_all add: unat_word_ariths)

lemma sum_list_map_update:
  fixes f :: "'a \<Rightarrow> nat"
  assumes "i < length xs"
  shows "sum_list (map f (xs[i := y])) + f (xs ! i) = sum_list (map f xs) + f y"
  using assms
proof (induction xs arbitrary: i)
  case (Cons x xs)
  show ?case
  proof (cases i)
    case (Suc j)
    with Cons.prems have "j < length xs" by simp
    from Cons.IH [OF this] Suc show ?thesis by simp
  qed simp
qed simp

lemma elem_le_sum_list_map:
  fixes f :: "'a \<Rightarrow> nat"
  shows "x \<in> set xs \<Longrightarrow> f x \<le> sum_list (map f xs)"
  by (simp add: member_le_sum_list)

subsection \<open>Bytes of words\<close>

lemma bit_255_int [simp]: "bit (255 :: int) n \<longleftrightarrow> n < 8"
proof -
  have "(255 :: int) = mask 8" by (simp add: mask_eq_exp_minus_1)
  then show ?thesis by (simp only: bit_mask_iff) simp
qed

text \<open>Shifting and then inserting low bits is multiplying and adding.\<close>

lemma push_bit_or_add:
  assumes "m < 2 ^ j"
  shows "push_bit j (x :: 'a::len word) OR of_nat m = push_bit j x + of_nat m"
proof (rule disjunctive_add_eq_or [symmetric])
  have "(of_nat m :: 'a word) = take_bit j (of_nat m)"
    using assms by (metis of_nat_take_bit take_bit_nat_eq_self)
  then have "bit (of_nat m :: 'a word) n \<Longrightarrow> n < j" for n
    by (metis bit_take_bit_iff)
  then show "push_bit j x AND of_nat m = 0"
    by (intro bit_word_eqI) (auto simp only: bit_and_iff bit_push_bit_iff bit_0_eq, fastforce)
qed

lemma push_bit_or_of_nat:
  "m < 2 ^ j \<Longrightarrow> push_bit j (of_nat k :: 'a::len word) OR of_nat m = of_nat (k * 2 ^ j + m)"
  by (simp only: push_bit_or_add) (simp add: push_bit_eq_mult)

text \<open>Masks for the low and the high bits of a word.\<close>

lemma unat_and_mask: "unat ((w :: 'a::len word) AND mask k) = unat w mod 2 ^ k"
  by (simp only: take_bit_eq_mask [symmetric] unsigned_take_bit_eq) (simp add: take_bit_eq_mod)

lemma unat_and_not_mask: "unat ((w :: 'a::len word) AND NOT (mask k)) = unat w div 2 ^ k * 2 ^ k"
proof -
  have "w AND NOT (mask k) = push_bit k (drop_bit k w)"
    by (rule bit_word_eqI) (auto simp: bit_simps)
  then have "(w AND NOT (mask k)) + take_bit k w = w"
    by (simp add: bits_ident)
  then have eq: "w AND NOT (mask k) = w - take_bit k w"
    by (simp add: eq_diff_eq)
  have le: "unat (take_bit k w) = unat w mod 2 ^ k"
    by (simp only: unsigned_take_bit_eq) (simp add: take_bit_eq_mod)
  then have "take_bit k w \<le> w"
    by (simp add: word_le_nat_alt)
  then show ?thesis
    using le by (simp add: eq unat_sub minus_mod_eq_div_mult)
qed

lemma high_bits_iff:
  "(w :: 'a::len word) AND NOT (mask k) = c \<longleftrightarrow> unat w div 2 ^ k * 2 ^ k = unat c"
  by (simp add: word_unat_eq_iff unat_and_not_mask)

lemma ucast_low_bits: "(ucast (w AND mask k) :: 'b::len word) = of_nat (unat (w :: 'a::len word) mod 2 ^ k)"
  by (metis unat_and_mask of_nat_unat)

lemma unat_ucast_up:
  "LENGTH('a) \<le> LENGTH('b) \<Longrightarrow> unat (ucast (w :: 'a::len word) :: 'b::len word) = unat w"
proof -
  assume le: "LENGTH('a) \<le> LENGTH('b)"
  have "unat w < 2 ^ LENGTH('a)" by (rule unsigned_less)
  also have "(2 :: nat) ^ LENGTH('a) \<le> 2 ^ LENGTH('b)" using le by simp
  finally show ?thesis by (simp add: unsigned_ucast_eq take_bit_nat_eq_self)
qed

text \<open>A fact about one byte can be checked on its 256 values.\<close>

lemma byte_induct: "list_all (\<lambda>n. P (of_nat n :: byte) n) [0..<256] \<Longrightarrow> P b (unat b)"
proof -
  assume all: "list_all (\<lambda>n. P (of_nat n :: byte) n) [0..<256]"
  have "unat b < 2 ^ LENGTH(8)" by (rule unsigned_less)
  then have "unat b \<in> set [0..<256]" by simp
  with all have "P (of_nat (unat b)) (unat b)"
    by (simp only: list_all_iff)
  then show ?thesis by simp
qed

lemma unat_byte_less [simp]: "unat (b :: byte) < 256"
proof -
  have "unat b < 2 ^ LENGTH(8)" by (rule unsigned_less)
  then show ?thesis by simp
qed

text \<open>The \<open>& 0xff\<close> before a cast to a byte is redundant.\<close>

lemma ucast_and_0xff [simp]: "(ucast ((w :: 'a::len word) AND 0xff) :: byte) = ucast w"
  by (rule bit_word_eqI) (auto simp: bit_simps dest: bit_imp_le_length)

subsection \<open>Byte lists\<close>

lemma take_append_prefix [simp]: "n \<le> length xs \<Longrightarrow> take n (xs @ ys) = take n xs"
  by simp

lemma drop_append_prefix [simp]: "n \<le> length xs \<Longrightarrow> drop n (xs @ ys) = drop n xs @ ys"
  by simp

lemma nth_append_prefix: "n < length xs \<Longrightarrow> (xs @ ys) ! n = xs ! n"
  by (simp add: nth_append)

text \<open>Two adjacent slices of a list make one slice.\<close>

lemma slice_append:
  assumes "a \<le> b" and "b \<le> c"
  shows "drop a (take b xs) @ drop b (take c xs) = drop a (take c xs)"
proof (cases "b \<le> length xs")
  case True
  have "take c xs = take b xs @ drop b (take c xs)"
    using append_take_drop_id [of b "take c xs"] assms(2) by (simp add: min_absorb1)
  then have "drop a (take c xs) = drop a (take b xs @ drop b (take c xs))" by simp
  also have "\<dots> = drop a (take b xs) @ drop b (take c xs)"
    using True assms(1) by simp
  finally show ?thesis by simp
qed (use assms in simp)

lemma take_4_nth: "4 \<le> length xs \<Longrightarrow> take 4 xs = [xs ! 0, xs ! 1, xs ! 2, xs ! 3]"
  by (auto simp: numeral_nat Suc_le_length_iff)

definition bytes_of_string :: "string \<Rightarrow> byte list" where
  "bytes_of_string = map (\<lambda>c. word_of_nat (of_char c))"

definition string_of_bytes :: "byte list \<Rightarrow> string" where
  "string_of_bytes = map (\<lambda>b. char_of (unat b))"

lemma of_char_less_256: "(of_char c :: nat) < 256"
  by (metis char_of_def char_of_mod_256 mod_less_divisor of_char_mod_256 zero_less_numeral)

lemma length_bytes_of_string [simp]: "length (bytes_of_string s) = length s"
  by (simp add: bytes_of_string_def)

lemma length_string_of_bytes [simp]: "length (string_of_bytes bs) = length bs"
  by (simp add: string_of_bytes_def)

lemma string_of_bytes_append [simp]:
  "string_of_bytes (xs @ ys) = string_of_bytes xs @ string_of_bytes ys"
  by (simp add: string_of_bytes_def)

lemma string_of_bytes_of_string [simp]: "string_of_bytes (bytes_of_string s) = s"
proof (induction s)
  case (Cons c s)
  have "unat (word_of_nat (of_char c) :: byte) = of_char c"
    using of_char_less_256 [of c] by (simp add: unat_of_nat)
  with Cons show ?case
    by (simp add: bytes_of_string_def string_of_bytes_def)
qed (simp add: bytes_of_string_def string_of_bytes_def)

subsection \<open>Big-endian numbers\<close>

definition big_endian :: "byte list \<Rightarrow> nat" where
  "big_endian bs = foldl (\<lambda>n b. n * 256 + unat b) 0 bs"

definition be_bytes :: "nat \<Rightarrow> nat \<Rightarrow> byte list" where
  "be_bytes k n = map (\<lambda>i. of_nat (n div 256 ^ (k - 1 - i))) [0..<k]"

lemma length_be_bytes [simp]: "length (be_bytes k n) = k"
  by (simp add: be_bytes_def)

lemma be_bytes_Suc: "be_bytes (Suc k) n = be_bytes k (n div 256) @ [of_nat n]"
proof -
  have "n div 256 ^ (k - i) = n div 256 div 256 ^ (k - 1 - i)" if "i < k" for i
    using that by (simp add: div_mult2_eq [symmetric] Suc_diff_Suc flip: power_Suc)
  then show ?thesis by (simp add: be_bytes_def)
qed

lemma big_endian_snoc [simp]: "big_endian (bs @ [b]) = big_endian bs * 256 + unat b"
  by (simp add: big_endian_def)

lemma big_endian_be_bytes: "big_endian (be_bytes k n) = n mod 256 ^ k"
proof (induction k arbitrary: n)
  case 0
  then show ?case by (simp add: be_bytes_def big_endian_def)
next
  case (Suc k)
  have "unat (of_nat n :: byte) = n mod 256" by (simp add: unat_of_nat)
  then show ?case using Suc [of "n div 256"] by (simp add: be_bytes_Suc mod_mult2_eq)
qed

lemma big_endian_less: "big_endian bs < 256 ^ length bs"
proof (induction bs rule: rev_induct)
  case (snoc b bs)
  have "unat b < 256" by simp
  moreover have "big_endian bs * 256 + 256 \<le> 256 ^ length bs * 256"
    using snoc by simp
  ultimately have "big_endian bs * 256 + unat b < 256 ^ length bs * 256" by linarith
  then show ?case by (simp add: mult.commute)
qed (simp add: big_endian_def)

lemma be_bytes_big_endian: "be_bytes (length bs) (big_endian bs) = bs"
proof (induction bs rule: rev_induct)
  case (snoc b bs)
  have "(of_nat (big_endian bs * 256 + unat b) :: byte) = b"
    by (simp add: word_unat_eq_iff unat_of_nat del: of_nat_add of_nat_mult)
  moreover have "(big_endian bs * 256 + unat b) div 256 = big_endian bs"
    by simp
  ultimately show ?case using snoc by (simp add: be_bytes_Suc del: of_nat_add of_nat_mult)
qed (simp add: be_bytes_def)

lemma byte_values: "(256 :: nat) = 2 ^ 8"
  by simp

text \<open>The loop \<open>value = (value << 8) | byte\<close> reads a big-endian number.\<close>

lemma fold_shift_or:
  "fold (\<lambda>b acc. push_bit 8 acc OR ucast b) (bs :: byte list) (of_nat n) =
     (of_nat (foldl (\<lambda>n b. n * 256 + unat b) n bs) :: 'a::len word)"
proof (induction bs arbitrary: n)
  case (Cons b bs)
  have "push_bit 8 (of_nat n) OR ucast b = (of_nat (n * 2 ^ 8 + unat b) :: 'a word)"
    using push_bit_or_of_nat [OF unat_byte_less [of b, unfolded byte_values], of n, where 'a = 'a]
    by (simp only: of_nat_unat)
  then show ?case using Cons [of "n * 256 + unat b"] by (simp del: of_nat_add of_nat_mult)
qed simp

end
