(* ===== verification/Server_Config.thy ===== *)
theory Server_Config
  imports Prelude
begin

text \<open>
  The public data types of \<open>src/core/iocp_server.hpp\<close>: session states, transports, message
  dispositions, the configuration with its defaults and the metrics.
\<close>

datatype SessionState = Connecting | Handshaking | Open | Closing | ClosedState

datatype TransportKind = Detecting | RawTcp | WebSocket

datatype MessageDisposition = AcceptedMessage | MalformedMessage | CloseSession

text \<open>Durations are signed 64-bit millisecond counts; the model computes with them as integers.\<close>

record ServerConfig =
  cfg_port :: u16
  cfg_worker_count :: size_t
  cfg_max_connections :: size_t
  cfg_accept_depth :: size_t
  cfg_receive_buffer_bytes :: size_t
  cfg_max_message_bytes :: size_t
  cfg_max_session_inbound_bytes :: size_t
  cfg_max_global_inbound_bytes :: size_t
  cfg_max_session_queued_bytes :: size_t
  cfg_max_global_queued_bytes :: size_t
  cfg_max_handshake_bytes :: size_t
  cfg_max_messages_per_second :: size_t
  cfg_malformed_message_limit :: u32
  cfg_handshake_timeout :: int
  cfg_idle_timeout :: int
  cfg_websocket_ping_interval :: int
  cfg_websocket_pong_timeout :: int
  cfg_close_timeout :: int
  cfg_enable_thread_affinity :: bool
  cfg_origin_validator :: "(string \<Rightarrow> bool) option"

definition default_config :: ServerConfig where
  "default_config =
    \<lparr>cfg_port = 8080, cfg_worker_count = 0, cfg_max_connections = 10000, cfg_accept_depth = 64,
     cfg_receive_buffer_bytes = 8192, cfg_max_message_bytes = 1024 * 1024,
     cfg_max_session_inbound_bytes = 2 * 1024 * 1024, cfg_max_global_inbound_bytes = 256 * 1024 * 1024,
     cfg_max_session_queued_bytes = 4 * 1024 * 1024, cfg_max_global_queued_bytes = 512 * 1024 * 1024,
     cfg_max_handshake_bytes = 16 * 1024, cfg_max_messages_per_second = 10000,
     cfg_malformed_message_limit = 3, cfg_handshake_timeout = 5000, cfg_idle_timeout = 60000,
     cfg_websocket_ping_interval = 20000, cfg_websocket_pong_timeout = 10000, cfg_close_timeout = 3000,
     cfg_enable_thread_affinity = False, cfg_origin_validator = None\<rparr>"

record ServerMetrics =
  m_accepted_connections :: u64
  m_active_connections :: u64
  m_received_messages :: u64
  m_sent_messages :: u64
  m_malformed_messages :: u64
  m_rejected_connections :: u64
  m_send_failures :: u64
  m_queued_bytes :: u64
  m_inbound_bytes :: u64

definition zero_metrics :: ServerMetrics where
  "zero_metrics = \<lparr>m_accepted_connections = 0, m_active_connections = 0, m_received_messages = 0,
     m_sent_messages = 0, m_malformed_messages = 0, m_rejected_connections = 0, m_send_failures = 0,
     m_queued_bytes = 0, m_inbound_bytes = 0\<rparr>"

end
