(* ===== verification/Session_Handle.thy ===== *)
theory Session_Handle
  imports Prelude
begin

text \<open>
  \<open>src/core/session_handle.hpp\<close>: the value type that names a session outside the server,
  and the containers keyed by it. \<open>std::unordered_set\<close> is a list without duplicates; its
  iteration order is unspecified in C++, and no theorem depends on the order of the list.
\<close>

record SessionHandle =
  sh_id :: u64
  sh_generation :: u64

definition handle_bool :: "SessionHandle \<Rightarrow> bool" where
  "handle_bool h \<longleftrightarrow> sh_id h \<noteq> 0"

text \<open>\<open>std::hash<std::uint64_t>\<close> is implementation-defined and stays a parameter.\<close>

definition SessionHandleHash :: "(u64 \<Rightarrow> size_t) \<Rightarrow> SessionHandle \<Rightarrow> size_t" where
  "SessionHandleHash std_hash v =
    (let first = std_hash (sh_id v);
         second = std_hash (sh_generation v)
     in first XOR (second + 0x9e3779b97f4a7c15 + push_bit 6 first + drop_bit 2 first))"

text \<open>Two generations of one id collide only where \<open>std::hash\<close> itself collides.\<close>

lemma SessionHandleHash_generation:
  assumes "SessionHandleHash std_hash v = SessionHandleHash std_hash w" and "sh_id v = sh_id w"
  shows "std_hash (sh_generation v) = std_hash (sh_generation w)"
proof -
  have "(a :: size_t) XOR b = a XOR c \<longleftrightarrow> b = c" for a b c
    by (auto simp: bit_eq_iff bit_xor_iff)
  with assms show ?thesis
    by (simp add: SessionHandleHash_def Let_def)
qed

subsection \<open>Unordered sets\<close>

definition uset_insert :: "'a \<Rightarrow> 'a list \<Rightarrow> 'a list" where
  "uset_insert x xs = (if x \<in> set xs then xs else xs @ [x])"

definition uset_erase :: "'a \<Rightarrow> 'a list \<Rightarrow> 'a list" where
  "uset_erase x xs = removeAll x xs"

lemma set_uset_insert [simp]: "set (uset_insert x xs) = insert x (set xs)"
  by (auto simp: uset_insert_def)

lemma set_uset_erase [simp]: "set (uset_erase x xs) = set xs - {x}"
  by (simp add: uset_erase_def)

lemma uset_erase_empty: "uset_erase x xs = [] \<longleftrightarrow> set xs \<subseteq> {x}"
  by (metis Diff_eq_empty_iff set_empty set_uset_erase)

lemma distinct_uset [simp]:
  "distinct xs \<Longrightarrow> distinct (uset_insert x xs)" "distinct xs \<Longrightarrow> distinct (uset_erase x xs)"
  by (auto simp: uset_insert_def uset_erase_def distinct_removeAll)

lemma uset_insert_not_Nil [simp]: "uset_insert x xs \<noteq> []"
  by (auto simp: uset_insert_def)

end
