(* ===== verification/Session_Registry.thy ===== *)
theory Session_Registry
  imports Session_Handle "HOL-Library.AList"
begin

text \<open>
  \<open>ShardedSessionRegistry\<close> of \<open>src/core/iocp_server.cpp\<close>: the map from session ids to
  sessions, split into 32 shards with a lock each. Each call touches one shard under its lock
  (\<open>Snapshot\<close> one shard after the other) and is one step. The iteration order of
  \<open>std::unordered_map\<close> is unspecified; a shard is an association list, and no theorem depends on
  its order. A value is a session pointer; \<open>deref\<close> reads the session's own handle through it.
\<close>

subsection \<open>The code\<close>

definition ShardCount :: nat where
  "ShardCount = 32"

type_synonym 'v registry = "(u64 \<times> 'v) list list"

definition sr_new :: "'v registry" where
  "sr_new = replicate ShardCount []"

definition shard_of :: "SessionHandle \<Rightarrow> nat" where
  "shard_of h = unat (sh_id h) mod ShardCount"

definition sr_Insert :: "SessionHandle \<Rightarrow> 'v \<Rightarrow> 'v registry \<Rightarrow> 'v registry" where
  "sr_Insert h v r = r[shard_of h := AList.update (sh_id h) v (r ! shard_of h)]"

definition sr_Find :: "('v \<Rightarrow> SessionHandle) \<Rightarrow> SessionHandle \<Rightarrow> 'v registry \<Rightarrow> 'v option" where
  "sr_Find deref h r =
    (case map_of (r ! shard_of h) (sh_id h) of
       None \<Rightarrow> None
     | Some v \<Rightarrow> if sh_generation (deref v) \<noteq> sh_generation h then None else Some v)"

definition sr_Remove :: "('v \<Rightarrow> SessionHandle) \<Rightarrow> SessionHandle \<Rightarrow> 'v registry \<Rightarrow> 'v registry" where
  "sr_Remove deref h r =
    (case map_of (r ! shard_of h) (sh_id h) of
       None \<Rightarrow> r
     | Some v \<Rightarrow>
         if sh_generation (deref v) = sh_generation h
         then r[shard_of h := AList.delete (sh_id h) (r ! shard_of h)] else r)"

definition sr_Snapshot :: "'v registry \<Rightarrow> 'v list" where
  "sr_Snapshot r = concat (map (map snd) r)"

subsection \<open>The contract of a session directory\<close>

text \<open>What the server relies on: one partial map from ids to sessions; a lookup also compares the
  generation.\<close>

locale session_directory =
  fixes insert :: "SessionHandle \<Rightarrow> 'v \<Rightarrow> 'r \<Rightarrow> 'r"
    and find :: "('v \<Rightarrow> SessionHandle) \<Rightarrow> SessionHandle \<Rightarrow> 'r \<Rightarrow> 'v option"
    and remove :: "('v \<Rightarrow> SessionHandle) \<Rightarrow> SessionHandle \<Rightarrow> 'r \<Rightarrow> 'r"
    and snapshot :: "'r \<Rightarrow> 'v list"
    and entries :: "'r \<Rightarrow> u64 \<Rightarrow> 'v option"
    and wf :: "'r \<Rightarrow> bool"
  assumes insert_wf: "wf r \<Longrightarrow> wf (insert h v r)"
    and remove_wf: "wf r \<Longrightarrow> wf (remove d h r)"
    and insert_entries: "wf r \<Longrightarrow> entries (insert h v r) = (entries r)(sh_id h \<mapsto> v)"
    and find_entries: "wf r \<Longrightarrow> find d h r = Some v \<longleftrightarrow> entries r (sh_id h) = Some v \<and> sh_generation (d v) = sh_generation h"
    and remove_entries: "wf r \<Longrightarrow> entries (remove d h r) =
        (if find d h r = None then entries r else (entries r)(sh_id h := None))"
    and snapshot_entries: "wf r \<Longrightarrow> set (snapshot r) = ran (entries r)"
begin

lemma find_eq:
  assumes "wf r"
  shows "find d h r = (case entries r (sh_id h) of None \<Rightarrow> None
    | Some v \<Rightarrow> if sh_generation (d v) = sh_generation h then Some v else None)"
proof (cases "find d h r")
  case None
  then have "\<not> (entries r (sh_id h) = Some v \<and> sh_generation (d v) = sh_generation h)" for v
    using find_entries [OF assms, of d h v] by simp
  with None show ?thesis by (auto split: option.split)
next
  case (Some v)
  with find_entries [OF assms, of d h v] show ?thesis by simp
qed

lemma find_insert: "wf r \<Longrightarrow> d v = h \<Longrightarrow> find d h (insert h v r) = Some v"
  by (simp add: find_eq insert_wf insert_entries)

lemma find_insert_other: "wf r \<Longrightarrow> sh_id h' \<noteq> sh_id h \<Longrightarrow> find d h' (insert h v r) = find d h' r"
  by (simp add: find_eq insert_wf insert_entries)

text \<open>A stale handle, whose id was given to a later session, finds and removes nothing.\<close>

lemma find_stale:
  "wf r \<Longrightarrow> entries r (sh_id h) = Some v \<Longrightarrow> sh_generation (d v) \<noteq> sh_generation h \<Longrightarrow>
     find d h r = None \<and> entries (remove d h r) = entries r"
  by (simp add: find_eq remove_entries)

lemma find_remove: "wf r \<Longrightarrow> find d h (remove d h r) = None"
  by (simp add: find_eq [of "remove d h r"] remove_wf remove_entries)
    (simp add: find_eq split: option.split)

end

subsection \<open>The shards implement it\<close>

definition sr_entries :: "'v registry \<Rightarrow> u64 \<Rightarrow> 'v option" where
  "sr_entries r key = map_of (r ! (unat key mod ShardCount)) key"

definition sr_wf :: "'v registry \<Rightarrow> bool" where
  "sr_wf r \<longleftrightarrow> length r = ShardCount \<and>
     (\<forall>i < ShardCount. distinct (map fst (r ! i)) \<and> (\<forall>key \<in> fst ` set (r ! i). unat key mod ShardCount = i))"

lemma sr_new_wf [simp]: "sr_wf sr_new"
  by (simp add: sr_wf_def sr_new_def)

lemma sr_new_entries [simp]: "sr_entries sr_new = Map.empty"
  by (auto simp: sr_entries_def sr_new_def ShardCount_def)

lemma shard_of_less [simp]: "shard_of h < ShardCount"
  by (simp add: shard_of_def ShardCount_def)

lemma sr_shard_update:
  assumes "sr_wf r" and "distinct (map fst s)" and "\<forall>key \<in> fst ` set s. unat key mod ShardCount = i" and "i < ShardCount"
  shows "sr_wf (r[i := s])"
    and "sr_entries (r[i := s]) key = (if unat key mod ShardCount = i then map_of s key else sr_entries r key)"
  using assms by (auto simp: sr_wf_def sr_entries_def nth_list_update)

interpretation sr: session_directory sr_Insert sr_Find sr_Remove sr_Snapshot sr_entries sr_wf
proof
  fix r :: "'a registry" and h v d
  assume wf: "sr_wf r"
  let ?i = "shard_of h" and ?s = "r ! shard_of h"
  have s: "distinct (map fst ?s)" "\<forall>key \<in> fst ` set ?s. unat key mod ShardCount = ?i"
    using wf by (simp_all add: sr_wf_def)
  have keyed: "unat key mod ShardCount = ?i" if "key = sh_id h" for key
    using that by (simp add: shard_of_def)
  have loc: "map_of ?s key = sr_entries r key" if "unat key mod ShardCount = ?i" for key
    using that by (simp add: sr_entries_def)
  have ins: "distinct (map fst (AList.update (sh_id h) v ?s))"
    "\<forall>key \<in> fst ` set (AList.update (sh_id h) v ?s). unat key mod ShardCount = ?i"
    using s keyed by (auto simp: distinct_update dom_update)
  have del: "distinct (map fst (AList.delete (sh_id h) ?s))"
    "\<forall>key \<in> fst ` set (AList.delete (sh_id h) ?s). unat key mod ShardCount = ?i"
    using s by (auto simp: distinct_map_filter AList.delete_eq)
  show "sr_wf (sr_Insert h v r)"
    unfolding sr_Insert_def by (rule sr_shard_update [OF wf ins]) simp
  show "sr_wf (sr_Remove d h r)"
    unfolding sr_Remove_def using sr_shard_update(1) [OF wf del] wf by (auto split: option.split)
  show find: "sr_Find d h r = Some v \<longleftrightarrow> sr_entries r (sh_id h) = Some v \<and> sh_generation (d v) = sh_generation h" for v
    by (auto simp: sr_Find_def sr_entries_def shard_of_def split: option.splits)
  show "sr_entries (sr_Insert h v r) = (sr_entries r)(sh_id h \<mapsto> v)"
    unfolding sr_Insert_def using keyed
    by (auto simp: fun_eq_iff sr_shard_update(2) [OF wf ins shard_of_less] update_conv' loc)
  show "sr_entries (sr_Remove d h r) = (if sr_Find d h r = None then sr_entries r else (sr_entries r)(sh_id h := None))"
    unfolding sr_Remove_def sr_Find_def using keyed
    by (auto simp: fun_eq_iff sr_shard_update(2) [OF wf del shard_of_less] delete_conv' loc split: option.split)
  show "set (sr_Snapshot r) = ran (sr_entries r)"
  proof -
    have len: "length r = ShardCount" using wf by (simp add: sr_wf_def)
    have "x \<in> set (sr_Snapshot r) \<longleftrightarrow> (\<exists>i < ShardCount. \<exists>key. (key, x) \<in> set (r ! i))" for x
      using len by (force simp: sr_Snapshot_def in_set_conv_nth)
    also have "\<dots> x \<longleftrightarrow> (\<exists>key. sr_entries r key = Some x)" for x
    proof
      assume "\<exists>i < ShardCount. \<exists>key. (key, x) \<in> set (r ! i)"
      then obtain i key where i: "i < ShardCount" "(key, x) \<in> set (r ! i)" by blast
      with wf have "unat key mod ShardCount = i" "map_of (r ! i) key = Some x"
        by (force simp: sr_wf_def)+
      then show "\<exists>key. sr_entries r key = Some x" by (auto simp: sr_entries_def)
    next
      assume "\<exists>key. sr_entries r key = Some x"
      then obtain key where "map_of (r ! (unat key mod ShardCount)) key = Some x" by (auto simp: sr_entries_def)
      then have "(key, x) \<in> set (r ! (unat key mod ShardCount))" by (rule map_of_SomeD)
      moreover have "unat key mod ShardCount < ShardCount" by (simp add: ShardCount_def)
      ultimately show "\<exists>i < ShardCount. \<exists>key. (key, x) \<in> set (r ! i)" by blast
    qed
    finally show ?thesis by (auto simp: ran_def)
  qed
qed

end
