(* ===== verification/Receive_Buffer.thy ===== *)
theory Receive_Buffer
  imports Prelude
begin

text \<open>
  What the two inbound decoders of the server have in common. Both keep a byte buffer with a
  read cursor, compact it in \<open>CompactIfUseful\<close> and refuse to hold more than a configured
  number of unread bytes: the locale \<open>receive_buffer\<close> is that contract. Both then cut
  frames off the front of the unread bytes: the locale \<open>frame_stream\<close> is the contract of
  one such cut, and its lemmas show that the sequence of decoded frames does not depend on how
  the network split the byte stream into reads.
\<close>

subsection \<open>Compaction\<close>

text \<open>
  \<open>std::memmove\<close> of the last \<open>size - cursor\<close> bytes to the front of the buffer, then
  \<open>resize\<close>. The code is the same in both decoders.
\<close>

definition memmove_front :: "byte list \<Rightarrow> nat \<Rightarrow> byte list" where
  "memmove_front buf cur = drop cur buf @ drop (length buf - cur) buf"

definition compact :: "byte list \<Rightarrow> nat \<Rightarrow> byte list \<times> nat" where
  "compact buf cur =
    (if cur = 0 then (buf, cur)
     else if cur = length buf then ([], 0)
     else if cur \<ge> 4096 \<and> cur * 2 \<ge> length buf
       then (take (length buf - cur) (memmove_front buf cur), 0)
     else (buf, cur))"

lemma compact_unread:
  "compact buf cur = (buf', cur') \<Longrightarrow> drop cur' buf' = drop cur buf"
  by (auto simp: compact_def memmove_front_def split: if_splits)

lemma compact_cursor:
  "compact buf cur = (buf', cur') \<Longrightarrow> cur \<le> length buf \<Longrightarrow> cur' \<le> length buf'"
  by (auto simp: compact_def split: if_splits)

text \<open>The part of the buffer already read never outgrows what is still unread by much.\<close>

lemma compact_waste:
  "compact buf cur = (buf', cur') \<Longrightarrow> cur \<le> length buf \<Longrightarrow>
     cur' < max 4096 (length buf' - cur' + 1)"
  by (auto simp: compact_def memmove_front_def split: if_splits)

subsection \<open>The contract of \<open>Append\<close>\<close>

fun feed :: "(byte list \<Rightarrow> 's \<Rightarrow> bool \<times> 's) \<Rightarrow> byte list list \<Rightarrow> 's \<Rightarrow> bool \<times> 's" where
  "feed push [] s = (True, s)"
| "feed push (c # cs) s =
     (case push c s of (ok, s') \<Rightarrow> if ok then feed push cs s' else (False, s'))"

locale receive_buffer =
  fixes push :: "byte list \<Rightarrow> 's \<Rightarrow> bool \<times> 's"
    and unread :: "'s \<Rightarrow> byte list"
    and limit :: "'s \<Rightarrow> nat"
    and failed :: "'s \<Rightarrow> bool"
    and wf :: "'s \<Rightarrow> bool"
    and ctl :: "'s \<Rightarrow> 'c"
  assumes push_fits:
      "wf s \<Longrightarrow> length (unread s) + length bs \<le> limit s \<Longrightarrow> push bs s = (ok, s') \<Longrightarrow>
        ok \<and> unread s' = unread s @ bs \<and> failed s' = failed s"
    and push_overflow:
      "wf s \<Longrightarrow> limit s < length (unread s) + length bs \<Longrightarrow> push bs s = (ok, s') \<Longrightarrow>
        \<not> ok \<and> unread s' = unread s \<and> failed s'"
    and push_frame:
      "wf s \<Longrightarrow> push bs s = (ok, s') \<Longrightarrow> wf s' \<and> limit s' = limit s \<and> ctl s' = ctl s"
begin

lemma push_ok_iff:
  assumes "wf s" and "push bs s = (ok, s')"
  shows "ok \<longleftrightarrow> length (unread s) + length bs \<le> limit s"
  using push_fits [of s bs ok s'] push_overflow [of s bs ok s'] assms by fastforce

text \<open>The unread bytes never exceed the limit.\<close>

lemma push_bounded:
  assumes "wf s" and "length (unread s) \<le> limit s" and "push bs s = (ok, s')"
  shows "length (unread s') \<le> limit s'"
proof (cases "length (unread s) + length bs \<le> limit s")
  case True
  then show ?thesis
    using push_fits [OF assms(1) True assms(3)] push_frame [OF assms(1,3)] by simp
next
  case False
  then have "limit s < length (unread s) + length bs" by simp
  from push_overflow [OF assms(1) this assms(3)] push_frame [OF assms(1,3)] assms(2)
  show ?thesis by simp
qed

text \<open>
  Appending a list of chunks is accepted exactly when their total fits, and is then the same as
  appending their concatenation.
\<close>

lemma feed_ok_iff:
  assumes "wf s" and "feed push cs s = (ok, s')" and "length (unread s) \<le> limit s"
  shows "ok \<longleftrightarrow> length (unread s) + length (concat cs) \<le> limit s"
  using assms
proof (induction cs arbitrary: s)
  case (Cons c cs)
  obtain ok1 s1 where a: "push c s = (ok1, s1)" by (cases "push c s")
  note fr = push_frame [OF \<open>wf s\<close> a]
  show ?case
  proof (cases "length (unread s) + length c \<le> limit s")
    case True
    note fits = push_fits [OF \<open>wf s\<close> True a]
    with a Cons.prems have "feed push cs s1 = (ok, s')" by simp
    with fits fr True show ?thesis
      using Cons.IH [of s1] by (simp add: add.assoc)
  next
    case False
    then have "\<not> ok1" using push_ok_iff [OF \<open>wf s\<close> a] by simp
    with a Cons.prems False show ?thesis by simp
  qed
qed simp

lemma feed_unread:
  assumes "wf s" and "feed push cs s = (True, s')"
  shows "wf s' \<and> unread s' = unread s @ concat cs \<and> limit s' = limit s
    \<and> ctl s' = ctl s \<and> failed s' = failed s"
  using assms
proof (induction cs arbitrary: s)
  case (Cons c cs)
  obtain ok1 s1 where a: "push c s = (ok1, s1)" by (cases "push c s")
  with Cons.prems have "ok1" and f: "feed push cs s1 = (True, s')"
    by (auto split: if_splits)
  then have "length (unread s) + length c \<le> limit s"
    using push_ok_iff [OF \<open>wf s\<close> a] by simp
  note fits = push_fits [OF \<open>wf s\<close> this a] and fr = push_frame [OF \<open>wf s\<close> a]
  with Cons.IH [OF _ f] show ?case by simp
qed simp

end

subsection \<open>Cutting frames off a byte stream\<close>

text \<open>
  A decoder looks at its control state and the unread bytes and either waits for more bytes,
  cuts a frame off the front (which may emit some events), or fails for good.
\<close>

datatype ('c, 'e, 'x) cut =
    Wait
  | Cut (cut_size: nat) (cut_ctl: 'c) (cut_events: "'e list")
  | Fail 'x

function drain :: "('c \<Rightarrow> byte list \<Rightarrow> ('c, 'e, 'x) cut) \<Rightarrow> 'c \<Rightarrow> byte list
    \<Rightarrow> 'e list \<times> 'c \<times> byte list \<times> 'x option" where
  "drain step c u =
    (case step c u of
       Wait \<Rightarrow> ([], c, u, None)
     | Fail x \<Rightarrow> ([], c, u, Some x)
     | Cut n c' es \<Rightarrow>
         if 0 < n \<and> n \<le> length u
         then (case drain step c' (drop n u) of (es', r) \<Rightarrow> (es @ es', r))
         else ([], c, u, None))"
  by pat_completeness auto
termination
  by (relation "measure (\<lambda>(step, c, u). length u)") auto

declare drain.simps [simp del]

fun drain_chunks :: "('c \<Rightarrow> byte list \<Rightarrow> ('c, 'e, 'x) cut) \<Rightarrow> 'c \<Rightarrow> byte list
    \<Rightarrow> byte list list \<Rightarrow> 'e list \<times> 'c \<times> byte list \<times> 'x option" where
  "drain_chunks step c u [] = ([], c, u, None)"
| "drain_chunks step c u (b # bs) =
    (case drain step c (u @ b) of
       (es, c', u', Some x) \<Rightarrow> (es, c', u', Some x)
     | (es, c', u', None) \<Rightarrow>
         (case drain_chunks step c' u' bs of (es', r) \<Rightarrow> (es @ es', r)))"

locale frame_stream =
  fixes step :: "'c \<Rightarrow> byte list \<Rightarrow> ('c, 'e, 'x) cut"
  assumes cut_bounds: "step c u = Cut n c' es \<Longrightarrow> 0 < n \<and> n \<le> length u"
    and cut_stable: "step c u = Cut n c' es \<Longrightarrow> step c (u @ v) = Cut n c' es"
    and fail_stable: "step c u = Fail x \<Longrightarrow> step c (u @ v) = Fail x"
begin

lemma drain_Wait: "step c u = Wait \<Longrightarrow> drain step c u = ([], c, u, None)"
  by (simp add: drain.simps)

lemma drain_Fail: "step c u = Fail x \<Longrightarrow> drain step c u = ([], c, u, Some x)"
  by (simp add: drain.simps)

lemma drain_Cut:
  "step c u = Cut n c' es \<Longrightarrow>
     drain step c u = (case drain step c' (drop n u) of (es', r) \<Rightarrow> (es @ es', r))"
  using cut_bounds [of c u n c' es] by (simp add: drain.simps [of step c u])

text \<open>After a drain without failure the decoder waits for more bytes.\<close>

lemma drain_quiescent: "drain step c u = (es, c', u', None) \<Longrightarrow> step c' u' = Wait"
proof (induction "length u" arbitrary: c u es rule: less_induct)
  case less
  show ?case
  proof (cases "step c u")
    case Wait
    with less.prems show ?thesis by (simp add: drain_Wait)
  next
    case (Cut n c1 es1)
    have "length (drop n u) < length u"
      using cut_bounds [OF Cut] by auto
    from less.hyps [OF this, of c1] less.prems Cut show ?thesis
      by (auto simp: drain_Cut split: prod.splits)
  next
    case (Fail x)
    with less.prems show ?thesis by (simp add: drain_Fail)
  qed
qed

lemma drain_failure: "drain step c u = (es, c', u', Some x) \<Longrightarrow> step c' u' = Fail x"
proof (induction "length u" arbitrary: c u es rule: less_induct)
  case less
  show ?case
  proof (cases "step c u")
    case (Cut n c1 es1)
    have "length (drop n u) < length u"
      using cut_bounds [OF Cut] by auto
    from less.hyps [OF this, of c1] less.prems Cut show ?thesis
      by (auto simp: drain_Cut split: prod.splits)
  qed (use less.prems in \<open>auto simp: drain_Wait drain_Fail\<close>)
qed

text \<open>Bytes that arrive later do not change what was decoded before them.\<close>

lemma drain_append:
  "drain step c u = (es, c', u', x) \<Longrightarrow>
   drain step c (u @ v) =
     (case x of Some y \<Rightarrow> (es, c', u' @ v, Some y)
      | None \<Rightarrow> (case drain step c' (u' @ v) of (es', r) \<Rightarrow> (es @ es', r)))"
proof (induction "length u" arbitrary: c u es rule: less_induct)
  case less
  show ?case
  proof (cases "step c u")
    case Wait
    with less.prems show ?thesis by (auto simp: drain_Wait split: prod.splits)
  next
    case (Cut n c1 es1)
    obtain es2 r where d: "drain step c1 (drop n u) = (es2, r)"
      by (cases "drain step c1 (drop n u)")
    with less.prems Cut have e: "es = es1 @ es2" "r = (c', u', x)"
      by (auto simp: drain_Cut)
    have "length (drop n u) < length u" and n: "n \<le> length u"
      using cut_bounds [OF Cut] by auto
    from less.hyps [OF this(1), of c1 es2] d e
    have "drain step c1 (drop n u @ v) =
       (case x of Some y \<Rightarrow> (es2, c', u' @ v, Some y)
        | None \<Rightarrow> (case drain step c' (u' @ v) of (es', r) \<Rightarrow> (es2 @ es', r)))"
      by simp
    with n show ?thesis
      by (simp add: drain_Cut [OF cut_stable [OF Cut]] e split: option.splits prod.splits)
  next
    case (Fail y)
    from drain_Fail [OF fail_stable [OF Fail, of v]] drain_Fail [OF Fail] less.prems
    show ?thesis by auto
  qed
qed

text \<open>
  However the stream is cut into reads, the decoder emits the same events and ends in the same
  control state, with the same failure if there is one.
\<close>

lemma drain_chunks_concat:
  assumes "step c u = Wait"
    and "drain_chunks step c u bs = (es, c', u', x)"
  shows "\<exists>w. drain step c (u @ concat bs) = (es, c', w, x) \<and> (x = None \<longrightarrow> w = u')"
  using assms
proof (induction bs arbitrary: c u es)
  case Nil
  then show ?case by (simp add: drain_Wait)
next
  case (Cons b bs)
  obtain es1 c1 u1 x1 where d: "drain step c (u @ b) = (es1, c1, u1, x1)"
    by (metis prod_cases4)
  note app = drain_append [OF d, of "concat bs"]
  show ?case
  proof (cases x1)
    case (Some y)
    with d app Cons.prems show ?thesis by auto
  next
    case None
    with d have q: "step c1 u1 = Wait" by (auto intro: drain_quiescent)
    from None d Cons.prems obtain es2 where
      e: "drain_chunks step c1 u1 bs = (es2, c', u', x)" "es = es1 @ es2"
      by (auto split: prod.splits)
    from Cons.IH [OF q e(1)] obtain w where
      w: "drain step c1 (u1 @ concat bs) = (es2, c', w, x)" "x = None \<longrightarrow> w = u'"
      by auto
    with app None e(2) show ?thesis by auto
  qed
qed

end

end
