(* ===== verification/Framing.thy ===== *)
theory Framing
  imports Receive_Buffer
begin

text \<open>
  The raw TCP transport, \<open>src/protocol/framing.hpp\<close>: a 4-byte big-endian length prefix
  followed by that many bytes. \<open>LengthPrefixedAccumulator\<close> buffers received bytes and cuts
  messages off them; \<open>EncodeLength\<close> writes the prefix.
\<close>

subsection \<open>Data\<close>

datatype FrameDecodeStatus = NeedMoreData | MessageReady | InvalidLength | BufferLimitExceeded

record LengthPrefixedAccumulator =
  lpa_max_message_bytes :: size_t
  lpa_max_buffered_bytes :: size_t
  lpa_buffer :: "byte list"
  lpa_cursor :: nat
  lpa_limit_exceeded :: bool

definition HeaderSize :: nat where
  "HeaderSize = 4"

definition lpa_new :: "size_t \<Rightarrow> size_t \<Rightarrow> LengthPrefixedAccumulator" where
  "lpa_new max_message max_buffered =
     \<lparr>lpa_max_message_bytes = max_message, lpa_max_buffered_bytes = max_buffered,
      lpa_buffer = [], lpa_cursor = 0, lpa_limit_exceeded = False\<rparr>"

subsection \<open>Operations\<close>

definition lpa_CompactIfUseful :: "LengthPrefixedAccumulator \<Rightarrow> LengthPrefixedAccumulator" where
  "lpa_CompactIfUseful a =
    (case compact (lpa_buffer a) (lpa_cursor a) of
       (buf, cur) \<Rightarrow> a\<lparr>lpa_buffer := buf, lpa_cursor := cur\<rparr>)"

definition lpa_BufferedBytes :: "LengthPrefixedAccumulator \<Rightarrow> nat" where
  "lpa_BufferedBytes a = length (lpa_buffer a) - lpa_cursor a"

definition lpa_Append ::
  "byte list \<Rightarrow> LengthPrefixedAccumulator \<Rightarrow> bool \<times> LengthPrefixedAccumulator" where
  "lpa_Append bytes a0 =
    (let a = lpa_CompactIfUseful a0;
         available = length (lpa_buffer a) - lpa_cursor a
     in if length bytes > unat (lpa_max_buffered_bytes a) \<or>
           available > unat (lpa_max_buffered_bytes a) - length bytes
        then (False, a\<lparr>lpa_limit_exceeded := True\<rparr>)
        else (True, a\<lparr>lpa_buffer := lpa_buffer a @ bytes\<rparr>))"

text \<open>The 32-bit length from the four header bytes.\<close>

definition be32 :: "byte \<Rightarrow> byte \<Rightarrow> byte \<Rightarrow> byte \<Rightarrow> u32" where
  "be32 b0 b1 b2 b3 =
     push_bit 24 (ucast b0) OR push_bit 16 (ucast b1) OR push_bit 8 (ucast b2) OR ucast b3"

definition lpa_Next :: "LengthPrefixedAccumulator
    \<Rightarrow> FrameDecodeStatus \<times> byte list \<times> LengthPrefixedAccumulator" where
  "lpa_Next a =
    (if lpa_limit_exceeded a then (BufferLimitExceeded, [], a)
     else
       let available = length (lpa_buffer a) - lpa_cursor a
       in if available < HeaderSize then (NeedMoreData, [], a)
          else
            let header = drop (lpa_cursor a) (lpa_buffer a);
                len = be32 (header ! 0) (header ! 1) (header ! 2) (header ! 3)
            in if len = 0 \<or> unat len > unat (lpa_max_message_bytes a)
                 then (InvalidLength, [], a)
               else if available - HeaderSize < unat len then (NeedMoreData, [], a)
               else (MessageReady,
                     take (unat len) (drop (lpa_cursor a + HeaderSize) (lpa_buffer a)),
                     a\<lparr>lpa_cursor := lpa_cursor a + (HeaderSize + unat len)\<rparr>))"

definition lpa_Reset :: "LengthPrefixedAccumulator \<Rightarrow> LengthPrefixedAccumulator" where
  "lpa_Reset a = a\<lparr>lpa_buffer := [], lpa_cursor := 0, lpa_limit_exceeded := False\<rparr>"

definition EncodeLength :: "nat \<Rightarrow> cpp_exception + byte list" where
  "EncodeLength n =
    (if n > 2 ^ 32 - 1 then Inl (LengthError ''frame payload exceeds 32-bit length prefix'')
     else let val = (of_nat n :: u32)
          in Inr [ucast (drop_bit 24 val AND 0xff), ucast (drop_bit 16 val AND 0xff),
                  ucast (drop_bit 8 val AND 0xff), ucast (val AND 0xff)])"

text \<open>
  The reading loop of \<open>IocpServer::Impl::ProcessRaw\<close> with the delivered messages
  collected: \<open>Next\<close> until it needs more data or fails.
\<close>

function lpa_ReadAll :: "LengthPrefixedAccumulator
    \<Rightarrow> byte list list \<times> FrameDecodeStatus \<times> LengthPrefixedAccumulator" where
  "lpa_ReadAll a =
    (case lpa_Next a of (status, payload, a') \<Rightarrow>
       if status = MessageReady
       then (case lpa_ReadAll a' of (ms, r) \<Rightarrow> (payload # ms, r))
       else ([], status, a'))"
  by pat_completeness auto
termination
  by (relation "measure (\<lambda>a. length (lpa_buffer a) - lpa_cursor a)")
    (auto simp: lpa_Next_def HeaderSize_def Let_def split: if_splits)

declare lpa_ReadAll.simps [simp del]

fun lpa_ReadChunks :: "byte list list \<Rightarrow> LengthPrefixedAccumulator
    \<Rightarrow> byte list list \<times> FrameDecodeStatus \<times> LengthPrefixedAccumulator" where
  "lpa_ReadChunks [] a = ([], NeedMoreData, a)"
| "lpa_ReadChunks (c # cs) a =
    (case lpa_Append c a of (ok, a1) \<Rightarrow>
       if \<not> ok then ([], BufferLimitExceeded, a1)
       else (case lpa_ReadAll a1 of (ms, status, a2) \<Rightarrow>
         if status \<noteq> NeedMoreData then (ms, status, a2)
         else (case lpa_ReadChunks cs a2 of (ms', r) \<Rightarrow> (ms @ ms', r))))"


subsection \<open>The buffer contract\<close>

definition lpa_unread :: "LengthPrefixedAccumulator \<Rightarrow> byte list" where
  "lpa_unread a = drop (lpa_cursor a) (lpa_buffer a)"

definition lpa_wf :: "LengthPrefixedAccumulator \<Rightarrow> bool" where
  "lpa_wf a \<longleftrightarrow> lpa_cursor a \<le> length (lpa_buffer a)"

lemma length_lpa_unread [size_simps]: "length (lpa_unread a) = lpa_BufferedBytes a"
  by (simp add: lpa_unread_def lpa_BufferedBytes_def)

lemma lpa_new_wf [simp]: "lpa_wf (lpa_new mm mb)" and lpa_new_unread [simp]: "lpa_unread (lpa_new mm mb) = []"
  by (simp_all add: lpa_wf_def lpa_unread_def lpa_new_def)

lemma lpa_Compact:
  "lpa_unread (lpa_CompactIfUseful a) = lpa_unread a"
  "lpa_wf a \<Longrightarrow> lpa_wf (lpa_CompactIfUseful a)"
  "lpa_max_buffered_bytes (lpa_CompactIfUseful a) = lpa_max_buffered_bytes a"
  "lpa_max_message_bytes (lpa_CompactIfUseful a) = lpa_max_message_bytes a"
  "lpa_limit_exceeded (lpa_CompactIfUseful a) = lpa_limit_exceeded a"
  by (auto simp: lpa_CompactIfUseful_def lpa_unread_def lpa_wf_def
      dest: compact_unread compact_cursor split: prod.splits)

text \<open>\<open>Append\<close> accepts bytes exactly when the unread bytes stay within the limit.\<close>

interpretation lpa: receive_buffer lpa_Append lpa_unread
  "\<lambda>a. unat (lpa_max_buffered_bytes a)" lpa_limit_exceeded lpa_wf lpa_max_message_bytes
proof
  fix s s' :: LengthPrefixedAccumulator and bs ok
  assume wf: "lpa_wf s" and app: "lpa_Append bs s = (ok, s')"
  let ?c = "lpa_CompactIfUseful s"
  have len: "length (lpa_buffer ?c) - lpa_cursor ?c = length (lpa_unread s)"
    using lpa_Compact(1) [of s] by (metis length_drop lpa_unread_def)
  have wfc: "lpa_wf ?c" using wf by (rule lpa_Compact)
  show "lpa_wf s' \<and> unat (lpa_max_buffered_bytes s') = unat (lpa_max_buffered_bytes s)
      \<and> lpa_max_message_bytes s' = lpa_max_message_bytes s"
    using app wfc by (auto simp: lpa_Append_def Let_def lpa_wf_def lpa_Compact split: if_splits)
  show "ok \<and> lpa_unread s' = lpa_unread s @ bs \<and> lpa_limit_exceeded s' = lpa_limit_exceeded s"
    if "length (lpa_unread s) + length bs \<le> unat (lpa_max_buffered_bytes s)"
    using app that wfc lpa_Compact(1) [of s]
    by (auto simp: lpa_Append_def Let_def len lpa_Compact lpa_wf_def lpa_unread_def split: if_splits)
  show "\<not> ok \<and> lpa_unread s' = lpa_unread s \<and> lpa_limit_exceeded s'"
    if "unat (lpa_max_buffered_bytes s) < length (lpa_unread s) + length bs"
    using app that lpa_Compact(1) [of s]
    by (auto simp: lpa_Append_def Let_def len lpa_Compact lpa_unread_def split: if_splits)
qed

subsection \<open>The length prefix\<close>

lemma be32_of_bytes:
  "be32 (ucast (drop_bit 24 v)) (ucast (drop_bit 16 v)) (ucast (drop_bit 8 v)) (ucast v) = v"
proof (rule bit_word_eqI)
  fix n
  assume "n < LENGTH(32)"
  then consider "n < 8" | "8 \<le> n" "n < 16" | "16 \<le> n" "n < 24" | "24 \<le> n" "n < 32"
    by fastforce
  then show "bit (be32 (ucast (drop_bit 24 v)) (ucast (drop_bit 16 v)) (ucast (drop_bit 8 v))
      (ucast v)) n \<longleftrightarrow> bit v n"
    by cases (auto simp: be32_def bit_simps)
qed

text \<open>What \<open>EncodeLength\<close> writes is read back by the header decoding of \<open>Next\<close>.\<close>

lemma EncodeLength_ok:
  assumes "n < 2 ^ 32"
  obtains b0 b1 b2 b3 where "EncodeLength n = Inr [b0, b1, b2, b3]" and "unat (be32 b0 b1 b2 b3) = n"
proof -
  let ?v = "of_nat n :: u32"
  from assms have "EncodeLength n = Inr [ucast (drop_bit 24 ?v), ucast (drop_bit 16 ?v),
      ucast (drop_bit 8 ?v), ucast ?v]"
    by (simp add: EncodeLength_def Let_def)
  moreover from assms have "unat (be32 (ucast (drop_bit 24 ?v)) (ucast (drop_bit 16 ?v))
      (ucast (drop_bit 8 ?v)) (ucast ?v)) = n"
    by (simp only: be32_of_bytes) (simp add: unat_of_nat)
  ultimately show ?thesis by (rule that)
qed

subsection \<open>\<open>Next\<close> as a cut of the unread bytes\<close>

definition raw_cut :: "size_t \<Rightarrow> unit \<Rightarrow> byte list \<Rightarrow> (unit, byte list, FrameDecodeStatus) cut" where
  "raw_cut max_message c u =
    (if length u < HeaderSize then Wait
     else let n = unat (be32 (u ! 0) (u ! 1) (u ! 2) (u ! 3))
          in if n = 0 \<or> n > unat max_message then Fail InvalidLength
             else if length u < HeaderSize + n then Wait
             else Cut (HeaderSize + n) () [take n (drop HeaderSize u)])"

interpretation raw: frame_stream "raw_cut mm" for mm
  by unfold_locales
    (auto simp: raw_cut_def Let_def HeaderSize_def nth_append split: if_splits)

lemma lpa_Next_cut:
  assumes "lpa_wf a" and "\<not> lpa_limit_exceeded a"
  shows "lpa_Next a =
    (case raw_cut (lpa_max_message_bytes a) () (lpa_unread a) of
       Wait \<Rightarrow> (NeedMoreData, [], a)
     | Fail x \<Rightarrow> (x, [], a)
     | Cut n c ms \<Rightarrow> (MessageReady, hd ms, a\<lparr>lpa_cursor := lpa_cursor a + n\<rparr>))"
proof -
  have "length (lpa_unread a) = length (lpa_buffer a) - lpa_cursor a"
    by (simp add: lpa_unread_def)
  moreover have "drop (lpa_cursor a + HeaderSize) (lpa_buffer a) = drop HeaderSize (lpa_unread a)"
    by (simp add: lpa_unread_def add.commute)
  moreover have "len = 0 \<longleftrightarrow> unat len = 0" for len :: u32
    by (simp add: unat_eq_zero)
  ultimately show ?thesis
    using assms
    by (auto simp: lpa_Next_def raw_cut_def Let_def lpa_unread_def [symmetric])
qed

lemma lpa_advance:
  assumes "lpa_wf a" and "n \<le> length (lpa_unread a)"
  shows "lpa_wf (a\<lparr>lpa_cursor := lpa_cursor a + n\<rparr>)"
    and "lpa_unread (a\<lparr>lpa_cursor := lpa_cursor a + n\<rparr>) = drop n (lpa_unread a)"
  using assms by (auto simp: lpa_wf_def lpa_unread_def add.commute)

text \<open>The reading loop is the drain of the cut function.\<close>

lemma lpa_ReadAll_drain:
  assumes "lpa_wf a" and "\<not> lpa_limit_exceeded a"
    and "drain (raw_cut (lpa_max_message_bytes a)) () (lpa_unread a) = (ms, c, u, x)"
    and "lpa_ReadAll a = (ms', status, a')"
  shows "ms' = ms \<and> lpa_unread a' = u \<and> status = (case x of None \<Rightarrow> NeedMoreData | Some s \<Rightarrow> s)
    \<and> lpa_wf a' \<and> \<not> lpa_limit_exceeded a' \<and> lpa_max_message_bytes a' = lpa_max_message_bytes a
    \<and> lpa_max_buffered_bytes a' = lpa_max_buffered_bytes a"
  using assms
proof (induction a arbitrary: ms ms' rule: lpa_ReadAll.induct)
  case (1 a)
  note nxt = lpa_Next_cut [OF 1(2,3)]
  show ?case
  proof (cases "raw_cut (lpa_max_message_bytes a) () (lpa_unread a)")
    case Wait
    with 1 nxt show ?thesis by (auto simp: raw.drain_Wait lpa_ReadAll.simps [of a])
  next
    case (Fail y)
    moreover from Fail have "y = InvalidLength"
      by (auto simp: raw_cut_def Let_def split: if_splits)
    ultimately show ?thesis
      using 1 nxt by (auto simp: raw.drain_Fail lpa_ReadAll.simps [of a])
  next
    case (Cut n c' es)
    then obtain m where es: "es = [m]"
      by (auto simp: raw_cut_def Let_def split: if_splits)
    let ?a1 = "a\<lparr>lpa_cursor := lpa_cursor a + n\<rparr>"
    have n: "n \<le> length (lpa_unread a)" using raw.cut_bounds [OF Cut] by simp
    note adv = lpa_advance [OF 1(2) n]
    from Cut nxt es have nx: "lpa_Next a = (MessageReady, m, ?a1)" by simp
    obtain ms1 r where d: "drain (raw_cut (lpa_max_message_bytes a)) () (drop n (lpa_unread a)) = (ms1, r)"
      by (cases "drain (raw_cut (lpa_max_message_bytes a)) () (drop n (lpa_unread a))")
    with 1(4) Cut es have ms: "ms = m # ms1" "r = (c, u, x)"
      by (auto simp: raw.drain_Cut)
    obtain ms2 where l: "lpa_ReadAll ?a1 = (ms2, status, a')" "ms' = m # ms2"
      using 1(5) nx by (auto simp: lpa_ReadAll.simps [of a] split: prod.splits)
    from 1(1) [OF nx [symmetric] refl refl, of ms1 ms2] adv 1(3) d ms l show ?thesis
      by simp
  qed
qed

subsection \<open>Frames on the wire\<close>

text \<open>What \<open>Send\<close> puts on a raw TCP connection: the encoded length, then the payload.\<close>

definition raw_frame :: "byte list \<Rightarrow> byte list" where
  "raw_frame m = (case EncodeLength (length m) of Inl _ \<Rightarrow> [] | Inr h \<Rightarrow> h @ m)"

definition raw_sendable :: "size_t \<Rightarrow> byte list \<Rightarrow> bool" where
  "raw_sendable max_message m \<longleftrightarrow>
     0 < length m \<and> length m \<le> unat max_message \<and> length m < 2 ^ 32"

lemma raw_cut_frame:
  assumes "raw_sendable mm m"
  shows "raw_cut mm () (raw_frame m @ v) = Cut (HeaderSize + length m) () [m]"
proof -
  from assms have "length m < 2 ^ 32" by (simp add: raw_sendable_def)
  then obtain b0 b1 b2 b3 where
    "EncodeLength (length m) = Inr [b0, b1, b2, b3]" and "unat (be32 b0 b1 b2 b3) = length m"
    by (rule EncodeLength_ok)
  with assms show ?thesis
    by (simp add: raw_frame_def raw_cut_def raw_sendable_def HeaderSize_def Let_def)
qed

lemma length_raw_frame:
  "raw_sendable mm m \<Longrightarrow> length (raw_frame m) = HeaderSize + length m"
  by (simp add: raw_frame_def raw_sendable_def HeaderSize_def EncodeLength_def Let_def)

lemma drain_raw_frames:
  "list_all (raw_sendable mm) ms \<Longrightarrow>
     drain (raw_cut mm) () (concat (map raw_frame ms)) = (ms, (), [], None)"
proof (induction ms)
  case Nil
  have "raw_cut mm () [] = Wait" by (simp add: raw_cut_def HeaderSize_def)
  then show ?case by (simp add: raw.drain_Wait)
next
  case (Cons m ms)
  then have cut: "raw_cut mm () (raw_frame m @ concat (map raw_frame ms)) =
      Cut (HeaderSize + length m) () [m]"
    by (intro raw_cut_frame) simp
  moreover have "length (raw_frame m) = HeaderSize + length m"
    using Cons.prems by (auto intro: length_raw_frame)
  ultimately show ?case
    using Cons by (simp add: raw.drain_Cut)
qed

text \<open>A waiting decoder holds less than one maximal frame.\<close>

lemma raw_Wait_bound: "raw_cut mm () u = Wait \<Longrightarrow> length u < HeaderSize + unat mm"
  by (auto simp: raw_cut_def Let_def HeaderSize_def split: if_splits)

lemma lpa_ReadChunks_drain:
  assumes "lpa_wf a" and "\<not> lpa_limit_exceeded a"
    and "raw_cut (lpa_max_message_bytes a) () (lpa_unread a) = Wait"
    and "\<forall>c \<in> set cs. length c + unat (lpa_max_message_bytes a) + HeaderSize
      \<le> unat (lpa_max_buffered_bytes a) + 1"
    and "drain_chunks (raw_cut (lpa_max_message_bytes a)) () (lpa_unread a) cs = (ms, c', u, None)"
  shows "\<exists>a'. lpa_ReadChunks cs a = (ms, NeedMoreData, a') \<and> lpa_unread a' = u"
  using assms
proof (induction cs arbitrary: a ms)
  case Nil
  then show ?case by simp
next
  case (Cons c cs)
  let ?step = "raw_cut (lpa_max_message_bytes a)"
  obtain ok a1 where app: "lpa_Append c a = (ok, a1)" by (cases "lpa_Append c a")
  have "length (lpa_unread a) + length c \<le> unat (lpa_max_buffered_bytes a)"
    using raw_Wait_bound [OF Cons.prems(3)] Cons.prems(4) by simp
  note a1 = lpa.push_fits [OF Cons.prems(1) this app] lpa.push_frame [OF Cons.prems(1) app]
  obtain ms1 c1 u1 x where d: "drain ?step () (lpa_unread a @ c) = (ms1, c1, u1, x)"
    by (metis prod_cases4)
  with Cons.prems(5) obtain ms2 where
    x: "x = None" and ch: "drain_chunks ?step c1 u1 cs = (ms2, c', u, None)" and ms: "ms = ms1 @ ms2"
    by (auto split: option.splits prod.splits)
  obtain ms1' status a2 where rd: "lpa_ReadAll a1 = (ms1', status, a2)"
    by (metis prod_cases3)
  have "lpa_max_buffered_bytes a1 = lpa_max_buffered_bytes a"
    using a1 by (simp add: word_unat_eq_iff)
  with lpa_ReadAll_drain [of a1 ms1 c1 u1 x ms1' status a2] a1 d rd x Cons.prems(2)
  have a2: "ms1' = ms1" "lpa_unread a2 = u1" "status = NeedMoreData" "lpa_wf a2"
    "\<not> lpa_limit_exceeded a2" "lpa_max_message_bytes a2 = lpa_max_message_bytes a"
    "lpa_max_buffered_bytes a2 = lpa_max_buffered_bytes a"
    by auto
  have "?step () u1 = Wait" using raw.drain_quiescent [OF d [unfolded x]] by simp
  with Cons.IH [of a2 ms2] a2 ch Cons.prems(4) obtain a' where
    "lpa_ReadChunks cs a2 = (ms2, NeedMoreData, a')" "lpa_unread a' = u"
    by auto
  with app a1 rd a2 ms show ?case by simp
qed

lemma EncodeLength_be32:
  "EncodeLength (unat (be32 b0 b1 b2 b3)) = Inr [b0, b1, b2, b3]"
proof -
  let ?v = "be32 b0 b1 b2 b3"
  have "unat ?v < 2 ^ LENGTH(32)" by (rule unsigned_less)
  moreover have "(ucast (drop_bit 24 ?v) :: byte) = b0" "(ucast (drop_bit 16 ?v) :: byte) = b1"
    "(ucast (drop_bit 8 ?v) :: byte) = b2" "(ucast ?v :: byte) = b3"
    by (rule bit_word_eqI; auto simp: be32_def bit_simps dest: bit_imp_le_length)+
  ultimately show ?thesis
    by (simp add: EncodeLength_def Let_def)
qed

lemma raw_cut_sound:
  assumes "raw_cut mm () u = Cut n c es"
  obtains m where "es = [m]" and "raw_sendable mm m" and "u = raw_frame m @ drop n u"
proof -
  let ?len = "be32 (u ! 0) (u ! 1) (u ! 2) (u ! 3)"
  have lt: "unat ?len < 2 ^ LENGTH(32)" by (rule unsigned_less)
  from assms have len: "HeaderSize + unat ?len \<le> length u" "unat ?len \<noteq> 0"
      "unat ?len \<le> unat mm" "n = HeaderSize + unat ?len"
      "es = [take (unat ?len) (drop HeaderSize u)]"
    by (auto simp: raw_cut_def Let_def split: if_splits)
  let ?m = "take (unat ?len) (drop HeaderSize u)"
  have lm: "length ?m = unat ?len" using len by simp
  have hd4: "take HeaderSize u = [u ! 0, u ! 1, u ! 2, u ! 3]"
    using len take_4_nth [of u] by (simp add: HeaderSize_def)
  have "raw_sendable mm ?m" using lt len lm by (simp add: raw_sendable_def)
  moreover have "u = raw_frame ?m @ drop n u"
  proof -
    have "raw_frame ?m = take HeaderSize u @ ?m"
      using EncodeLength_be32 by (simp only: raw_frame_def lm hd4) simp
    also have "\<dots> = take n u" using len by (simp add: take_add)
    finally show ?thesis by simp
  qed
  ultimately show ?thesis using that len by blast
qed

subsection \<open>Properties\<close>

text \<open>C23. Raw TCP framing round trip: any list of sendable messages, written as length-prefixed
  frames and received in reads of any sizes (each small enough for the receive limit), is decoded
  to exactly those messages, in order, and nothing is left in the buffer.\<close>

theorem lpa_stream_roundtrip:
  assumes "list_all (raw_sendable mm) ms"
    and "concat cs = concat (map raw_frame ms)"
    and "\<forall>c \<in> set cs. length c + unat mm + 3 \<le> unat mb"
  shows "\<exists>a'. lpa_ReadChunks cs (lpa_new mm mb) = (ms, NeedMoreData, a') \<and> lpa_unread a' = []"
proof -
  have w: "raw_cut mm () [] = Wait" by (simp add: raw_cut_def HeaderSize_def)
  obtain ms' c u x where ch: "drain_chunks (raw_cut mm) () [] cs = (ms', c, u, x)"
    by (metis prod_cases4)
  from raw.drain_chunks_concat [OF w ch] assms(2) drain_raw_frames [OF assms(1)]
  have "ms' = ms" "u = []" "x = None" by auto
  moreover have "\<forall>c \<in> set cs. length c + unat mm + HeaderSize \<le> unat mb + 1"
    using assms(3) by (auto simp: HeaderSize_def)
  ultimately show ?thesis
    using lpa_ReadChunks_drain [of "lpa_new mm mb" cs ms c u] w ch
    by (simp add: lpa_new_def lpa_unread_def lpa_wf_def)
qed

theorem lpa_stream_roundtrip_witness:
  "\<exists>a'. lpa_ReadChunks [[0, 0], [0, 2, 7], [8, 0, 0, 0, 1], [9]] (lpa_new 16 64) =
     ([[7, 8], [9]], NeedMoreData, a') \<and> lpa_unread a' = []"
  by (rule lpa_stream_roundtrip)
    (simp_all add: raw_sendable_def raw_frame_def EncodeLength_def Let_def)

text \<open>Soundness of \<open>Next\<close>: a message it returns is non-empty, within the configured
  size, and is exactly what the frame at the front of the unread bytes encodes; the rest stays
  unread. No byte outside the buffer is read and none is skipped.\<close>

lemma lpa_Next_sound:
  assumes "lpa_wf a" and "lpa_Next a = (MessageReady, m, a')"
  shows "raw_sendable (lpa_max_message_bytes a) m \<and> lpa_unread a = raw_frame m @ lpa_unread a'
    \<and> lpa_wf a'"
proof -
  have lim: "\<not> lpa_limit_exceeded a"
    using assms(2) by (auto simp: lpa_Next_def)
  from assms(2) lpa_Next_cut [OF assms(1) lim] obtain n c es where
    cut: "raw_cut (lpa_max_message_bytes a) () (lpa_unread a) = Cut n c es"
    and m: "m = hd es" and a': "a' = a\<lparr>lpa_cursor := lpa_cursor a + n\<rparr>"
    by (auto simp: raw_cut_def Let_def split: cut.splits if_splits)
  have "n \<le> length (lpa_unread a)" using raw.cut_bounds [OF cut] by simp
  note adv = lpa_advance [OF assms(1) this]
  from raw_cut_sound [OF cut] m show ?thesis
    using a' adv by (metis list.sel(1))
qed

text \<open>The receive limit: \<open>Append\<close> accepts bytes exactly when the buffered bytes stay
  within \<open>max_buffered_bytes\<close>; it then adds them unchanged at the end. A refused
  \<open>Append\<close> keeps the unread bytes and makes every later \<open>Next\<close> report
  \<open>BufferLimitExceeded\<close> until \<open>Reset\<close>.\<close>

lemma lpa_Append_limit:
  assumes "lpa_wf a" and "lpa_Append bs a = (ok, a')"
  shows "(ok \<longleftrightarrow> lpa_BufferedBytes a + length bs \<le> unat (lpa_max_buffered_bytes a))
    \<and> lpa_unread a' = (if ok then lpa_unread a @ bs else lpa_unread a)
    \<and> (\<not> ok \<longrightarrow> lpa_Next a' = (BufferLimitExceeded, [], a'))
    \<and> lpa_Next (lpa_Reset a') = (NeedMoreData, [], lpa_Reset a')"
proof -
  note ok = lpa.push_ok_iff [OF assms]
  have "lpa_unread a' = (if ok then lpa_unread a @ bs else lpa_unread a)"
    and "\<not> ok \<longrightarrow> lpa_limit_exceeded a'"
    using lpa.push_fits [OF assms(1) _ assms(2)] lpa.push_overflow [OF assms(1) _ assms(2)] ok
    by (auto simp: not_le)
  moreover have "lpa_Next (lpa_Reset a') = (NeedMoreData, [], lpa_Reset a')"
    by (simp add: lpa_Next_def lpa_Reset_def HeaderSize_def)
  ultimately show ?thesis
    using ok by (auto simp: size_simps lpa_Next_def)
qed

end
