(* ===== verification/Utf8.thy ===== *)
theory Utf8
  imports Prelude
begin

text \<open>
  \<open>IsValidUtf8\<close> of \<open>src/transport/websocket_transport.cpp\<close>, which checks the reason
  text of a close frame, and its equivalence with the definition of UTF-8 as the concatenation of
  the encodings of Unicode scalar values. The byte index of the code is the suffix of the list.
\<close>

subsection \<open>The code\<close>

text \<open>Number of trailing bytes and payload bits of a leading byte above \<open>0x7f\<close>.\<close>

definition utf8_lead :: "byte \<Rightarrow> (nat \<times> u32) option" where
  "utf8_lead first =
    (if first AND 0xe0 = 0xc0 then Some (1, ucast (first AND 0x1f))
     else if first AND 0xf0 = 0xe0 then Some (2, ucast (first AND 0x0f))
     else if first AND 0xf8 = 0xf0 then Some (3, ucast (first AND 0x07))
     else None)"

fun utf8_trail :: "nat \<Rightarrow> byte list \<Rightarrow> u32 \<Rightarrow> (u32 \<times> byte list) option" where
  "utf8_trail 0 bs codepoint = Some (codepoint, bs)"
| "utf8_trail (Suc n) [] codepoint = None"
| "utf8_trail (Suc n) (b # bs) codepoint =
    (if b AND 0xc0 \<noteq> 0x80 then None
     else utf8_trail n bs (push_bit 6 codepoint OR ucast (b AND 0x3f)))"

definition utf8_bad :: "nat \<Rightarrow> u32 \<Rightarrow> bool" where
  "utf8_bad trailing codepoint \<longleftrightarrow>
     (trailing = 1 \<and> codepoint < 0x80) \<or> (trailing = 2 \<and> codepoint < 0x800) \<or>
     (trailing = 3 \<and> codepoint < 0x10000) \<or> codepoint > 0x10ffff \<or>
     (codepoint \<ge> 0xd800 \<and> codepoint \<le> 0xdfff)"

text \<open>One round of the loop: the code point read and the bytes after it.\<close>

definition utf8_next :: "byte \<Rightarrow> byte list \<Rightarrow> (u32 \<times> byte list) option" where
  "utf8_next first rest =
    (if first \<le> 0x7f then Some (ucast first, rest)
     else case utf8_lead first of
       None \<Rightarrow> None
     | Some (trailing, codepoint) \<Rightarrow>
         if trailing > length rest then None
         else case utf8_trail trailing rest codepoint of
           None \<Rightarrow> None
         | Some (cp, rest') \<Rightarrow> if utf8_bad trailing cp then None else Some (cp, rest'))"

lemma utf8_trail_length: "utf8_trail n bs cp = Some (cp', bs') \<Longrightarrow> length bs' \<le> length bs"
  by (induction n bs cp rule: utf8_trail.induct) (auto split: if_splits)

lemma utf8_next_length: "utf8_next b bs = Some (cp, bs') \<Longrightarrow> length bs' \<le> length bs"
  by (auto simp: utf8_next_def split: if_splits option.splits dest!: utf8_trail_length)

function IsValidUtf8 :: "byte list \<Rightarrow> bool" where
  "IsValidUtf8 [] = True"
| "IsValidUtf8 (first # rest) =
    (case utf8_next first rest of None \<Rightarrow> False | Some (cp, rest') \<Rightarrow> IsValidUtf8 rest')"
  by pat_completeness auto
termination
  by (relation "measure length") (auto dest!: utf8_next_length)

subsection \<open>UTF-8\<close>

definition scalar :: "nat \<Rightarrow> bool" where
  "scalar cp \<longleftrightarrow> cp < 0x110000 \<and> \<not> (0xd800 \<le> cp \<and> cp \<le> 0xdfff)"

definition cont_byte :: "nat \<Rightarrow> byte" where
  "cont_byte n = of_nat (0x80 + n mod 64)"

definition utf8_encode :: "nat \<Rightarrow> byte list" where
  "utf8_encode cp =
    (if cp < 0x80 then [of_nat cp]
     else if cp < 0x800 then [of_nat (0xc0 + cp div 64), cont_byte cp]
     else if cp < 0x10000 then [of_nat (0xe0 + cp div 4096), cont_byte (cp div 64), cont_byte cp]
     else [of_nat (0xf0 + cp div 262144), cont_byte (cp div 4096), cont_byte (cp div 64), cont_byte cp])"

subsection \<open>Bytes as numbers\<close>

lemma lead_bits:
  "(b AND 0xe0 = 0xc0) = (unat b div 32 = 6)" "(b AND 0xf0 = 0xe0) = (unat b div 16 = 14)"
  "(b AND 0xf8 = 0xf0) = (unat b div 8 = 30)" "(b AND 0xc0 = 0x80) = (unat b div 64 = 2)"
  "(b \<le> 0x7f) = (unat b < 128)" for b :: byte
proof -
  have "(0xe0 :: byte) = NOT (mask 5)" "(0xf0 :: byte) = NOT (mask 4)"
    "(0xf8 :: byte) = NOT (mask 3)" "(0xc0 :: byte) = NOT (mask 6)"
    by code_simp+
  note m = this
  have "(b AND NOT (mask 5) = 0xc0) = (unat b div 32 = 6)" "(b AND NOT (mask 4) = 0xe0) = (unat b div 16 = 14)"
    "(b AND NOT (mask 3) = 0xf0) = (unat b div 8 = 30)" "(b AND NOT (mask 6) = 0x80) = (unat b div 64 = 2)"
    unfolding high_bits_iff by auto
  then show "(b AND 0xe0 = 0xc0) = (unat b div 32 = 6)" "(b AND 0xf0 = 0xe0) = (unat b div 16 = 14)"
    "(b AND 0xf8 = 0xf0) = (unat b div 8 = 30)" "(b AND 0xc0 = 0x80) = (unat b div 64 = 2)"
    by (simp_all flip: m)
  show "(b \<le> 0x7f) = (unat b < 128)"
    by (auto simp: word_le_nat_alt)
qed

lemma low_bits:
  "(ucast (b AND 0x1f) :: u32) = of_nat (unat b mod 32)"
  "(ucast (b AND 0x0f) :: u32) = of_nat (unat b mod 16)"
  "(ucast (b AND 0x07) :: u32) = of_nat (unat b mod 8)"
  "(ucast (b AND 0x3f) :: u32) = of_nat (unat b mod 64)" for b :: byte
  using ucast_low_bits [of b 5, where 'b = 32] ucast_low_bits [of b 4, where 'b = 32]
    ucast_low_bits [of b 3, where 'b = 32] ucast_low_bits [of b 6, where 'b = 32]
  by (simp_all add: mask_eq_exp_minus_1)

lemma utf8_trail_Suc:
  "utf8_trail (Suc n) (b # bs) (of_nat k) =
    (if unat b div 64 = 2 then utf8_trail n bs (of_nat (k * 64 + unat b mod 64)) else None)"
proof -
  have "push_bit 6 (of_nat k :: u32) OR of_nat (unat b mod 64) = of_nat (k * 2 ^ 6 + unat b mod 64)"
    by (rule push_bit_or_of_nat) simp
  then show ?thesis
    by (simp only: utf8_trail.simps lead_bits low_bits) simp
qed

declare utf8_trail.simps(3) [simp del]

lemma utf8_lead_nat:
  "utf8_lead b =
    (if unat b div 32 = 6 then Some (1, of_nat (unat b mod 32))
     else if unat b div 16 = 14 then Some (2, of_nat (unat b mod 16))
     else if unat b div 8 = 30 then Some (3, of_nat (unat b mod 8))
     else None)"
  by (simp only: utf8_lead_def lead_bits low_bits)

lemma utf8_bad_nat:
  assumes "k < 2 ^ 32"
  shows "utf8_bad t (of_nat k) \<longleftrightarrow> (t = 1 \<and> k < 0x80) \<or> (t = 2 \<and> k < 0x800) \<or>
     (t = 3 \<and> k < 0x10000) \<or> \<not> scalar k"
  using assms by (auto simp: utf8_bad_def scalar_def word_less_nat_alt word_le_nat_alt unat_of_nat)

lemma lead_byte: "n = unat b \<Longrightarrow> of_nat n = (b :: byte)"
  by simp

lemma cont_byte_eq: "unat c div 64 = 2 \<Longrightarrow> m mod 64 = unat c mod 64 \<Longrightarrow> cont_byte m = c"
  unfolding cont_byte_def by (rule lead_byte) (use div_mult_mod_eq [of "unat c" 64] in simp)

lemma digit64: "r < 64 \<Longrightarrow> (j * 64 + r) div 64 = j" "r < 64 \<Longrightarrow> (j * 64 + r) mod 64 = r" for j r :: nat
  by auto

lemma unat_cont_byte [simp]: "unat (cont_byte m) div 64 = 2" "unat (cont_byte m) mod 64 = m mod 64"
proof -
  have "m mod 64 < 64" by simp
  then have "unat (cont_byte m) = 128 + m mod 64"
    unfolding cont_byte_def by (subst unat_of_nat) (simp add: mod_less)
  then show "unat (cont_byte m) div 64 = 2" "unat (cont_byte m) mod 64 = m mod 64"
    using digit64 [of "m mod 64" 2] by simp_all
qed

lemmas utf8_trail_numeral = utf8_trail_Suc [of 0, simplified] utf8_trail_Suc [of 1, simplified]
  utf8_trail_Suc [of 2, simplified]

text \<open>The three multi-byte forms, read back as numbers.\<close>

lemma utf8_encode2:
  assumes "unat b div 32 = 6" and "unat c div 64 = 2" and "k = unat b mod 32 * 64 + unat c mod 64"
    and "0x80 \<le> k"
  shows "utf8_encode k = [b, c]"
proof -
  have "k < 0x800" "k div 64 = unat b mod 32" "k mod 64 = unat c mod 64"
    using assms(3) by auto
  moreover have "192 + unat b mod 32 = unat b"
    using assms(1) div_mult_mod_eq [of "unat b" 32] by simp
  ultimately show ?thesis
    using assms by (simp add: utf8_encode_def cont_byte_eq lead_byte del: of_nat_add)
qed

lemma utf8_encode3:
  assumes "unat b div 16 = 14" and "unat c div 64 = 2" and "unat d div 64 = 2"
    and "k = (unat b mod 16 * 64 + unat c mod 64) * 64 + unat d mod 64" and "0x800 \<le> k"
  shows "utf8_encode k = [b, c, d]"
proof -
  have c: "unat c mod 64 < 64" and d: "unat d mod 64 < 64" and b: "unat b mod 16 < 16" by simp_all
  have k64: "k div 64 = unat b mod 16 * 64 + unat c mod 64" "k mod 64 = unat d mod 64"
    unfolding assms(4) by (rule digit64 [OF d])+
  have "k div 4096 = k div 64 div 64" using div_mult2_eq [of k 64 64] by simp
  also have "\<dots> = unat b mod 16" unfolding k64 by (rule digit64 [OF c])
  finally have k4096: "k div 4096 = unat b mod 16" .
  have "k div 64 mod 64 = unat c mod 64" unfolding k64 by (rule digit64 [OF c])
  then have "cont_byte (k div 64) = c" "cont_byte k = d"
    using k64(2) assms(2,3) by (simp_all only: cont_byte_eq)
  moreover have "w < 1024 \<Longrightarrow> z < 64 \<Longrightarrow> w * 64 + z < 0x10000" for w z :: nat
    by linarith
  from this [OF _ d, of "unat b mod 16 * 64 + unat c mod 64"] b c
  have "k < 0x10000" by (simp add: assms(4))
  moreover have "224 + k div 4096 = unat b"
    unfolding k4096 using assms(1) div_mult_mod_eq [of "unat b" 16] by simp
  ultimately show ?thesis
    using assms(5) lead_byte by (auto simp: utf8_encode_def simp del: of_nat_add)
qed

lemma utf8_encode4:
  assumes "unat b div 8 = 30" and "unat c div 64 = 2" and "unat d div 64 = 2" and "unat e div 64 = 2"
    and "k = ((unat b mod 8 * 64 + unat c mod 64) * 64 + unat d mod 64) * 64 + unat e mod 64"
    and "0x10000 \<le> k"
  shows "utf8_encode k = [b, c, d, e]"
proof -
  let ?i = "unat b mod 8 * 64 + unat c mod 64"
  have c: "unat c mod 64 < 64" and d: "unat d mod 64 < 64" and e: "unat e mod 64 < 64" by simp_all
  have k64: "k div 64 = ?i * 64 + unat d mod 64" "k mod 64 = unat e mod 64"
    unfolding assms(5) by (rule digit64 [OF e])+
  have "k div 4096 = k div 64 div 64" using div_mult2_eq [of k 64 64] by simp
  also have "\<dots> = ?i" unfolding k64 by (rule digit64 [OF d])
  finally have k4096: "k div 4096 = ?i" .
  have "k div 262144 = k div 4096 div 64" using div_mult2_eq [of k 4096 64] by simp
  also have "\<dots> = unat b mod 8" unfolding k4096 by (rule digit64 [OF c])
  finally have k18: "k div 262144 = unat b mod 8" .
  have "k div 64 mod 64 = unat d mod 64" "k div 4096 mod 64 = unat c mod 64"
    unfolding k64 k4096 by (rule digit64 [OF d] digit64 [OF c])+
  then have "cont_byte (k div 4096) = c" "cont_byte (k div 64) = d" "cont_byte k = e"
    using k64(2) assms(2,3,4) by (simp_all only: cont_byte_eq)
  moreover have "240 + k div 262144 = unat b"
    unfolding k18 using assms(1) div_mult_mod_eq [of "unat b" 8] by simp
  ultimately show ?thesis
    using assms(6) lead_byte by (auto simp: utf8_encode_def simp del: of_nat_add)
qed

lemma unat_u32: "n < 2 ^ 32 \<Longrightarrow> unat (of_nat n :: u32) = n"
  by (simp add: unat_of_nat)

text \<open>One round reads exactly the encoding of one scalar value.\<close>

lemma utf8_multi_sound:
  assumes lead: "utf8_lead b = Some (t, k)" and len: "t \<le> length bs"
    and tr: "utf8_trail t bs k = Some (cp, bs')" and bad: "\<not> utf8_bad t cp"
  shows "scalar (unat cp) \<and> b # bs = utf8_encode (unat cp) @ bs'"
proof -
  consider (one) "unat b div 32 = 6" "t = 1" "k = of_nat (unat b mod 32)"
    | (two) "unat b div 16 = 14" "t = 2" "k = of_nat (unat b mod 16)"
    | (three) "unat b div 8 = 30" "t = 3" "k = of_nat (unat b mod 8)"
    using lead by (auto simp: utf8_lead_nat split: if_splits)
  then show ?thesis
  proof cases
    case one
    then obtain c where bs: "bs = c # bs'" and c: "unat c div 64 = 2"
      and cp: "cp = of_nat (unat b mod 32 * 64 + unat c mod 64)"
      using len tr by (cases bs) (auto simp: utf8_trail_Suc split: if_splits simp del: of_nat_add of_nat_mult)
    let ?n = "unat b mod 32 * 64 + unat c mod 64"
    have "unat b mod 32 < 32" "unat c mod 64 < 64" by simp_all
    then have n: "?n < 2 ^ 32" by simp
    from bad [unfolded cp one(2) utf8_bad_nat [OF n]] have "scalar ?n" "0x80 \<le> ?n" by auto
    with n cp bs utf8_encode2 [OF one(1) c refl] show ?thesis by (simp add: unat_u32 del: of_nat_add of_nat_mult)
  next
    case two
    then obtain c d where bs: "bs = c # d # bs'" and c: "unat c div 64 = 2" "unat d div 64 = 2"
      and cp: "cp = of_nat ((unat b mod 16 * 64 + unat c mod 64) * 64 + unat d mod 64)"
      using len tr by (cases bs; cases "tl bs") (auto simp: numeral_2_eq_2 utf8_trail_Suc split: if_splits simp del: of_nat_add of_nat_mult)
    let ?n = "(unat b mod 16 * 64 + unat c mod 64) * 64 + unat d mod 64"
    have "x < 16 \<Longrightarrow> y < 64 \<Longrightarrow> z < 64 \<Longrightarrow> (x * 64 + y) * 64 + z < 2 ^ 32" for x y z :: nat
      by simp
    then have n: "?n < 2 ^ 32" by simp
    from bad [unfolded cp two(2) utf8_bad_nat [OF n]] have "scalar ?n" "0x800 \<le> ?n" by auto
    with n cp bs utf8_encode3 [OF two(1) c refl] show ?thesis by (simp add: unat_u32 del: of_nat_add of_nat_mult)
  next
    case three
    then obtain c d e where bs: "bs = c # d # e # bs'"
      and c: "unat c div 64 = 2" "unat d div 64 = 2" "unat e div 64 = 2"
      and cp: "cp = of_nat (((unat b mod 8 * 64 + unat c mod 64) * 64 + unat d mod 64) * 64 + unat e mod 64)"
      using len tr by (cases bs; cases "tl bs"; cases "tl (tl bs)")
        (auto simp: numeral_3_eq_3 utf8_trail_Suc split: if_splits simp del: of_nat_add of_nat_mult)
    let ?n = "((unat b mod 8 * 64 + unat c mod 64) * 64 + unat d mod 64) * 64 + unat e mod 64"
    have "x < 8 \<Longrightarrow> y < 64 \<Longrightarrow> z < 64 \<Longrightarrow> w < 64 \<Longrightarrow> ((x * 64 + y) * 64 + z) * 64 + w < 2 ^ 32" for x y z w :: nat
      by simp
    then have n: "?n < 2 ^ 32" by simp
    from bad [unfolded cp three(2) utf8_bad_nat [OF n]] have "scalar ?n" "0x10000 \<le> ?n" by auto
    with n cp bs utf8_encode4 [OF three(1) c refl] show ?thesis by (simp add: unat_u32 del: of_nat_add of_nat_mult)
  qed
qed

lemma utf8_next_sound:
  assumes "utf8_next b bs = Some (cp, bs')"
  shows "scalar (unat cp) \<and> b # bs = utf8_encode (unat cp) @ bs'"
proof (cases "unat b < 128")
  case True
  with assms have "cp = ucast b" "bs' = bs" by (auto simp: utf8_next_def lead_bits)
  moreover have "unat (ucast b :: u32) = unat b" by (simp add: unat_ucast_up)
  ultimately show ?thesis
    using True by (simp add: scalar_def utf8_encode_def)
next
  case False
  with assms obtain t k where "utf8_lead b = Some (t, k)" and "t \<le> length bs"
    and "utf8_trail t bs k = Some (cp, bs')" and "\<not> utf8_bad t cp"
    by (auto simp: utf8_next_def lead_bits split: option.splits if_splits)
  then show ?thesis by (rule utf8_multi_sound)
qed

text \<open>Conversely the encoding of every scalar value is read back.\<close>

lemma utf8_nextI:
  assumes "\<not> unat b < 128" and "utf8_lead b = Some (t, k)" and "t \<le> length bs"
    and "utf8_trail t bs k = Some (of_nat n, rest)" and "scalar n"
    and "t = 1 \<longrightarrow> 0x80 \<le> n" and "t = 2 \<longrightarrow> 0x800 \<le> n" and "t = 3 \<longrightarrow> 0x10000 \<le> n"
  shows "utf8_next b bs = Some (of_nat n, rest)"
proof -
  have "n < 2 ^ 32" using assms(5) by (simp add: scalar_def)
  then have "\<not> utf8_bad t (of_nat n)" using assms(5-8) by (auto simp: utf8_bad_nat)
  with assms(1-4) show ?thesis by (simp add: utf8_next_def lead_bits)
qed

lemma unat_lead: "k < 256 \<Longrightarrow> unat (of_nat k :: byte) = k"
  by (simp add: unat_of_nat)

lemma digits64: "n div 64 * 64 + n mod 64 = n" "n div 4096 * 64 + n div 64 mod 64 = n div 64"
  "n div 262144 * 64 + n div 4096 mod 64 = n div 4096" for n :: nat
proof -
  have "n div 4096 = n div 64 div 64" "n div 262144 = n div 4096 div 64"
    using div_mult2_eq [of n 64 64] div_mult2_eq [of n 4096 64] by simp_all
  then show "n div 64 * 64 + n mod 64 = n" "n div 4096 * 64 + n div 64 mod 64 = n div 64"
    "n div 262144 * 64 + n div 4096 mod 64 = n div 4096"
    by simp_all
qed

lemma lead_arith:
  "m < 32 \<Longrightarrow> (192 + m) div 32 = 6 \<and> (192 + m) mod 32 = m"
  "m < 16 \<Longrightarrow> (224 + m) div 32 = 7 \<and> (224 + m) div 16 = 14 \<and> (224 + m) mod 16 = m"
  "m < 8 \<Longrightarrow> (240 + m) div 32 = 7 \<and> (240 + m) div 16 = 15 \<and> (240 + m) div 8 = 30 \<and> (240 + m) mod 8 = m"
  for m :: nat
proof -
  have digit: "m < k \<Longrightarrow> (j * k + m) div k = j" "m < k \<Longrightarrow> (j * k + m) mod k = m" for j k
    by auto
  show "m < 32 \<Longrightarrow> (192 + m) div 32 = 6 \<and> (192 + m) mod 32 = m"
    using digit [of 32 6] by simp
  show "m < 16 \<Longrightarrow> (224 + m) div 32 = 7 \<and> (224 + m) div 16 = 14 \<and> (224 + m) mod 16 = m"
    using digit [of 32 7] digit [of 16 14] by simp
  show "m < 8 \<Longrightarrow> (240 + m) div 32 = 7 \<and> (240 + m) div 16 = 15 \<and> (240 + m) div 8 = 30 \<and> (240 + m) mod 8 = m"
    using digit [of 32 7] digit [of 16 15] digit [of 8 30] by simp
qed

lemma utf8_encode_cases:
  assumes "scalar n"
  obtains (one) "n < 0x80" "utf8_encode n = [of_nat n]"
  | (two) b where "0x80 \<le> n" "utf8_encode n = [b, cont_byte n]" "unat b = 192 + n div 64" "n div 64 < 32"
  | (three) b where "0x800 \<le> n" "utf8_encode n = [b, cont_byte (n div 64), cont_byte n]"
      "unat b = 224 + n div 4096" "n div 4096 < 16"
  | (four) b where "0x10000 \<le> n"
      "utf8_encode n = [b, cont_byte (n div 4096), cont_byte (n div 64), cont_byte n]"
      "unat b = 240 + n div 262144" "n div 262144 < 8"
proof -
  consider "n < 0x80" | "0x80 \<le> n" "n < 0x800" | "0x800 \<le> n" "n < 0x10000" | "0x10000 \<le> n"
    by linarith
  then show ?thesis
  proof cases
    case 1
    then show ?thesis by (intro one) (simp_all add: utf8_encode_def)
  next
    case 2
    then have "n div 64 < 32" by simp
    with 2 show ?thesis
      by (intro two [of "of_nat (0xc0 + n div 64)"]) (simp_all add: utf8_encode_def unat_lead del: of_nat_add)
  next
    case 3
    then have "n div 4096 < 16" by simp
    with 3 show ?thesis
      by (intro three [of "of_nat (0xe0 + n div 4096)"]) (simp_all add: utf8_encode_def unat_lead del: of_nat_add)
  next
    case 4
    have "n < 1114112" using assms by (simp add: scalar_def)
    then have "n div 262144 < 8" by simp
    with 4 show ?thesis
      by (intro four [of "of_nat (0xf0 + n div 262144)"]) (simp_all add: utf8_encode_def unat_lead del: of_nat_add)
  qed
qed

lemma utf8_next_complete:
  assumes "scalar n"
  obtains b bs where "utf8_encode n = b # bs" and "utf8_next b (bs @ rest) = Some (of_nat n, rest)"
  using assms
proof (cases n rule: utf8_encode_cases)
  case one
  have "ucast (of_nat n :: byte) = (of_nat n :: u32)"
    using one(1) by (simp add: word_unat_eq_iff unat_ucast_up unat_of_nat)
  then have "utf8_next (of_nat n) rest = Some (of_nat n, rest)"
    using one(1) by (simp add: utf8_next_def lead_bits unat_lead)
  with one that show ?thesis by force
next
  case (two b)
  then have "utf8_next b ([cont_byte n] @ rest) = Some (of_nat n, rest)"
    using assms by (intro utf8_nextI [where t = 1 and k = "of_nat (n div 64)"])
      (auto simp: lead_arith utf8_lead_nat utf8_trail_Suc digits64 simp del: of_nat_add of_nat_mult)
  with two that show ?thesis by blast
next
  case (three b)
  then have "utf8_next b ([cont_byte (n div 64), cont_byte n] @ rest) = Some (of_nat n, rest)"
    using assms by (intro utf8_nextI [where t = 2 and k = "of_nat (n div 4096)"])
      (auto simp: lead_arith utf8_lead_nat numeral_2_eq_2 utf8_trail_Suc digits64 simp del: of_nat_add of_nat_mult)
  with three that show ?thesis by blast
next
  case (four b)
  then have "utf8_next b ([cont_byte (n div 4096), cont_byte (n div 64), cont_byte n] @ rest)
      = Some (of_nat n, rest)"
    using assms by (intro utf8_nextI [where t = 3 and k = "of_nat (n div 262144)"])
      (auto simp: lead_arith utf8_lead_nat numeral_3_eq_3 utf8_trail_Suc digits64 simp del: of_nat_add of_nat_mult)
  with four that show ?thesis by blast
qed

subsection \<open>Properties\<close>

text \<open>C26. \<open>IsValidUtf8\<close> accepts a byte string exactly when it is the concatenation of the
  UTF-8 encodings of Unicode scalar values: no overlong forms, no surrogates, nothing above
  U+10FFFF, no truncated sequence.\<close>

theorem IsValidUtf8_iff:
  "IsValidUtf8 bs \<longleftrightarrow> (\<exists>cps. list_all scalar cps \<and> bs = concat (map utf8_encode cps))"
proof
  show "IsValidUtf8 bs \<Longrightarrow> \<exists>cps. list_all scalar cps \<and> bs = concat (map utf8_encode cps)"
  proof (induction bs rule: IsValidUtf8.induct)
    case 1
    show ?case by (rule exI [of _ "[]"]) simp
  next
    case (2 b bs)
    then obtain cp bs' where n: "utf8_next b bs = Some (cp, bs')" and v: "IsValidUtf8 bs'"
      by (auto split: option.splits)
    from "2.IH" [OF n refl v] obtain cps where
      "list_all scalar cps" "bs' = concat (map utf8_encode cps)" by blast
    with utf8_next_sound [OF n] show ?case
      by (intro exI [of _ "unat cp # cps"]) simp
  qed
  assume "\<exists>cps. list_all scalar cps \<and> bs = concat (map utf8_encode cps)"
  then obtain cps where "list_all scalar cps" and bs: "bs = concat (map utf8_encode cps)" by blast
  then show "IsValidUtf8 bs" unfolding bs
  proof (induction cps)
    case (Cons n cps)
    then have "scalar n" by simp
    then obtain b cs where "utf8_encode n = b # cs"
      and "utf8_next b (cs @ concat (map utf8_encode cps)) = Some (of_nat n, concat (map utf8_encode cps))"
      by (rule utf8_next_complete)
    with Cons show ?case by simp
  qed simp
qed

end
