(* ===== verification/Ws_Frames.thy ===== *)
theory Ws_Frames
  imports Receive_Buffer Utf8
begin

text \<open>
  The WebSocket frame codec of \<open>src/transport/websocket_transport.{hpp,cpp}\<close>:
  \<open>WebSocketDecoder\<close> with its buffer, its header checks, unmasking and the reassembly of
  fragmented messages, and \<open>BuildFrameHeader\<close>/\<open>BuildFrame\<close>.
\<close>

subsection \<open>Data\<close>

text \<open>The enumeration has a fixed underlying type, so the cast of four header bits can give a value
  that no enumerator names: \<open>UnnamedOpcode\<close>.\<close>

datatype WsOpcode = Continuation | Text | Binary | Close | Ping | Pong | UnnamedOpcode byte

definition opcode_of :: "byte \<Rightarrow> WsOpcode" where
  "opcode_of b = (if b = 0x0 then Continuation else if b = 0x1 then Text else if b = 0x2 then Binary
     else if b = 0x8 then Close else if b = 0x9 then Ping else if b = 0xA then Pong
     else UnnamedOpcode b)"

fun opcode_value :: "WsOpcode \<Rightarrow> byte" where
  "opcode_value Continuation = 0x0"
| "opcode_value Text = 0x1"
| "opcode_value Binary = 0x2"
| "opcode_value Close = 0x8"
| "opcode_value Ping = 0x9"
| "opcode_value Pong = 0xA"
| "opcode_value (UnnamedOpcode b) = b"

datatype WsParseStatus = WsNeedMoreData | EventReady | ProtocolError | MessageTooLarge | WsBufferLimitExceeded

datatype WsEventType = BinaryMessage | PingEvent | PongEvent | CloseEvent

record WsEvent =
  ev_type :: WsEventType
  ev_payload :: "byte list"
  ev_close_code :: u16

definition no_event :: WsEvent where
  "no_event = \<lparr>ev_type = BinaryMessage, ev_payload = [], ev_close_code = 1000\<rparr>"

record WebSocketDecoder =
  ws_max_message_bytes :: size_t
  ws_max_buffered_bytes :: size_t
  ws_require_masking :: bool
  ws_buffer :: "byte list"
  ws_cursor :: nat
  ws_fragmented :: bool
  ws_fragmented_opcode :: WsOpcode
  ws_fragmented_payload :: "byte list"
  ws_limit_exceeded :: bool

definition ws_new :: "size_t \<Rightarrow> size_t \<Rightarrow> bool \<Rightarrow> WebSocketDecoder" where
  "ws_new max_message max_buffered masking =
     \<lparr>ws_max_message_bytes = max_message, ws_max_buffered_bytes = max_buffered,
      ws_require_masking = masking, ws_buffer = [], ws_cursor = 0, ws_fragmented = False,
      ws_fragmented_opcode = Continuation, ws_fragmented_payload = [], ws_limit_exceeded = False\<rparr>"

subsection \<open>Buffer operations\<close>

definition ws_CompactIfUseful :: "WebSocketDecoder \<Rightarrow> WebSocketDecoder" where
  "ws_CompactIfUseful d =
    (case compact (ws_buffer d) (ws_cursor d) of
       (buf, cur) \<Rightarrow> d\<lparr>ws_buffer := buf, ws_cursor := cur\<rparr>)"

definition ws_BufferedBytes :: "WebSocketDecoder \<Rightarrow> nat" where
  "ws_BufferedBytes d = length (ws_buffer d) - ws_cursor d"

definition ws_Append :: "byte list \<Rightarrow> WebSocketDecoder \<Rightarrow> bool \<times> WebSocketDecoder" where
  "ws_Append bytes d0 =
    (let d = ws_CompactIfUseful d0;
         available = length (ws_buffer d) - ws_cursor d
     in if length bytes > unat (ws_max_buffered_bytes d) \<or>
           available > unat (ws_max_buffered_bytes d) - length bytes
        then (False, d\<lparr>ws_limit_exceeded := True\<rparr>)
        else (True, d\<lparr>ws_buffer := ws_buffer d @ bytes\<rparr>))"

definition ws_Reset :: "WebSocketDecoder \<Rightarrow> WebSocketDecoder" where
  "ws_Reset d = d\<lparr>ws_buffer := [], ws_cursor := 0, ws_fragmented := False,
     ws_fragmented_payload := [], ws_limit_exceeded := False\<rparr>"

subsection \<open>Decoding\<close>

definition IsControlOpcode :: "WsOpcode \<Rightarrow> bool" where
  "IsControlOpcode op \<longleftrightarrow> op = Close \<or> op = Ping \<or> op = Pong"

fun IsKnownOpcode :: "WsOpcode \<Rightarrow> bool" where
  "IsKnownOpcode (UnnamedOpcode b) = False"
| "IsKnownOpcode _ = True"

definition IsValidCloseCode :: "u16 \<Rightarrow> bool" where
  "IsValidCloseCode code =
    (if code < 1000 \<or> code \<ge> 5000 then False
     else if code = 1004 \<or> code = 1005 \<or> code = 1006 \<or> code = 1015 then False
     else \<not> (code \<ge> 1016 \<and> code \<le> 2999))"

text \<open>The length field of the header: a status to return at once, or the size of the header read so
  far and the payload size.\<close>

definition ws_length :: "byte list \<Rightarrow> (WsParseStatus \<times> string) + (nat \<times> u64)" where
  "ws_length data =
    (let available = length data;
         length_code = data ! 1 AND 0x7f
     in if length_code = 126 then
          if available < 4 then Inl (WsNeedMoreData, '''')
          else let payload_size = push_bit 8 (ucast (data ! 2)) OR ucast (data ! 3)
               in if payload_size < 126 then Inl (ProtocolError, ''non-canonical 16-bit WebSocket length'')
                  else Inr (4, payload_size)
        else if length_code = 127 then
          if available < 10 then Inl (WsNeedMoreData, '''')
          else if data ! 2 AND 0x80 \<noteq> 0
            then Inl (ProtocolError, ''WebSocket 64-bit length has reserved high bit set'')
          else let payload_size = fold (\<lambda>index size. push_bit 8 size OR ucast (data ! (2 + index))) [0..<8] 0
               in if payload_size \<le> 65535 then Inl (ProtocolError, ''non-canonical 64-bit WebSocket length'')
                  else Inr (10, payload_size)
        else Inr (2, ucast length_code))"

text \<open>The checks of \<open>Next\<close> up to the point where the whole frame is known to be present:
  \<open>fin\<close>, \<open>opcode\<close>, \<open>masked\<close>, \<open>header_size\<close>, \<open>payload_size\<close>.\<close>

definition ws_header :: "size_t \<Rightarrow> bool \<Rightarrow> byte list
    \<Rightarrow> (WsParseStatus \<times> string) + (bool \<times> WsOpcode \<times> bool \<times> nat \<times> u64)" where
  "ws_header max_message require_masking data =
    (let available = length data
     in if available < 2 then Inl (WsNeedMoreData, '''')
        else
          let fin = (data ! 0 AND 0x80 \<noteq> 0);
              rsv_set = (data ! 0 AND 0x70 \<noteq> 0);
              opcode = opcode_of (data ! 0 AND 0x0f);
              masked = (data ! 1 AND 0x80 \<noteq> 0)
          in if rsv_set \<or> \<not> IsKnownOpcode opcode then Inl (ProtocolError, ''RSV bits or opcode are invalid'')
             else if require_masking \<and> \<not> masked
               then Inl (ProtocolError, ''client WebSocket frames must be masked'')
             else if \<not> require_masking \<and> masked
               then Inl (ProtocolError, ''server WebSocket frames must not be masked'')
             else (case ws_length data of
                 Inl x \<Rightarrow> Inl x
               | Inr (size0, payload_size) \<Rightarrow>
                   if IsControlOpcode opcode \<and> (\<not> fin \<or> payload_size > 125)
                     then Inl (ProtocolError, ''fragmented or oversized WebSocket control frame'')
                   else if payload_size > max_message
                     then Inl (MessageTooLarge, ''WebSocket message exceeds configured limit'')
                   else
                     let header_size = (if masked then size0 + 4 else size0)
                     in if payload_size > - 1 - of_nat header_size
                          then Inl (ProtocolError, ''WebSocket frame length overflows address space'')
                        else if available < header_size + unat payload_size then Inl (WsNeedMoreData, '''')
                        else Inr (fin, opcode, masked, header_size, payload_size)))"

text \<open>The payload, unmasked with the four bytes before it.\<close>

definition ws_payload :: "byte list \<Rightarrow> bool \<Rightarrow> nat \<Rightarrow> nat \<Rightarrow> byte list" where
  "ws_payload data masked header_size payload_size =
    map (\<lambda>index. if masked then data ! (header_size + index) XOR data ! (header_size - 4 + index mod 4)
                 else data ! (header_size + index)) [0..<payload_size]"

text \<open>What happens to a complete frame: \<open>Next\<close> returns, or calls itself for the next frame.\<close>

datatype ws_outcome = Return WsParseStatus WsEvent string | Recurse

definition ws_dispatch :: "bool \<Rightarrow> WsOpcode \<Rightarrow> byte list \<Rightarrow> WebSocketDecoder
    \<Rightarrow> ws_outcome \<times> WebSocketDecoder" where
  "ws_dispatch fin opcode payload d =
    (if opcode = Text
       then (Return ProtocolError no_event ''text messages are not supported; use binary FlatBuffers'', d)
     else if opcode = Continuation then
       if \<not> ws_fragmented d
         then (Return ProtocolError no_event ''unexpected WebSocket continuation frame'', d)
       else if of_nat (length payload) > ws_max_message_bytes d - of_nat (length (ws_fragmented_payload d))
         then (Return MessageTooLarge no_event ''assembled WebSocket message exceeds configured limit'', d)
       else
         let d1 = d\<lparr>ws_fragmented_payload := ws_fragmented_payload d @ payload\<rparr>
         in if \<not> fin then (Recurse, d1)
            else let d2 = d1\<lparr>ws_fragmented := False\<rparr>
                 in if ws_fragmented_opcode d2 \<noteq> Binary
                      then (Return ProtocolError no_event ''text messages are not supported'',
                            d2\<lparr>ws_fragmented_payload := []\<rparr>)
                    else (Return EventReady
                            (no_event\<lparr>ev_type := BinaryMessage, ev_payload := ws_fragmented_payload d2\<rparr>) '''',
                          d2\<lparr>ws_fragmented_payload := []\<rparr>)
     else if opcode = Binary \<and> \<not> fin then
       if ws_fragmented d
         then (Return ProtocolError no_event ''new data frame received during fragmented message'', d)
       else (Recurse, d\<lparr>ws_fragmented := True, ws_fragmented_opcode := opcode,
                         ws_fragmented_payload := payload\<rparr>)
     else if opcode = Binary then
       if ws_fragmented d
         then (Return ProtocolError no_event ''new data frame received during fragmented message'', d)
       else (Return EventReady (no_event\<lparr>ev_type := BinaryMessage, ev_payload := payload\<rparr>) '''', d)
     else if opcode = Ping
       then (Return EventReady (no_event\<lparr>ev_type := PingEvent, ev_payload := payload\<rparr>) '''', d)
     else if opcode = Pong
       then (Return EventReady (no_event\<lparr>ev_type := PongEvent, ev_payload := payload\<rparr>) '''', d)
     else if length payload = 1
       then (Return ProtocolError no_event ''WebSocket close payload cannot contain one byte'', d)
     else
       let event = no_event\<lparr>ev_type := CloseEvent, ev_payload := payload\<rparr>
       in if length payload \<ge> 2 then
            let code = push_bit 8 (ucast (payload ! 0)) OR ucast (payload ! 1);
                event' = event\<lparr>ev_close_code := code\<rparr>
            in if \<not> IsValidCloseCode code \<or> \<not> IsValidUtf8 (drop 2 payload)
                 then (Return ProtocolError event' ''WebSocket close code or reason is invalid'', d)
               else (Return EventReady event' '''', d)
          else (Return EventReady event '''', d))"

definition ws_frame :: "WebSocketDecoder \<Rightarrow> ws_outcome \<times> WebSocketDecoder" where
  "ws_frame d =
    (if ws_limit_exceeded d
       then (Return WsBufferLimitExceeded no_event ''WebSocket receive buffer limit exceeded'', d)
     else
       let data = drop (ws_cursor d) (ws_buffer d)
       in (case ws_header (ws_max_message_bytes d) (ws_require_masking d) data of
            Inl (status, error) \<Rightarrow> (Return status no_event error, d)
          | Inr (fin, opcode, masked, header_size, payload_size) \<Rightarrow>
              let payload = ws_payload data masked header_size (unat payload_size);
                  d1 = d\<lparr>ws_cursor := ws_cursor d + (header_size + unat payload_size)\<rparr>
              in ws_dispatch fin opcode payload d1))"

lemma ws_header_bounds:
  "ws_header mm rm data = Inr (fin, opcode, masked, hs, ps) \<Longrightarrow>
     2 \<le> hs \<and> hs + unat ps \<le> length data \<and> unat ps \<le> unat mm \<and> (masked \<longrightarrow> 6 \<le> hs)"
  by (auto simp: ws_header_def ws_length_def Let_def word_le_nat_alt not_less split: if_splits sum.splits)

lemma ws_dispatch_buffer:
  "ws_dispatch fin opcode payload d = (r, d') \<Longrightarrow>
     ws_buffer d' = ws_buffer d \<and> ws_cursor d' = ws_cursor d \<and>
     ws_limit_exceeded d' = ws_limit_exceeded d \<and> ws_max_message_bytes d' = ws_max_message_bytes d \<and>
     ws_max_buffered_bytes d' = ws_max_buffered_bytes d \<and> ws_require_masking d' = ws_require_masking d"
  by (auto simp: ws_dispatch_def Let_def split: if_splits)

lemma ws_frame_progress:
  "ws_frame d = (Recurse, d') \<Longrightarrow>
     length (ws_buffer d') - ws_cursor d' < length (ws_buffer d) - ws_cursor d"
  by (fastforce simp: ws_frame_def Let_def split: if_splits sum.splits prod.splits
      dest!: ws_header_bounds ws_dispatch_buffer)

function ws_Next :: "WebSocketDecoder \<Rightarrow> WsParseStatus \<times> WsEvent \<times> string \<times> WebSocketDecoder" where
  "ws_Next d =
    (case ws_frame d of
       (Return status event error, d') \<Rightarrow> (status, event, error, d')
     | (Recurse, d') \<Rightarrow> ws_Next d')"
  by pat_completeness auto
termination
  by (relation "measure (\<lambda>d. length (ws_buffer d) - ws_cursor d)") (auto intro: ws_frame_progress)

declare ws_Next.simps [simp del]

subsection \<open>Encoding\<close>

definition BuildFrameHeader :: "WsOpcode \<Rightarrow> size_t \<Rightarrow> byte list \<times> nat" where
  "BuildFrameHeader opcode payload_size =
    (let header = (replicate 10 0)[0 := 0x80 OR opcode_value opcode]
     in if payload_size \<le> 125 then (header[1 := ucast payload_size], 2)
        else if payload_size \<le> 65535
          then (header[1 := 126, 2 := ucast (drop_bit 8 payload_size AND 0xff),
                       3 := ucast (payload_size AND 0xff)], 4)
        else (fold (\<lambda>index h. h[9 - index := ucast (drop_bit (index * 8) payload_size AND 0xff)])
                [0..<8] (header[1 := 127]), 10))"

definition BuildFrame :: "WsOpcode \<Rightarrow> byte list \<Rightarrow> byte list" where
  "BuildFrame opcode payload =
    (case BuildFrameHeader opcode (of_nat (length payload)) of
       (header, header_size) \<Rightarrow> take header_size header @ payload)"

subsection \<open>The buffer contract\<close>

definition ws_unread :: "WebSocketDecoder \<Rightarrow> byte list" where
  "ws_unread d = drop (ws_cursor d) (ws_buffer d)"

text \<open>What the decoder keeps of a message whose final fragment has not arrived.\<close>

definition ws_ctl :: "WebSocketDecoder \<Rightarrow> byte list option" where
  "ws_ctl d = (if ws_fragmented d then Some (ws_fragmented_payload d) else None)"

definition ws_wf :: "WebSocketDecoder \<Rightarrow> bool" where
  "ws_wf d \<longleftrightarrow> ws_cursor d \<le> length (ws_buffer d)
     \<and> length (ws_fragmented_payload d) \<le> unat (ws_max_message_bytes d)
     \<and> (if ws_fragmented d then ws_fragmented_opcode d = Binary else ws_fragmented_payload d = [])"

lemma length_ws_unread [size_simps]: "length (ws_unread d) = ws_BufferedBytes d"
  by (simp add: ws_unread_def ws_BufferedBytes_def)

lemma ws_new_simps [simp]:
  "ws_wf (ws_new mm mb rm)" "ws_unread (ws_new mm mb rm) = []" "ws_ctl (ws_new mm mb rm) = None"
  "ws_limit_exceeded (ws_new mm mb rm) = False"
  "ws_max_message_bytes (ws_new mm mb rm) = mm" "ws_max_buffered_bytes (ws_new mm mb rm) = mb"
  "ws_require_masking (ws_new mm mb rm) = rm"
  by (simp_all add: ws_wf_def ws_unread_def ws_ctl_def ws_new_def)

lemma ws_Compact:
  "ws_unread (ws_CompactIfUseful d) = ws_unread d"
  "ws_wf d \<Longrightarrow> ws_wf (ws_CompactIfUseful d)"
  "ws_max_buffered_bytes (ws_CompactIfUseful d) = ws_max_buffered_bytes d"
  "ws_max_message_bytes (ws_CompactIfUseful d) = ws_max_message_bytes d"
  "ws_require_masking (ws_CompactIfUseful d) = ws_require_masking d"
  "ws_limit_exceeded (ws_CompactIfUseful d) = ws_limit_exceeded d"
  "ws_ctl (ws_CompactIfUseful d) = ws_ctl d"
  by (auto simp: ws_CompactIfUseful_def ws_unread_def ws_wf_def ws_ctl_def
      dest: compact_unread compact_cursor split: prod.splits)

interpretation wsb: receive_buffer ws_Append ws_unread
  "\<lambda>d. unat (ws_max_buffered_bytes d)" ws_limit_exceeded ws_wf
  "\<lambda>d. (ws_max_message_bytes d, ws_require_masking d, ws_ctl d)"
proof
  fix s s' :: WebSocketDecoder and bs ok
  assume wf: "ws_wf s" and app: "ws_Append bs s = (ok, s')"
  let ?c = "ws_CompactIfUseful s"
  have len: "length (ws_buffer ?c) - ws_cursor ?c = length (ws_unread s)"
    using ws_Compact(1) [of s] by (metis length_drop ws_unread_def)
  have wfc: "ws_wf ?c" using wf by (rule ws_Compact)
  have ctl: "ws_ctl (d\<lparr>ws_buffer := b\<rparr>) = ws_ctl d" "ws_ctl (d\<lparr>ws_limit_exceeded := l\<rparr>) = ws_ctl d" for d b l
    by (simp_all add: ws_ctl_def)
  show "ws_wf s' \<and> unat (ws_max_buffered_bytes s') = unat (ws_max_buffered_bytes s) \<and>
      (ws_max_message_bytes s', ws_require_masking s', ws_ctl s') =
      (ws_max_message_bytes s, ws_require_masking s, ws_ctl s)"
    using app wfc by (auto simp: ws_Append_def Let_def ws_wf_def ws_Compact ctl split: if_splits)
  show "ok \<and> ws_unread s' = ws_unread s @ bs \<and> ws_limit_exceeded s' = ws_limit_exceeded s"
    if "length (ws_unread s) + length bs \<le> unat (ws_max_buffered_bytes s)"
    using app that wfc ws_Compact(1) [of s]
    by (auto simp: ws_Append_def Let_def len ws_Compact ws_wf_def ws_unread_def split: if_splits)
  show "\<not> ok \<and> ws_unread s' = ws_unread s \<and> ws_limit_exceeded s'"
    if "unat (ws_max_buffered_bytes s) < length (ws_unread s) + length bs"
    using app that ws_Compact(1) [of s]
    by (auto simp: ws_Append_def Let_def len ws_Compact ws_unread_def split: if_splits)
qed

subsection \<open>Assembly of messages\<close>

text \<open>The message layer of RFC 6455 (sections 5.4 and 5.5), over complete frames: the state is the
  part of a fragmented message received so far.\<close>

definition message :: "byte list \<Rightarrow> WsEvent" where
  "message p = \<lparr>ev_type = BinaryMessage, ev_payload = p, ev_close_code = 1000\<rparr>"

definition close_code :: "byte list \<Rightarrow> u16" where
  "close_code p = (if length p \<ge> 2 then push_bit 8 (ucast (p ! 0)) OR ucast (p ! 1) else 1000)"

definition close_ok :: "byte list \<Rightarrow> bool" where
  "close_ok p \<longleftrightarrow> p = [] \<or> (length p \<ge> 2 \<and> IsValidCloseCode (close_code p) \<and> IsValidUtf8 (drop 2 p))"

definition ws_assemble :: "size_t \<Rightarrow> byte list option \<Rightarrow> bool \<Rightarrow> WsOpcode \<Rightarrow> byte list
    \<Rightarrow> (WsParseStatus \<times> string) + (byte list option \<times> WsEvent list)" where
  "ws_assemble max_message c fin opcode p =
    (case opcode of
       Text \<Rightarrow> Inl (ProtocolError, ''text messages are not supported; use binary FlatBuffers'')
     | Continuation \<Rightarrow>
         (case c of
            None \<Rightarrow> Inl (ProtocolError, ''unexpected WebSocket continuation frame'')
          | Some q \<Rightarrow>
              if length q + length p > unat max_message
                then Inl (MessageTooLarge, ''assembled WebSocket message exceeds configured limit'')
              else if fin then Inr (None, [message (q @ p)]) else Inr (Some (q @ p), []))
     | Binary \<Rightarrow>
         if c \<noteq> None then Inl (ProtocolError, ''new data frame received during fragmented message'')
         else if fin then Inr (None, [message p]) else Inr (Some p, [])
     | Ping \<Rightarrow> Inr (c, [no_event\<lparr>ev_type := PingEvent, ev_payload := p\<rparr>])
     | Pong \<Rightarrow> Inr (c, [no_event\<lparr>ev_type := PongEvent, ev_payload := p\<rparr>])
     | _ \<Rightarrow>
         if close_ok p
         then Inr (c, [\<lparr>ev_type = CloseEvent, ev_payload = p, ev_close_code = close_code p\<rparr>])
         else Inl (ProtocolError, if length p = 1 then ''WebSocket close payload cannot contain one byte''
                     else ''WebSocket close code or reason is invalid''))"

lemma length_lt_2: "\<not> 2 \<le> length p \<Longrightarrow> length p \<noteq> Suc 0 \<Longrightarrow> p = []"
  by (cases p) (auto simp: Suc_le_eq)

lemma fragment_guard:
  assumes "length q \<le> unat (m :: size_t)" and "length p \<le> unat m"
  shows "(of_nat (length p) > m - of_nat (length q)) \<longleftrightarrow> length q + length p > unat m"
proof -
  have "unat m < 2 ^ LENGTH(64)" by (rule unsigned_less)
  then have "unat (of_nat (length p) :: size_t) = length p" "unat (of_nat (length q) :: size_t) = length q"
    using assms by (simp_all add: unat_of_nat)
  moreover from this have "unat (m - of_nat (length q)) = unat m - length q"
    using assms(1) by (simp add: unat_sub word_le_nat_alt)
  ultimately show ?thesis using assms by (auto simp: word_less_nat_alt)
qed

text \<open>\<open>Next\<close> dispatches a frame as the message layer prescribes, and keeps the invariant.\<close>

lemma ws_dispatch_assemble:
  assumes wf: "ws_wf d" and p: "length p \<le> unat (ws_max_message_bytes d)"
    and disp: "ws_dispatch fin opcode p d = (r, d')"
  shows "ws_wf d' \<and>
    (case ws_assemble (ws_max_message_bytes d) (ws_ctl d) fin opcode p of
       Inl (st, err) \<Rightarrow> (\<exists>ev. r = Return st ev err) \<and> st \<in> {ProtocolError, MessageTooLarge}
     | Inr (c, []) \<Rightarrow> r = Recurse \<and> ws_ctl d' = c
     | Inr (c, e # es) \<Rightarrow> r = Return EventReady e '''' \<and> es = [] \<and> ws_ctl d' = c)"
proof (cases opcode)
  case Continuation
  have "length (ws_fragmented_payload d) \<le> unat (ws_max_message_bytes d)"
    using wf by (simp add: ws_wf_def)
  from fragment_guard [OF this p] show ?thesis
    using Continuation disp wf
    by (auto simp: ws_dispatch_def ws_assemble_def ws_wf_def ws_ctl_def message_def no_event_def Let_def
        split: if_splits)
next
  case Close
  then show ?thesis
    using disp wf
    by (auto simp: ws_dispatch_def ws_assemble_def close_ok_def close_code_def no_event_def Let_def
        split: if_splits dest: length_lt_2)
next
  case (UnnamedOpcode b)
  then show ?thesis
    using disp wf
    by (auto simp: ws_dispatch_def ws_assemble_def close_ok_def close_code_def no_event_def Let_def
        split: if_splits dest: length_lt_2)
qed (use disp wf p in \<open>auto simp: ws_dispatch_def ws_assemble_def ws_wf_def ws_ctl_def message_def
    no_event_def Let_def split: if_splits\<close>)

subsection \<open>\<open>Next\<close> as a cut of the unread bytes\<close>

definition ws_cut :: "size_t \<Rightarrow> bool \<Rightarrow> byte list option \<Rightarrow> byte list
    \<Rightarrow> (byte list option, WsEvent, WsParseStatus \<times> string) cut" where
  "ws_cut mm rm c u =
    (case ws_header mm rm u of
       Inl (st, err) \<Rightarrow> if st = WsNeedMoreData then Wait else Fail (st, err)
     | Inr (fin, opcode, masked, hs, ps) \<Rightarrow>
         (case ws_assemble mm c fin opcode (ws_payload u masked hs (unat ps)) of
            Inl x \<Rightarrow> Fail x
          | Inr (c', es) \<Rightarrow> Cut (hs + unat ps) c' es))"

lemma ws_length_append:
  assumes two: "2 \<le> length u"
    and ready: "\<And>err. ws_length u \<noteq> Inl (WsNeedMoreData, err)"
  shows "ws_length (u @ v) = ws_length u"
proof -
  have one: "(u @ v) ! 1 = u ! 1" using two by (simp add: nth_append)
  consider (short) "u ! 1 AND 0x7f \<noteq> 126" "u ! 1 AND 0x7f \<noteq> 127" | (mid) "u ! 1 AND 0x7f = 126"
    | (long) "u ! 1 AND 0x7f = 127" by blast
  then show ?thesis
  proof cases
    case short
    then show ?thesis unfolding ws_length_def Let_def one by simp
  next
    case mid
    then have "4 \<le> length u" using ready [of "[]"] by (cases "length u < 4") (simp_all add: ws_length_def Let_def)
    with mid show ?thesis unfolding ws_length_def Let_def one by (simp add: nth_append)
  next
    case long
    then have ten: "10 \<le> length u"
      using ready [of "[]"] by (cases "length u < 10") (simp_all add: ws_length_def Let_def)
    have "fold (\<lambda>i (n :: u64). push_bit 8 n OR ucast ((u @ v) ! (2 + i))) [0..<8] 0 =
        fold (\<lambda>i n. push_bit 8 n OR ucast (u ! (2 + i))) [0..<8] 0"
      by (rule fold_cong) (use ten in \<open>auto simp: nth_append fun_eq_iff\<close>)
    moreover have "(u @ v) ! 2 = u ! 2" using ten by (simp add: nth_append)
    ultimately show ?thesis using long ten unfolding ws_length_def Let_def one by simp
  qed
qed

lemma ws_header_append:
  assumes ready: "\<And>err. ws_header mm rm u \<noteq> Inl (WsNeedMoreData, err)"
  shows "ws_header mm rm (u @ v) = ws_header mm rm u"
proof -
  have two: "2 \<le> length u"
    using ready [of "[]"] by (cases "length u < 2") (simp_all add: ws_header_def)
  then have nth: "(u @ v) ! 0 = u ! 0" "(u @ v) ! 1 = u ! 1" by (auto simp: nth_append)
  show ?thesis
  proof (cases "\<exists>err. ws_length u = Inl (WsNeedMoreData, err)")
    case True
    then obtain err where "ws_length u = Inl (WsNeedMoreData, err)" by blast
    then show ?thesis
      using ready [of err] two unfolding ws_header_def Let_def nth by (auto split: if_splits)
  next
    case False
    then have "ws_length (u @ v) = ws_length u" using two by (intro ws_length_append) auto
    then show ?thesis
      using ready [of "[]"] two unfolding ws_header_def Let_def nth
      by (auto split: if_splits sum.splits)
  qed
qed

lemma ws_payload_append:
  "hs + n \<le> length u \<Longrightarrow> ws_payload (u @ v) m hs n = ws_payload u m hs n"
proof -
  assume len: "hs + n \<le> length u"
  have "hs - 4 + i mod 4 < length u" if "i < n" for i
    using that len mod_less_eq_dividend [of i 4] by linarith
  then show ?thesis using len by (auto simp: ws_payload_def nth_append)
qed

lemma length_ws_payload [simp]: "length (ws_payload u m hs n) = n"
  by (simp add: ws_payload_def)

interpretation wss: frame_stream "ws_cut mm rm" for mm rm
proof
  fix c u n c' es v and x :: "WsParseStatus \<times> string"
  show "0 < n \<and> n \<le> length u" if "ws_cut mm rm c u = Cut n c' es"
    using that by (auto simp: ws_cut_def split: sum.splits prod.splits if_splits dest!: ws_header_bounds)
  show "ws_cut mm rm c (u @ v) = Cut n c' es" if cut: "ws_cut mm rm c u = Cut n c' es"
  proof -
    from cut obtain h where h: "ws_header mm rm u = Inr h"
      by (auto simp: ws_cut_def split: sum.splits prod.splits if_splits)
    then have "ws_header mm rm (u @ v) = Inr h"
      using ws_header_append [of mm rm u v] by simp
    with cut h show ?thesis
      by (auto simp: ws_cut_def ws_payload_append split: prod.splits dest!: ws_header_bounds)
  qed
  show "ws_cut mm rm c (u @ v) = Fail x" if fail: "ws_cut mm rm c u = Fail x"
  proof -
    from fail have "ws_header mm rm (u @ v) = ws_header mm rm u"
      by (intro ws_header_append) (auto simp: ws_cut_def)
    then show ?thesis
    proof (cases "ws_header mm rm u")
      case (Inr h)
      obtain fin op m hs ps where "h = (fin, op, m, hs, ps)" by (metis prod_cases5)
      with Inr \<open>ws_header mm rm (u @ v) = ws_header mm rm u\<close> fail show ?thesis
        using ws_header_bounds [of mm rm u fin op m hs ps] by (simp add: ws_cut_def ws_payload_append)
    qed (use fail in \<open>simp add: ws_cut_def\<close>)
  qed
qed

lemma ws_header_status:
  "ws_header mm rm u = Inl (st, err) \<Longrightarrow>
     st \<in> {WsNeedMoreData, ProtocolError, MessageTooLarge} \<and> (st = WsNeedMoreData \<longrightarrow> err = [])"
  by (auto simp: ws_header_def ws_length_def Let_def split: if_splits)

definition same_config :: "WebSocketDecoder \<Rightarrow> WebSocketDecoder \<Rightarrow> bool" where
  "same_config d d' \<longleftrightarrow> ws_max_message_bytes d' = ws_max_message_bytes d \<and>
     ws_max_buffered_bytes d' = ws_max_buffered_bytes d \<and> ws_require_masking d' = ws_require_masking d \<and>
     ws_limit_exceeded d' = ws_limit_exceeded d"

text \<open>One round of \<open>Next\<close> is one cut.\<close>

lemma ws_frame_cut:
  assumes wf: "ws_wf d" and lim: "\<not> ws_limit_exceeded d" and fr: "ws_frame d = (r, d')"
  shows "ws_wf d' \<and> same_config d d' \<and>
    (case ws_cut (ws_max_message_bytes d) (ws_require_masking d) (ws_ctl d) (ws_unread d) of
       Wait \<Rightarrow> r = Return WsNeedMoreData no_event [] \<and> d' = d
     | Fail x \<Rightarrow> (\<exists>ev. r = Return (fst x) ev (snd x)) \<and> fst x \<in> {ProtocolError, MessageTooLarge}
     | Cut n c es \<Rightarrow> ws_unread d' = drop n (ws_unread d) \<and> ws_ctl d' = c \<and>
         (if es = [] then r = Recurse else \<exists>e. es = [e] \<and> r = Return EventReady e []))"
proof (cases "ws_header (ws_max_message_bytes d) (ws_require_masking d) (ws_unread d)")
  case (Inl x)
  obtain st err where x: "x = (st, err)" by (cases x)
  with Inl fr lim have "r = Return st no_event err" "d' = d"
    by (auto simp: ws_frame_def ws_unread_def Let_def)
  with Inl x wf ws_header_status [of _ _ "ws_unread d" st err] show ?thesis
    by (auto simp: ws_cut_def same_config_def)
next
  case (Inr h)
  obtain fin op m hs ps where h: "h = (fin, op, m, hs, ps)" by (metis prod_cases5)
  let ?n = "hs + unat ps" and ?p = "ws_payload (ws_unread d) m hs (unat ps)"
  let ?d1 = "d\<lparr>ws_cursor := ws_cursor d + ?n\<rparr>"
  note b = ws_header_bounds [OF Inr [unfolded h]]
  have disp: "ws_dispatch fin op ?p ?d1 = (r, d')"
    using Inr h fr lim by (simp add: ws_frame_def ws_unread_def Let_def)
  have wf1: "ws_wf ?d1" using wf b by (auto simp: ws_wf_def ws_unread_def)
  have un: "ws_unread d' = drop ?n (ws_unread d)" and same: "same_config d d'"
    using ws_dispatch_buffer [OF disp] by (auto simp: ws_unread_def same_config_def add.commute)
  have ctl: "ws_ctl ?d1 = ws_ctl d" by (simp add: ws_ctl_def)
  have "length ?p \<le> unat (ws_max_message_bytes ?d1)" using b by simp
  note asm = ws_dispatch_assemble [OF wf1 this disp]
  show ?thesis
  proof (cases "ws_assemble (ws_max_message_bytes d) (ws_ctl d) fin op ?p")
    case (Inl y)
    with asm Inr h same ctl show ?thesis by (cases y) (auto simp: ws_cut_def)
  next
    case Inr': (Inr y)
    obtain c es where y: "y = (c, es)" by (cases y)
    with asm Inr Inr' h un same ctl show ?thesis by (cases es) (auto simp: ws_cut_def)
  qed
qed

subsection \<open>Reading a stream\<close>

lemma ws_Next_progress:
  "ws_Next d = (EventReady, ev, err, d') \<Longrightarrow>
     length (ws_buffer d') - ws_cursor d' < length (ws_buffer d) - ws_cursor d"
proof (induction d rule: ws_Next.induct)
  case (1 d)
  obtain r d1 where fr: "ws_frame d = (r, d1)" by (cases "ws_frame d")
  show ?case
  proof (cases r)
    case Recurse
    with 1 fr have "length (ws_buffer d') - ws_cursor d' < length (ws_buffer d1) - ws_cursor d1"
      by (simp add: ws_Next.simps [of d])
    also have "\<dots> < length (ws_buffer d) - ws_cursor d"
      using fr Recurse by (auto intro: ws_frame_progress)
    finally show ?thesis .
  next
    case (Return st ev1 err1)
    with 1(2) fr have "ws_frame d = (Return EventReady ev err, d')"
      by (simp add: ws_Next.simps [of d])
    then show ?thesis
      by (fastforce simp: ws_frame_def Let_def split: if_splits sum.splits prod.splits
          dest!: ws_header_bounds ws_dispatch_buffer dest: ws_header_status)
  qed
qed

text \<open>Repeated calls of \<open>Next\<close> until it does not return an event, and the same after every
  received chunk of bytes.\<close>

function ws_ReadAll :: "WebSocketDecoder \<Rightarrow> WsEvent list \<times> WsParseStatus \<times> string \<times> WebSocketDecoder" where
  "ws_ReadAll d =
    (case ws_Next d of (status, event, error, d') \<Rightarrow>
       if status = EventReady
       then (case ws_ReadAll d' of (es, r) \<Rightarrow> (event # es, r))
       else ([], status, error, d'))"
  by pat_completeness auto
termination
  by (relation "measure (\<lambda>d. length (ws_buffer d) - ws_cursor d)") (auto intro: ws_Next_progress dest: sym)

declare ws_ReadAll.simps [simp del]

fun ws_ReadChunks :: "byte list list \<Rightarrow> WebSocketDecoder
    \<Rightarrow> WsEvent list \<times> WsParseStatus \<times> string \<times> WebSocketDecoder" where
  "ws_ReadChunks [] d = ([], WsNeedMoreData, [], d)"
| "ws_ReadChunks (c # cs) d =
    (case ws_Append c d of (ok, d1) \<Rightarrow>
       if \<not> ok then ([], WsBufferLimitExceeded, [], d1)
       else (case ws_ReadAll d1 of (es, status, error, d2) \<Rightarrow>
         if status \<noteq> WsNeedMoreData then (es, status, error, d2)
         else (case ws_ReadChunks cs d2 of (es', r) \<Rightarrow> (es @ es', r))))"

lemma ws_ReadAll_frame:
  "ws_ReadAll d =
    (case ws_frame d of
       (Return st ev err, d') \<Rightarrow>
         if st = EventReady then (case ws_ReadAll d' of (es, r) \<Rightarrow> (ev # es, r)) else ([], st, err, d')
     | (Recurse, d') \<Rightarrow> ws_ReadAll d')"
proof -
  obtain r d1 where fr: "ws_frame d = (r, d1)" by (cases "ws_frame d")
  show ?thesis
  proof (cases r)
    case (Return st ev err)
    with fr show ?thesis by (simp add: ws_ReadAll.simps [of d] ws_Next.simps [of d])
  next
    case Recurse
    with fr have "ws_Next d = ws_Next d1" by (simp add: ws_Next.simps [of d])
    with fr Recurse show ?thesis by (simp add: ws_ReadAll.simps [of d] ws_ReadAll.simps [of d1])
  qed
qed

lemma ws_ReadAll_drain:
  assumes "ws_wf d" and "\<not> ws_limit_exceeded d"
    and "drain (ws_cut (ws_max_message_bytes d) (ws_require_masking d)) (ws_ctl d) (ws_unread d) = (es, c, u, x)"
    and "ws_ReadAll d = (es', status, err, d')"
  shows "es' = es \<and> ws_wf d' \<and> same_config d d' \<and>
    (case x of None \<Rightarrow> status = WsNeedMoreData \<and> err = [] \<and> ws_unread d' = u \<and> ws_ctl d' = c
     | Some (st, e) \<Rightarrow> status = st \<and> err = e \<and> st \<in> {ProtocolError, MessageTooLarge})"
  using assms
proof (induction "length (ws_unread d)" arbitrary: d es es' rule: less_induct)
  case less
  obtain r d1 where fr: "ws_frame d = (r, d1)" by (cases "ws_frame d")
  note cut = ws_frame_cut [OF less.prems(1,2) fr]
  let ?cut = "ws_cut (ws_max_message_bytes d) (ws_require_masking d)"
  show ?case
  proof (cases "?cut (ws_ctl d) (ws_unread d)")
    case Wait
    with less.prems cut fr show ?thesis
      by (auto simp: wss.drain_Wait ws_ReadAll_frame [of d])
  next
    case (Fail y)
    with less.prems cut fr show ?thesis
      by (auto simp: wss.drain_Fail ws_ReadAll_frame [of d] split: prod.splits)
  next
    case (Cut n c1 es1)
    obtain es2 where d: "drain ?cut c1 (drop n (ws_unread d)) = (es2, c, u, x)" and es: "es = es1 @ es2"
      using less.prems(3) by (auto simp: wss.drain_Cut [OF Cut] split: prod.splits)
    have c: "ws_wf d1" "same_config d d1" "ws_unread d1 = drop n (ws_unread d)" "ws_ctl d1 = c1"
      using cut Cut by simp_all
    obtain es3 where l: "ws_ReadAll d1 = (es3, status, err, d')" and es': "es' = es1 @ es3"
      using cut Cut less.prems(4) fr
      by (auto simp: ws_ReadAll_frame [of d] split: if_splits prod.splits)
    have "length (ws_unread d1) < length (ws_unread d)"
      using wss.cut_bounds [OF Cut] c(3) by auto
    from less.hyps [OF this, of es2 es3] c d l less.prems(2) es es' show ?thesis
      by (auto simp: same_config_def)
  qed
qed

subsection \<open>Frames on the wire\<close>

text \<open>The frame of RFC 6455, section 5.2, with the shortest length field: final flag, opcode, the
  masking key of a client and the payload.\<close>

definition ws_mask :: "byte list \<Rightarrow> byte list \<Rightarrow> byte list" where
  "ws_mask key p = map (\<lambda>i. p ! i XOR key ! (i mod 4)) [0..<length p]"

definition ws_lenfield :: "byte \<Rightarrow> nat \<Rightarrow> byte list" where
  "ws_lenfield mbit n =
    (if n \<le> 125 then [mbit OR of_nat n]
     else if n \<le> 65535 then (mbit OR 126) # be_bytes 2 n
     else (mbit OR 127) # be_bytes 8 n)"

definition ws_encode :: "bool \<Rightarrow> WsOpcode \<Rightarrow> byte list option \<Rightarrow> byte list \<Rightarrow> byte list" where
  "ws_encode fin opcode key p =
    ((if fin then 0x80 else 0) OR opcode_value opcode)
      # (case key of
           None \<Rightarrow> ws_lenfield 0 (length p) @ p
         | Some k \<Rightarrow> ws_lenfield 0x80 (length p) @ k @ ws_mask k p)"

text \<open>A frame the decoder is configured to accept.\<close>

definition ws_sendable :: "size_t \<Rightarrow> bool \<Rightarrow> bool \<Rightarrow> WsOpcode \<Rightarrow> byte list option \<Rightarrow> byte list \<Rightarrow> bool" where
  "ws_sendable mm rm fin opcode key p \<longleftrightarrow>
     IsKnownOpcode opcode \<and> length p \<le> unat mm \<and> length p < 2 ^ 63 \<and>
     (IsControlOpcode opcode \<longrightarrow> fin \<and> length p \<le> 125) \<and>
     (case key of None \<Rightarrow> \<not> rm | Some k \<Rightarrow> rm \<and> length k = 4)"

lemma map_nth_take_drop: "k + n \<le> length xs \<Longrightarrow> map (\<lambda>i. xs ! (k + i)) [0..<n] = take n (drop k xs)"
  by (rule nth_equalityI) simp_all

lemma low7:
  fixes w :: byte
  assumes "w < 128"
  shows "w AND 0x7f = w" and "(0x80 OR w) AND 0x7f = w" and "w AND 0x80 = 0" and "(0x80 OR w) AND 0x80 \<noteq> 0"
proof -
  have m: "(0x7f :: byte) = mask 7" by (simp add: mask_eq_exp_minus_1)
  have t: "take_bit 7 w = w" using assms
    by (simp add: word_unat_eq_iff unsigned_take_bit_eq word_less_nat_alt take_bit_nat_eq_self)
  then show 1: "w AND 0x7f = w" by (simp add: m take_bit_eq_mask [symmetric])
  have "w AND 0x80 = (w AND 0x7f) AND 0x80" using 1 by simp
  also have "\<dots> = w AND (0x7f AND 0x80)" by (simp only: and.assoc)
  finally show 2: "w AND 0x80 = 0" by simp
  show "(0x80 OR w) AND 0x7f = w" using 1 by (simp add: bit.conj_disj_distrib2)
  show "(0x80 OR w) AND 0x80 \<noteq> 0" using 2 by (simp add: bit.conj_disj_distrib2)
qed

lemma ws_first_byte:
  assumes "IsKnownOpcode op"
  shows "(((if fin then 0x80 else 0) OR opcode_value op) AND 0x80 \<noteq> 0) = fin"
    and "((if fin then 0x80 else 0) OR opcode_value op) AND 0x70 = 0"
    and "opcode_of (((if fin then 0x80 else 0) OR opcode_value op) AND 0x0f) = op"
  using assms by (cases op; simp add: opcode_of_def)+

lemma of_nat_byte_less: "n < 128 \<Longrightarrow> (of_nat n :: byte) < 128"
  by (simp add: word_less_nat_alt unat_of_nat)

lemma length_ws_lenfield: "length (ws_lenfield m n) = (if n \<le> 125 then 1 else if n \<le> 65535 then 3 else 9)"
  by (simp add: ws_lenfield_def)

lemma ws_length_lenfield:
  assumes n: "n < 2 ^ 63" and m: "m = 0 \<or> m = 0x80"
  shows "ws_length (b # ws_lenfield m n @ v) = Inr (1 + length (ws_lenfield m n), of_nat n)"
    and "((b # ws_lenfield m n @ v) ! 1 AND 0x80 \<noteq> 0) \<longleftrightarrow> m = 0x80"
proof -
  have or7: "(m OR w) AND 0x7f = w \<and> ((m OR w) AND 0x80 \<noteq> 0 \<longleftrightarrow> m = 0x80)" if "w < 128" for w :: byte
    using m low7 [OF that] by auto
  let ?d = "b # ws_lenfield m n @ v"
  consider "n \<le> 125" | "125 < n" "n \<le> 65535" | "65535 < n" by linarith
  then have "ws_length ?d = Inr (1 + length (ws_lenfield m n), of_nat n) \<and>
      ((?d ! 1 AND 0x80 \<noteq> 0) \<longleftrightarrow> m = 0x80)"
  proof cases
    case 1
    have "(of_nat n :: byte) \<noteq> 126" "(of_nat n :: byte) \<noteq> 127"
      using 1 by (auto simp: word_unat_eq_iff unat_of_nat)
    moreover have "ucast (of_nat n :: byte) = (of_nat n :: u64)"
      using 1 by (simp add: word_unat_eq_iff unat_ucast_up unat_of_nat)
    ultimately show ?thesis
      using 1 or7 [OF of_nat_byte_less [of n]] by (simp add: ws_lenfield_def ws_length_def Let_def)
  next
    case 2
    have be: "be_bytes 2 n = [of_nat (n div 256), of_nat n]"
      by (simp add: be_bytes_def upt_rec)
    have "fold (\<lambda>b acc. push_bit 8 acc OR ucast b) (be_bytes 2 n) (of_nat 0) = (of_nat (n mod 65536) :: u64)"
      unfolding fold_shift_or using big_endian_be_bytes [of 2 n] by (simp add: big_endian_def)
    then have "push_bit 8 (ucast (of_nat (n div 256) :: byte)) OR ucast (of_nat n :: byte) = (of_nat n :: u64)"
      using 2 by (simp add: be)
    moreover have "\<not> (of_nat n :: u64) < 126"
      using 2 by (simp add: word_less_nat_alt unat_of_nat)
    ultimately show ?thesis
      using 2 or7 [of 126] by (simp add: ws_lenfield_def ws_length_def Let_def be)
  next
    case 3
    let ?bs = "be_bytes 8 n"
    have "map (\<lambda>i. (b # (m OR 127) # ?bs @ v) ! (2 + i)) [0..<8] = ?bs"
      by (subst map_nth_take_drop) simp_all
    moreover have "fold (\<lambda>i acc. push_bit 8 acc OR ucast (D ! (2 + i))) [0..<8] (0 :: u64) =
        fold (\<lambda>b acc. push_bit 8 acc OR ucast b) (map (\<lambda>i. D ! (2 + i)) [0..<8]) 0" for D :: "byte list"
      by (simp add: fold_map comp_def)
    ultimately have "fold (\<lambda>i acc. push_bit 8 acc OR ucast ((b # (m OR 127) # ?bs @ v) ! (2 + i))) [0..<8] 0 =
        fold (\<lambda>b acc. push_bit 8 acc OR ucast b) ?bs (0 :: u64)"
      by (simp only:)
    also have "\<dots> = of_nat (n mod 256 ^ 8)"
      using fold_shift_or [of ?bs 0, where 'a = 64] big_endian_be_bytes [of 8 n]
      by (simp add: big_endian_def)
    also have "\<dots> = of_nat n" using n by simp
    finally have "fold (\<lambda>i acc. push_bit 8 acc OR ucast ((b # (m OR 127) # ?bs @ v) ! (2 + i))) [0..<8] 0 =
        (of_nat n :: u64)" .
    moreover have "\<not> (of_nat n :: u64) \<le> 65535"
      using 3 n by (simp add: word_le_nat_alt unat_of_nat)
    moreover have "(b # (m OR 127) # ?bs @ v) ! 2 AND 0x80 = 0"
    proof -
      have "(b # (m OR 127) # ?bs @ v) ! 2 = of_nat (n div 256 ^ 7)"
        by (simp add: be_bytes_def nth_append)
      moreover have "n div 256 ^ 7 < 128" using n by (simp add: less_mult_imp_div_less)
      ultimately show ?thesis using low7(3) of_nat_byte_less by simp
    qed
    ultimately show ?thesis
      using 3 or7 [of 127] by (simp add: ws_lenfield_def ws_length_def Let_def)
  qed
  then show "ws_length ?d = Inr (1 + length (ws_lenfield m n), of_nat n)"
    and "(?d ! 1 AND 0x80 \<noteq> 0) \<longleftrightarrow> m = 0x80" by simp_all
qed

lemma ws_unmask:
  assumes "length k = 4"
  shows "ws_payload (h @ k @ ws_mask k p @ v) True (length h + 4) (length p) = p"
proof (rule nth_equalityI)
  fix i assume "i < length (ws_payload (h @ k @ ws_mask k p @ v) True (length h + 4) (length p))"
  then have i: "i < length p" by simp
  have "(h @ k @ ws_mask k p @ v) ! (length h + 4 + i) = p ! i XOR k ! (i mod 4)"
    using i assms by (simp add: nth_append ws_mask_def)
  moreover have "(h @ k @ ws_mask k p @ v) ! (length h + i mod 4) = k ! (i mod 4)"
    using assms by (simp add: nth_append)
  ultimately show "ws_payload (h @ k @ ws_mask k p @ v) True (length h + 4) (length p) ! i = p ! i"
    using i by (simp add: ws_payload_def xor.assoc)
qed simp

lemma ws_plain: "ws_payload (h @ p @ v) False (length h) (length p) = p"
  by (rule nth_equalityI) (simp_all add: ws_payload_def nth_append)

text \<open>The size of the header of an encoded frame.\<close>

definition ws_hsize :: "byte list option \<Rightarrow> nat \<Rightarrow> nat" where
  "ws_hsize key n = 1 + length (ws_lenfield 0 n) + (if key = None then 0 else 4)"

lemma length_ws_encode:
  "ws_sendable mm rm fin op key p \<Longrightarrow> length (ws_encode fin op key p) = ws_hsize key (length p) + length p"
  by (auto simp: ws_encode_def ws_hsize_def ws_sendable_def length_ws_lenfield ws_mask_def split: option.splits)

lemma ws_header_encode:
  assumes "ws_sendable mm rm fin op key p"
  shows "ws_header mm rm (ws_encode fin op key p @ v) =
    Inr (fin, op, key \<noteq> None, ws_hsize key (length p), of_nat (length p))"
proof -
  let ?n = "length p" and ?m = "if key = None then 0 else 0x80 :: byte"
  let ?b = "(if fin then 0x80 else 0) OR opcode_value op"
  let ?d = "ws_encode fin op key p @ v"
  have known: "IsKnownOpcode op" and n: "?n < 2 ^ 63" "?n \<le> unat mm"
    and ctl: "IsControlOpcode op \<longrightarrow> fin \<and> ?n \<le> 125" and rm: "key \<noteq> None \<longleftrightarrow> rm"
    using assms by (auto simp: ws_sendable_def split: option.splits)
  obtain rest where d: "?d = ?b # ws_lenfield ?m ?n @ rest"
    by (cases key) (simp_all add: ws_encode_def)
  have m: "?m = 0 \<or> ?m = 0x80" by simp
  have len: "ws_length ?d = Inr (1 + length (ws_lenfield 0 ?n), of_nat ?n)"
    and msk: "(?d ! 1 AND 0x80 \<noteq> 0) \<longleftrightarrow> key \<noteq> None"
    using ws_length_lenfield [OF n(1) m, of ?b rest] by (simp_all add: d length_ws_lenfield)
  have first: "(?d ! 0 AND 0x80 \<noteq> 0) = fin" "?d ! 0 AND 0x70 = 0" "opcode_of (?d ! 0 AND 0x0f) = op"
    using ws_first_byte [OF known, of fin] by (simp_all add: d)
  have un: "unat (of_nat ?n :: u64) = ?n" using n by (simp add: unat_of_nat)
  have size: "ws_hsize key ?n \<le> 14" by (simp add: ws_hsize_def length_ws_lenfield)
  have "\<not> (of_nat ?n :: u64) > - 1 - of_nat (ws_hsize key ?n)"
  proof -
    have h: "unat (of_nat (ws_hsize key ?n) :: u64) = ws_hsize key ?n" using size by (simp add: unat_of_nat)
    have "unat (- 1 - of_nat (ws_hsize key ?n) :: u64) = 2 ^ 64 - 1 - ws_hsize key ?n"
      using size by (subst unat_sub) (simp_all add: h word_le_nat_alt unsigned_minus_1_eq_mask mask_eq_exp_minus_1)
    then show ?thesis using n un size by (simp add: word_less_nat_alt)
  qed
  moreover have "\<not> (of_nat ?n :: u64) > mm" using n un by (simp add: word_less_nat_alt)
  moreover have "\<not> (IsControlOpcode op \<and> (\<not> fin \<or> (of_nat ?n :: u64) > 125))"
    using ctl un by (auto simp: word_less_nat_alt)
  moreover have "\<not> length ?d < ws_hsize key ?n + ?n"
    using length_ws_encode [OF assms] by simp
  moreover have "\<not> length ?d < 2"
    using length_ws_encode [OF assms] by (simp add: ws_hsize_def length_ws_lenfield split: if_splits)
  moreover have "(if key \<noteq> None then 1 + length (ws_lenfield 0 ?n) + 4 else 1 + length (ws_lenfield 0 ?n)) =
      ws_hsize key ?n" by (simp add: ws_hsize_def)
  ultimately show ?thesis
    using known rm unfolding ws_header_def Let_def len first msk sum.case prod.case un
    by (simp only:) auto
qed

lemma ws_payload_encode:
  assumes "ws_sendable mm rm fin op key p"
  shows "ws_payload (ws_encode fin op key p @ v) (key \<noteq> None) (ws_hsize key (length p)) (length p) = p"
proof (cases key)
  case None
  let ?h = "((if fin then 0x80 else 0) OR opcode_value op) # ws_lenfield 0 (length p)"
  from ws_plain [of ?h p v] None show ?thesis by (simp add: ws_encode_def ws_hsize_def)
next
  case (Some k)
  let ?h = "((if fin then 0x80 else 0) OR opcode_value op) # ws_lenfield 0x80 (length p)"
  have "length k = 4" using assms Some by (simp add: ws_sendable_def)
  from ws_unmask [OF this, of ?h p v] Some show ?thesis
    by (simp add: ws_encode_def ws_hsize_def length_ws_lenfield)
qed

lemma ws_cut_encode:
  assumes "ws_sendable mm rm fin op key p"
  shows "ws_cut mm rm c (ws_encode fin op key p @ v) =
    (case ws_assemble mm c fin op p of
       Inl x \<Rightarrow> Fail x | Inr (c', es) \<Rightarrow> Cut (length (ws_encode fin op key p)) c' es)"
proof -
  have "unat (of_nat (length p) :: u64) = length p"
    using assms by (simp add: ws_sendable_def unat_of_nat)
  then show ?thesis
    using ws_payload_encode [OF assms, of v]
    by (simp add: ws_cut_def ws_header_encode [OF assms] length_ws_encode [OF assms]
        split: sum.split prod.split)
qed

subsection \<open>Streams of frames\<close>

type_synonym ws_wire = "bool \<times> WsOpcode \<times> byte list option \<times> byte list"

fun ws_encode_frame :: "ws_wire \<Rightarrow> byte list" where
  "ws_encode_frame (fin, op, key, p) = ws_encode fin op key p"

fun ws_sendable_frame :: "size_t \<Rightarrow> bool \<Rightarrow> ws_wire \<Rightarrow> bool" where
  "ws_sendable_frame mm rm (fin, op, key, p) = ws_sendable mm rm fin op key p"

fun assemble_all :: "size_t \<Rightarrow> byte list option \<Rightarrow> ws_wire list
    \<Rightarrow> WsEvent list \<times> byte list option \<times> (WsParseStatus \<times> string) option" where
  "assemble_all mm c [] = ([], c, None)"
| "assemble_all mm c ((fin, op, key, p) # fs) =
    (case ws_assemble mm c fin op p of
       Inl x \<Rightarrow> ([], c, Some x)
     | Inr (c', es) \<Rightarrow> (case assemble_all mm c' fs of (es', r) \<Rightarrow> (es @ es', r)))"

lemma drain_frames:
  assumes "list_all (ws_sendable_frame mm rm) fs" and "assemble_all mm c fs = (es, c', x)"
  shows "\<exists>u. drain (ws_cut mm rm) c (concat (map ws_encode_frame fs)) = (es, c', u, x) \<and> (x = None \<longrightarrow> u = [])"
  using assms
proof (induction fs arbitrary: c es)
  case Nil
  have "ws_cut mm rm c [] = Wait" by (simp add: ws_cut_def ws_header_def)
  with Nil show ?case by (simp add: wss.drain_Wait)
next
  case (Cons f fs)
  obtain fin op key p where f: "f = (fin, op, key, p)" by (metis prod_cases4)
  let ?rest = "concat (map ws_encode_frame fs)"
  from Cons.prems f have s: "ws_sendable mm rm fin op key p" and ss: "list_all (ws_sendable_frame mm rm) fs"
    by simp_all
  note cut = ws_cut_encode [OF s, of c ?rest]
  show ?case
  proof (cases "ws_assemble mm c fin op p")
    case (Inl y)
    with Cons.prems f cut show ?thesis by (auto simp: wss.drain_Fail)
  next
    case (Inr y)
    obtain c1 es1 where y: "y = (c1, es1)" by (cases y)
    with Inr Cons.prems f obtain es2 where a: "assemble_all mm c1 fs = (es2, c', x)" "es = es1 @ es2"
      by (auto split: prod.splits)
    from Cons.IH [OF ss a(1)] Inr y f cut a(2) show ?thesis by (auto simp: wss.drain_Cut)
  qed
qed

text \<open>A waiting decoder holds less than one maximal frame, so a read that leaves room for one always
  fits.\<close>

lemma ws_Wait_bound: "ws_cut mm rm c u = Wait \<Longrightarrow> length u < 14 + unat mm"
  by (auto simp: ws_cut_def ws_header_def ws_length_def Let_def not_less word_le_nat_alt
      split: if_splits sum.splits prod.splits)

definition chunks_fit :: "size_t \<Rightarrow> size_t \<Rightarrow> byte list list \<Rightarrow> bool" where
  "chunks_fit mm mb cs \<longleftrightarrow> list_all (\<lambda>c. length c + unat mm + 13 \<le> unat mb) cs"

lemma ws_ReadChunks_drain:
  assumes "ws_wf d" and "\<not> ws_limit_exceeded d"
    and "ws_cut (ws_max_message_bytes d) (ws_require_masking d) (ws_ctl d) (ws_unread d) = Wait"
    and "chunks_fit (ws_max_message_bytes d) (ws_max_buffered_bytes d) cs"
    and "drain_chunks (ws_cut (ws_max_message_bytes d) (ws_require_masking d)) (ws_ctl d) (ws_unread d) cs =
      (es, c', u, x)"
  shows "\<exists>st err d'. ws_ReadChunks cs d = (es, st, err, d') \<and> ws_wf d' \<and>
    (case x of None \<Rightarrow> st = WsNeedMoreData \<and> err = [] \<and> ws_unread d' = u \<and> ws_ctl d' = c'
     | Some y \<Rightarrow> (st, err) = y)"
  using assms
proof (induction cs arbitrary: d es)
  case Nil
  then show ?case by simp
next
  case (Cons c cs)
  let ?mm = "ws_max_message_bytes d" and ?rm = "ws_require_masking d"
  let ?step = "ws_cut ?mm ?rm"
  obtain ok d1 where app: "ws_Append c d = (ok, d1)" by (cases "ws_Append c d")
  have "length (ws_unread d) + length c \<le> unat (ws_max_buffered_bytes d)"
    using ws_Wait_bound [OF Cons.prems(3)] Cons.prems(4) by (simp add: chunks_fit_def)
  note d1 = wsb.push_fits [OF Cons.prems(1) this app] wsb.push_frame [OF Cons.prems(1) app]
  obtain es1 c1 u1 x1 where dr: "drain ?step (ws_ctl d) (ws_unread d @ c) = (es1, c1, u1, x1)"
    by (metis prod_cases4)
  obtain es1' st err d2 where rd: "ws_ReadAll d1 = (es1', st, err, d2)" by (metis prod_cases4)
  have mb: "ws_max_buffered_bytes d1 = ws_max_buffered_bytes d"
    using d1 by (simp add: word_unat_eq_iff)
  have d2: "es1' = es1 \<and> ws_wf d2 \<and> same_config d1 d2 \<and>
    (case x1 of None \<Rightarrow> st = WsNeedMoreData \<and> err = [] \<and> ws_unread d2 = u1 \<and> ws_ctl d2 = c1
     | Some (st', e) \<Rightarrow> st = st' \<and> err = e \<and> st' \<in> {ProtocolError, MessageTooLarge})"
    using d1 dr rd Cons.prems(2) by (intro ws_ReadAll_drain) auto
  show ?case
  proof (cases x1)
    case (Some y)
    with dr Cons.prems(5) have "es = es1" "x = Some y" by auto
    with d2 Some app d1 rd show ?thesis by (cases y) auto
  next
    case None
    with dr Cons.prems(5) obtain es2 where
      ch: "drain_chunks ?step c1 u1 cs = (es2, c', u, x)" and es: "es = es1 @ es2"
      by (auto split: prod.splits)
    have w: "?step c1 u1 = Wait" using wss.drain_quiescent [OF dr [unfolded None]] .
    have cfg: "ws_max_message_bytes d2 = ?mm" "ws_require_masking d2 = ?rm"
      "ws_max_buffered_bytes d2 = ws_max_buffered_bytes d" "\<not> ws_limit_exceeded d2"
      using d1 d2 mb Cons.prems(2) by (auto simp: same_config_def)
    have fit: "chunks_fit ?mm (ws_max_buffered_bytes d) cs" using Cons.prems(4) by (simp add: chunks_fit_def)
    have "\<exists>st err d'. ws_ReadChunks cs d2 = (es2, st, err, d') \<and> ws_wf d' \<and>
      (case x of None \<Rightarrow> st = WsNeedMoreData \<and> err = [] \<and> ws_unread d' = u \<and> ws_ctl d' = c'
       | Some y \<Rightarrow> (st, err) = y)"
      using Cons.IH [of d2 es2] cfg d2 None w ch fit by auto
    with app d1 rd d2 None es show ?thesis by auto
  qed
qed

text \<open>From a new decoder: the outcome is that of the whole stream.\<close>

lemma ws_ReadChunks_stream:
  assumes fit: "chunks_fit mm mb cs"
    and dr: "drain (ws_cut mm rm) None (concat cs) = (es, c', u, x)"
  shows "\<exists>st err d'. ws_ReadChunks cs (ws_new mm mb rm) = (es, st, err, d') \<and> ws_wf d' \<and>
    (case x of None \<Rightarrow> st = WsNeedMoreData \<and> err = [] \<and> ws_unread d' = u \<and> ws_ctl d' = c'
     | Some y \<Rightarrow> (st, err) = y)"
proof -
  have w: "ws_cut mm rm None [] = Wait" by (simp add: ws_cut_def ws_header_def)
  obtain es1 c1 u1 x1 where ch: "drain_chunks (ws_cut mm rm) None [] cs = (es1, c1, u1, x1)"
    by (metis prod_cases4)
  from wss.drain_chunks_concat [OF w ch] dr have "es1 = es" "c1 = c'" "x1 = x" "x = None \<longrightarrow> u1 = u"
    by auto
  with ch w fit ws_ReadChunks_drain [of "ws_new mm mb rm" cs es1 c1 u1 x1] show ?thesis
    by (cases x) auto
qed

lemma BuildFrame_encode:
  assumes "length p < 2 ^ 63"
  shows "BuildFrame op p = ws_encode True op None p"
proof -
  let ?n = "length p" and ?w = "of_nat (length p) :: size_t"
  have un: "unat ?w = ?n" using assms by (simp add: unat_of_nat)
  have byte: "ucast (drop_bit k ?w AND 0xff) = (of_nat (?n div 2 ^ k) :: byte)" if "k \<le> 56" for k
    using that by (simp only: ucast_and_0xff)
      (rule bit_word_eqI, auto simp: bit_simps drop_bit_eq_div [symmetric] add.commute)
  have byte0: "ucast (?w AND 0xff) = (of_nat ?n :: byte)" "(ucast ?w :: byte) = of_nat ?n"
    using byte [of 0] by (simp_all add: ucast_and_0xff)
  have ten: "replicate 10 (0 :: byte) = [0, 0, 0, 0, 0, 0, 0, 0, 0, 0]" by (simp add: eval_nat_numeral)
  consider "?n \<le> 125" | "125 < ?n" "?n \<le> 65535" | "65535 < ?n" by linarith
  then show ?thesis
  proof cases
    case 1
    then show ?thesis
      by (simp add: BuildFrame_def BuildFrameHeader_def ws_encode_def ws_lenfield_def Let_def
          word_le_nat_alt un byte0 ten)
  next
    case 2
    then show ?thesis
      using byte [of 8] byte0
      by (simp add: BuildFrame_def BuildFrameHeader_def ws_encode_def ws_lenfield_def Let_def
          word_le_nat_alt un ten be_bytes_def upt_rec)
  next
    case 3
    have "fold (\<lambda>i h. h[9 - i := ucast (drop_bit (i * 8) ?w AND 0xff)]) [0..<8] [a, b, 0, 0, 0, 0, 0, 0, 0, 0] =
        a # b # be_bytes 8 ?n" for a b
      using byte [of 8] byte [of 16] byte [of 24] byte [of 32] byte [of 40] byte [of 48] byte [of 56] byte0
      by (simp add: upt_rec be_bytes_def)
    then show ?thesis
      using 3 by (simp add: BuildFrame_def BuildFrameHeader_def ws_encode_def ws_lenfield_def Let_def
          word_le_nat_alt un ten)
  qed
qed

subsection \<open>Fragmented messages\<close>

text \<open>A message sent in fragments, each after some Ping and Pong frames of its own.\<close>

type_synonym ws_fragment = "ws_wire list \<times> byte list option \<times> byte list"

fun frag_frames :: "WsOpcode \<Rightarrow> ws_fragment list \<Rightarrow> ws_wire list" where
  "frag_frames op [] = []"
| "frag_frames op ((ctls, key, p) # fs) = ctls @ (fs = [], op, key, p) # frag_frames Continuation fs"

fun pingpong :: "ws_wire \<Rightarrow> bool" where
  "pingpong (fin, op, key, p) \<longleftrightarrow> op = Ping \<or> op = Pong"

fun ctl_event :: "ws_wire \<Rightarrow> WsEvent" where
  "ctl_event (fin, op, key, p) =
     \<lparr>ev_type = (if op = Ping then PingEvent else PongEvent), ev_payload = p, ev_close_code = 1000\<rparr>"

definition frag_controls :: "ws_fragment list \<Rightarrow> ws_wire list" where
  "frag_controls frags = concat (map fst frags)"

definition frag_payload :: "ws_fragment list \<Rightarrow> byte list" where
  "frag_payload frags = concat (map (\<lambda>(_, _, p). p) frags)"

lemma assemble_controls:
  "list_all pingpong ctls \<Longrightarrow>
     assemble_all mm c (ctls @ fs) = (case assemble_all mm c fs of (es, r) \<Rightarrow> (map ctl_event ctls @ es, r))"
proof (induction ctls)
  case (Cons f ctls)
  obtain fin op key p where f: "f = (fin, op, key, p)" by (metis prod_cases4)
  with Cons.prems have "op = Ping \<or> op = Pong" by simp
  with Cons f show ?case by (auto simp: ws_assemble_def no_event_def split: prod.splits)
qed simp

lemma assemble_continuations:
  "frags \<noteq> [] \<Longrightarrow> list_all (\<lambda>(ctls, _, _). list_all pingpong ctls) frags \<Longrightarrow>
   length q + length (frag_payload frags) \<le> unat mm \<Longrightarrow>
     assemble_all mm (Some q) (frag_frames Continuation frags) =
       (map ctl_event (frag_controls frags) @ [message (q @ frag_payload frags)], None, None)"
proof (induction frags arbitrary: q)
  case (Cons f frags)
  obtain ctls key p where f: "f = (ctls, key, p)" by (metis prod_cases3)
  show ?case
  proof (cases "frags = []")
    case True
    with Cons.prems f show ?thesis
      by (simp add: assemble_controls ws_assemble_def frag_payload_def frag_controls_def)
  next
    case False
    with Cons.prems f Cons.IH [of "q @ p"] show ?thesis
      by (simp add: assemble_controls ws_assemble_def frag_payload_def frag_controls_def)
  qed
qed simp

lemma assemble_fragments:
  assumes "frags \<noteq> []" and "list_all (\<lambda>(ctls, _, _). list_all pingpong ctls) frags"
    and "length (frag_payload frags) \<le> unat mm"
  shows "assemble_all mm None (frag_frames Binary frags) =
    (map ctl_event (frag_controls frags) @ [message (frag_payload frags)], None, None)"
proof -
  obtain ctls key p fs where f: "frags = (ctls, key, p) # fs"
    using assms(1) by (metis neq_Nil_conv prod_cases3)
  show ?thesis
  proof (cases "fs = []")
    case True
    with assms f show ?thesis
      by (simp add: assemble_controls ws_assemble_def frag_payload_def frag_controls_def)
  next
    case False
    with assms f assemble_continuations [of fs p mm] show ?thesis
      by (simp add: assemble_controls ws_assemble_def frag_payload_def frag_controls_def)
  qed
qed

subsection \<open>Soundness of \<open>Next\<close>\<close>

definition event_ok :: "size_t \<Rightarrow> WsEvent \<Rightarrow> bool" where
  "event_ok mm ev \<longleftrightarrow>
    (case ev_type ev of
       BinaryMessage \<Rightarrow> length (ev_payload ev) \<le> unat mm
     | CloseEvent \<Rightarrow> length (ev_payload ev) \<le> 125 \<and> close_ok (ev_payload ev) \<and>
         ev_close_code ev = close_code (ev_payload ev)
     | _ \<Rightarrow> length (ev_payload ev) \<le> 125)"

lemma ws_header_control:
  "ws_header mm rm u = Inr (fin, op, m, hs, ps) \<Longrightarrow> IsKnownOpcode op \<and> (IsControlOpcode op \<longrightarrow> unat ps \<le> 125)"
  by (auto simp: ws_header_def Let_def word_le_nat_alt not_less split: if_splits sum.splits)

lemma ws_assemble_ok:
  assumes "ws_assemble mm c fin op p = Inr (c', es)" and "e \<in> set es"
    and "length p \<le> unat mm" and "IsKnownOpcode op" and "IsControlOpcode op \<longrightarrow> length p \<le> 125"
  shows "event_ok mm e"
  using assms
  by (cases op) (auto simp: ws_assemble_def event_ok_def message_def no_event_def IsControlOpcode_def
      split: if_splits option.splits)

lemma ws_cut_ok: "ws_cut mm rm c u = Cut n c' es \<Longrightarrow> e \<in> set es \<Longrightarrow> event_ok mm e"
  using ws_assemble_ok ws_header_control ws_header_bounds
  by (fastforce simp: ws_cut_def split: sum.splits prod.splits if_splits)

lemma ws_frame_sound:
  assumes "ws_wf d" and "ws_frame d = (r, d')"
  shows "ws_wf d' \<and> same_config d d' \<and> length (ws_unread d') \<le> length (ws_unread d) \<and>
    (case r of Return st ev err \<Rightarrow> st = EventReady \<longrightarrow> event_ok (ws_max_message_bytes d) ev | Recurse \<Rightarrow> True)"
proof (cases "ws_limit_exceeded d")
  case True
  with assms show ?thesis by (auto simp: ws_frame_def same_config_def)
next
  case False
  note cut = ws_frame_cut [OF assms(1) False assms(2)]
  have shrink: "length (ws_unread d') \<le> length (ws_unread d)"
    using assms(2) unfolding ws_frame_def Let_def
    by (auto simp: ws_unread_def split: if_splits sum.splits prod.splits dest!: ws_dispatch_buffer)
  show ?thesis
    using cut shrink ws_cut_ok [of "ws_max_message_bytes d" "ws_require_masking d" "ws_ctl d" "ws_unread d"]
    by (auto split: cut.splits if_splits ws_outcome.splits)
qed

lemma ws_Next_ok:
  assumes "ws_wf d" and "ws_Next d = (st, ev, err, d')"
  shows "ws_wf d' \<and> same_config d d' \<and> length (ws_unread d') \<le> length (ws_unread d) \<and>
    (st = EventReady \<longrightarrow> event_ok (ws_max_message_bytes d) ev)"
  using assms
proof (induction d rule: ws_Next.induct)
  case (1 d)
  obtain r d1 where fr: "ws_frame d = (r, d1)" by (cases "ws_frame d")
  note sound = ws_frame_sound [OF 1(2) fr]
  show ?case
  proof (cases r)
    case Recurse
    with 1(1) [OF fr [symmetric]] 1(3) fr sound show ?thesis
      by (auto simp: ws_Next.simps [of d] same_config_def)
  next
    case (Return st1 ev1 err1)
    with 1(3) fr sound show ?thesis by (auto simp: ws_Next.simps [of d])
  qed
qed

lemma ws_cut_Fail: "ws_cut mm rm c u = Fail x \<Longrightarrow> fst x \<in> {ProtocolError, MessageTooLarge}"
  using ws_header_status
  by (fastforce simp: ws_cut_def ws_assemble_def split: sum.splits prod.splits if_splits option.splits
      WsOpcode.splits)

subsection \<open>Properties\<close>

text \<open>C32. Receiving a fragmented WebSocket message: a binary message that a client sends in any number
  of masked fragments, with any Ping and Pong frames before each fragment, and that arrives in reads
  of any sizes, is delivered as one message whose payload is the concatenation of the fragments; the
  control frames are delivered in order before it, and nothing is left in the buffer or half
  assembled.\<close>

theorem ws_fragmented_message:
  assumes "frags \<noteq> []" and "list_all (\<lambda>(ctls, _, _). list_all pingpong ctls) frags"
    and "list_all (ws_sendable_frame mm rm) (frag_frames Binary frags)"
    and "length (frag_payload frags) \<le> unat mm"
    and "concat cs = concat (map ws_encode_frame (frag_frames Binary frags))" and "chunks_fit mm mb cs"
  shows "\<exists>d'. ws_ReadChunks cs (ws_new mm mb rm) =
      (map ctl_event (frag_controls frags) @ [message (frag_payload frags)], WsNeedMoreData, [], d') \<and>
    ws_unread d' = [] \<and> ws_ctl d' = None"
  using drain_frames [OF assms(3) assemble_fragments [OF assms(1,2,4)]] assms(5)
    ws_ReadChunks_stream [OF assms(6), of rm]
  by fastforce

theorem ws_fragmented_message_witness:
  "\<exists>d'. ws_ReadChunks [[0x02, 0x81, 1, 2], [3, 4, 0x56, 0x89, 0x80, 0, 0], [0, 0, 0x80, 0x81, 0, 0, 0, 0, 9]]
      (ws_new 16 64 True) =
    ([ctl_event (True, Ping, Some [0, 0, 0, 0], []), message [0x57, 9]], WsNeedMoreData, [], d') \<and>
    ws_unread d' = [] \<and> ws_ctl d' = None"
  using ws_fragmented_message [of
      "[([], Some [1, 2, 3, 4], [0x57]), ([(True, Ping, Some [0, 0, 0, 0], [])], Some [0, 0, 0, 0], [9])]"
      16 True "[[0x02, 0x81, 1, 2], [3, 4, 0x56, 0x89, 0x80, 0, 0], [0, 0, 0x80, 0x81, 0, 0, 0, 0, 9]]" 64]
  by (simp add: frag_controls_def frag_payload_def chunks_fit_def ws_encode_def ws_lenfield_def ws_mask_def
      ws_sendable_def IsControlOpcode_def)

text \<open>C33. The decoder is a function of the byte stream: for any bytes at all, well formed or not, and
  any two ways of splitting them into reads that fit the receive limit, the decoder produces the
  same events, stops with the same status and the same error, and when it waits for more data it
  holds the same unread bytes and the same partial message.\<close>

theorem ws_chunk_independent:
  assumes "concat cs = concat cs'" and "chunks_fit mm mb cs" and "chunks_fit mm mb cs'"
  shows "\<exists>es st err d d'. ws_ReadChunks cs (ws_new mm mb rm) = (es, st, err, d) \<and>
    ws_ReadChunks cs' (ws_new mm mb rm) = (es, st, err, d') \<and>
    (st = WsNeedMoreData \<longrightarrow> ws_unread d = ws_unread d' \<and> ws_ctl d = ws_ctl d')"
proof -
  obtain es c u x where dr: "drain (ws_cut mm rm) None (concat cs) = (es, c, u, x)"
    by (metis prod_cases4)
  from ws_ReadChunks_stream [OF assms(2) this]
    ws_ReadChunks_stream [OF assms(3) dr [unfolded assms(1)]]
  show ?thesis
  proof (cases x)
    case (Some y)
    with dr have "fst y \<noteq> WsNeedMoreData"
      using ws_cut_Fail [OF wss.drain_failure [of mm rm None "concat cs" es c u y]] by auto
    with Some ws_ReadChunks_stream [OF assms(2) dr]
      ws_ReadChunks_stream [OF assms(3) dr [unfolded assms(1)]]
    show ?thesis by fastforce
  qed fastforce
qed

theorem ws_chunk_independent_witness:
  "\<exists>es st err d d'. ws_ReadChunks [[0x82, 0x81, 0], [0, 0, 0, 7, 0x81]] (ws_new 16 64 True) = (es, st, err, d) \<and>
    ws_ReadChunks [[0x82], [0x81, 0, 0], [0, 0, 7], [0x81]] (ws_new 16 64 True) = (es, st, err, d') \<and>
    (st = WsNeedMoreData \<longrightarrow> ws_unread d = ws_unread d' \<and> ws_ctl d = ws_ctl d')"
  by (rule ws_chunk_independent) (simp_all add: chunks_fit_def)

text \<open>C34. What the server sends, a client can read: any binary messages written with
  \<open>BuildFrame\<close> (which picks the 7-bit, 16-bit or 64-bit length field) and received in reads of
  any sizes by a decoder that expects unmasked frames come out as exactly those messages, in
  order.\<close>

theorem BuildFrame_roundtrip:
  assumes "list_all (\<lambda>p. length p \<le> unat mm \<and> length p < 2 ^ 63) ps"
    and "concat cs = concat (map (BuildFrame Binary) ps)" and "chunks_fit mm mb cs"
  shows "\<exists>d'. ws_ReadChunks cs (ws_new mm mb False) = (map message ps, WsNeedMoreData, [], d') \<and>
    ws_unread d' = [] \<and> ws_ctl d' = None"
proof -
  let ?fs = "map (\<lambda>p. (True, Binary, None, p)) ps"
  have "concat (map (BuildFrame Binary) ps) = concat (map ws_encode_frame ?fs)"
    using assms(1) by (auto simp: BuildFrame_encode list_all_iff comp_def intro!: arg_cong [where f = concat])
  moreover have "list_all (ws_sendable_frame mm False) ?fs"
    using assms(1) by (auto simp: list_all_iff ws_sendable_def IsControlOpcode_def)
  moreover have "assemble_all mm None ?fs = (map message ps, None, None)"
    by (induction ps) (simp_all add: ws_assemble_def)
  ultimately show ?thesis
    using drain_frames [of mm False ?fs None "map message ps" None None] assms(2)
      ws_ReadChunks_stream [OF assms(3), of False]
    by fastforce
qed

theorem BuildFrame_roundtrip_witness:
  "\<exists>d'. ws_ReadChunks [[0x82, 2, 5], [6, 0x82, 0]] (ws_new 16 64 False) =
      (map message [[5, 6], []], WsNeedMoreData, [], d') \<and> ws_unread d' = [] \<and> ws_ctl d' = None"
  by (rule BuildFrame_roundtrip)
    (simp_all add: chunks_fit_def BuildFrame_encode ws_encode_def ws_lenfield_def)

text \<open>C35. Everything \<open>Next\<close> hands to the server is within bounds and well formed: a binary
  message, assembled or not, is at most \<open>max_message_bytes\<close> long; a control payload is at
  most 125 bytes; a close event has an empty payload or a valid close code with a UTF-8 reason. The
  call keeps the decoder's invariant (cursor inside the buffer, partial message within the limit, no
  partial text message) and never un-reads bytes.\<close>

theorem ws_Next_sound:
  assumes "ws_wf d" and "ws_Next d = (st, ev, err, d')"
  shows "ws_wf d' \<and> ws_BufferedBytes d' \<le> ws_BufferedBytes d \<and>
    (st = EventReady \<longrightarrow> event_ok (ws_max_message_bytes d) ev)"
  using ws_Next_ok [OF assms] by (simp add: size_simps)

theorem ws_Next_sound_witness:
  "event_ok 16 \<lparr>ev_type = CloseEvent, ev_payload = [3, 0xe8], ev_close_code = 1000\<rparr>"
proof -
  let ?d = "(ws_new 16 64 False)\<lparr>ws_buffer := [0x88, 2, 3, 0xe8]\<rparr>"
  have "ws_wf ?d" by (simp add: ws_wf_def ws_new_def)
  moreover have "ws_Next ?d = (EventReady, \<lparr>ev_type = CloseEvent, ev_payload = [3, 0xe8], ev_close_code = 1000\<rparr>,
      [], ?d\<lparr>ws_cursor := 4\<rparr>)"
    by (simp add: ws_Next.simps ws_frame_def ws_header_def ws_length_def ws_payload_def ws_dispatch_def
        opcode_of_def IsControlOpcode_def no_event_def IsValidCloseCode_def ws_new_def upt_rec Let_def)
  ultimately show ?thesis using ws_Next_sound by (fastforce simp: ws_new_def)
qed

text \<open>The receive limit of a WebSocket connection: \<open>Append\<close> accepts bytes exactly when the
  unread bytes stay within \<open>max_buffered_bytes\<close>, and then adds them unchanged at the end. A
  refused \<open>Append\<close> keeps the unread bytes, and from then on \<open>Next\<close> reports
  \<open>BufferLimitExceeded\<close> until \<open>Reset\<close>.\<close>

lemma ws_Append_limit:
  assumes "ws_wf d" and "ws_Append bs d = (ok, d')"
  shows "(ok \<longleftrightarrow> ws_BufferedBytes d + length bs \<le> unat (ws_max_buffered_bytes d))
    \<and> ws_unread d' = (if ok then ws_unread d @ bs else ws_unread d) \<and> ws_wf d'
    \<and> (\<not> ok \<longrightarrow> ws_Next d' =
         (WsBufferLimitExceeded, no_event, ''WebSocket receive buffer limit exceeded'', d'))
    \<and> ws_Next (ws_Reset d') = (WsNeedMoreData, no_event, [], ws_Reset d')"
proof -
  note ok = wsb.push_ok_iff [OF assms] and fr = wsb.push_frame [OF assms]
  have "ws_unread d' = (if ok then ws_unread d @ bs else ws_unread d)"
    and "\<not> ok \<longrightarrow> ws_limit_exceeded d'"
    using wsb.push_fits [OF assms(1) _ assms(2)] wsb.push_overflow [OF assms(1) _ assms(2)] ok
    by (auto simp: not_le)
  moreover have "ws_Next (ws_Reset d') = (WsNeedMoreData, no_event, [], ws_Reset d')"
    by (simp add: ws_Next.simps ws_frame_def ws_Reset_def ws_header_def)
  ultimately show ?thesis
    using ok fr by (auto simp: size_simps ws_Next.simps ws_frame_def)
qed

end
