(* ===== verification/Outbound_Queue.thy ===== *)
theory Outbound_Queue
  imports Prelude
begin

text \<open>
  \<open>src/core/outbound_queue.hpp\<close>: a per-session FIFO of shared buffers with a per-session
  byte limit, drawing on a byte budget shared by all sessions. A \<open>SharedBuffer\<close> is a
  possibly null \<open>shared_ptr\<close> to an immutable byte vector. Each operation holds its mutex
  for its whole body, so a concurrent execution is a sequence of these operations.

  The locale \<open>byte_budget\<close> is the contract of the shared budget. It is interpreted by
  \<open>GlobalQueueBudget\<close> here and by the server's own outbound accounting in the server
  theory.
\<close>

type_synonym SharedBuffer = "byte list option"

definition vec_size :: "byte list \<Rightarrow> size_t" where
  "vec_size b = of_nat (length b)"

text \<open>The length of a \<open>std::vector\<close> fits \<open>size_t\<close>.\<close>

definition vec_ok :: "byte list \<Rightarrow> bool" where
  "vec_ok b \<longleftrightarrow> length b < 2 ^ 64"

lemma unat_vec_size [size_simps]: "vec_ok b \<Longrightarrow> unat (vec_size b) = length b"
  by (simp add: vec_size_def vec_ok_def unat_of_nat)

datatype QueueResult = Accepted | SessionLimitExceeded | GlobalLimitExceeded | Closed

subsection \<open>The shared budget\<close>

record GlobalQueueBudget =
  gb_limit :: size_t
  gb_used :: size_t

definition gb_new :: "size_t \<Rightarrow> GlobalQueueBudget" where
  "gb_new limit = \<lparr>gb_limit = limit, gb_used = 0\<rparr>"

definition TryReserve :: "size_t \<Rightarrow> GlobalQueueBudget \<Rightarrow> bool \<times> GlobalQueueBudget" where
  "TryReserve bytes b =
    (if bytes > gb_limit b \<or> gb_used b > gb_limit b - bytes then (False, b)
     else (True, b\<lparr>gb_used := gb_used b + bytes\<rparr>))"

definition gb_Release :: "size_t \<Rightarrow> GlobalQueueBudget \<Rightarrow> GlobalQueueBudget" where
  "gb_Release bytes b =
    b\<lparr>gb_used := (if bytes > gb_used b then 0 else gb_used b - bytes)\<rparr>"

definition gb_Used :: "GlobalQueueBudget \<Rightarrow> size_t" where
  "gb_Used b = gb_used b"

subsection \<open>The queue of one session\<close>

record OutboundQueue =
  oq_session_limit :: size_t
  oq_queue :: "byte list list"
  oq_queued_bytes :: size_t
  oq_closed :: bool

definition oq_new :: "size_t \<Rightarrow> OutboundQueue" where
  "oq_new limit =
    \<lparr>oq_session_limit = limit, oq_queue = [], oq_queued_bytes = 0, oq_closed = False\<rparr>"

definition oq_Push :: "SharedBuffer \<Rightarrow> OutboundQueue \<Rightarrow> GlobalQueueBudget
    \<Rightarrow> QueueResult \<times> OutboundQueue \<times> GlobalQueueBudget" where
  "oq_Push buffer q b =
    (case buffer of
       None \<Rightarrow> (Closed, q, b)
     | Some buf \<Rightarrow>
         let bytes = vec_size buf
         in if oq_closed q then (Closed, q, b)
            else if bytes > oq_session_limit q \<or> oq_queued_bytes q > oq_session_limit q - bytes
              then (SessionLimitExceeded, q, b)
            else case TryReserve bytes b of
                (False, b') \<Rightarrow> (GlobalLimitExceeded, q, b')
              | (True, b') \<Rightarrow>
                  (Accepted,
                   q\<lparr>oq_queue := oq_queue q @ [buf], oq_queued_bytes := oq_queued_bytes q + bytes\<rparr>,
                   b'))"

definition oq_Pop :: "OutboundQueue \<Rightarrow> GlobalQueueBudget
    \<Rightarrow> SharedBuffer \<times> OutboundQueue \<times> GlobalQueueBudget" where
  "oq_Pop q b =
    (case oq_queue q of
       [] \<Rightarrow> (None, q, b)
     | buf # rest \<Rightarrow>
         (Some buf,
          q\<lparr>oq_queue := rest, oq_queued_bytes := oq_queued_bytes q - vec_size buf\<rparr>,
          gb_Release (vec_size buf) b))"

definition oq_Close :: "OutboundQueue \<Rightarrow> GlobalQueueBudget \<Rightarrow> OutboundQueue \<times> GlobalQueueBudget" where
  "oq_Close q b =
    (q\<lparr>oq_closed := True, oq_queue := [], oq_queued_bytes := 0\<rparr>,
     fold (\<lambda>buf. gb_Release (vec_size buf)) (oq_queue q) b)"

definition oq_QueuedBytes :: "OutboundQueue \<Rightarrow> size_t" where
  "oq_QueuedBytes q = oq_queued_bytes q"

subsection \<open>All sessions together\<close>

record queue_system =
  qs_budget :: GlobalQueueBudget
  qs_queues :: "OutboundQueue list"

datatype queue_op = QPush nat SharedBuffer | QPop nat | QClose nat

datatype queue_event = EvPush nat SharedBuffer QueueResult | EvPop nat SharedBuffer | EvClose nat

fun qs_step :: "queue_system \<Rightarrow> queue_op \<Rightarrow> queue_event \<times> queue_system" where
  "qs_step s (QPush i buffer) =
    (case oq_Push buffer (qs_queues s ! i) (qs_budget s) of (res, q, b) \<Rightarrow>
       (EvPush i buffer res, s\<lparr>qs_budget := b, qs_queues := (qs_queues s)[i := q]\<rparr>))"
| "qs_step s (QPop i) =
    (case oq_Pop (qs_queues s ! i) (qs_budget s) of (res, q, b) \<Rightarrow>
       (EvPop i res, s\<lparr>qs_budget := b, qs_queues := (qs_queues s)[i := q]\<rparr>))"
| "qs_step s (QClose i) =
    (case oq_Close (qs_queues s ! i) (qs_budget s) of (q, b) \<Rightarrow>
       (EvClose i, s\<lparr>qs_budget := b, qs_queues := (qs_queues s)[i := q]\<rparr>))"

fun op_index :: "queue_op \<Rightarrow> nat" where
  "op_index (QPush i _) = i" | "op_index (QPop i) = i" | "op_index (QClose i) = i"

text \<open>An operation names an existing queue, and a pushed buffer is a real vector.\<close>

fun op_ok :: "nat \<Rightarrow> queue_op \<Rightarrow> bool" where
  "op_ok n (QPush i buffer) \<longleftrightarrow> i < n \<and> (case buffer of None \<Rightarrow> True | Some b \<Rightarrow> vec_ok b)"
| "op_ok n (QPop i) \<longleftrightarrow> i < n"
| "op_ok n (QClose i) \<longleftrightarrow> i < n"

fun qs_run :: "queue_system \<Rightarrow> queue_op list \<Rightarrow> queue_event list \<times> queue_system" where
  "qs_run s [] = ([], s)"
| "qs_run s (x # xs) =
    (case qs_step s x of (e, s1) \<Rightarrow> case qs_run s1 xs of (es, s2) \<Rightarrow> (e # es, s2))"

definition qs_new :: "size_t \<Rightarrow> size_t list \<Rightarrow> queue_system" where
  "qs_new limit session_limits = \<lparr>qs_budget = gb_new limit, qs_queues = map oq_new session_limits\<rparr>"

subsection \<open>The contract of a byte budget\<close>

locale byte_budget =
  fixes reserve :: "size_t \<Rightarrow> 'b \<Rightarrow> bool \<times> 'b"
    and release :: "size_t \<Rightarrow> 'b \<Rightarrow> 'b"
    and used :: "'b \<Rightarrow> nat"
    and limit :: "'b \<Rightarrow> nat"
  assumes reserve_ok: "reserve n b = (ok, b') \<Longrightarrow> ok \<longleftrightarrow> used b + unat n \<le> limit b"
    and reserve_used: "reserve n b = (ok, b') \<Longrightarrow> used b' = (if ok then used b + unat n else used b)"
    and reserve_limit: "reserve n b = (ok, b') \<Longrightarrow> limit b' = limit b"
    and release_used: "unat n \<le> used b \<Longrightarrow> used (release n b) = used b - unat n"
    and release_limit: "limit (release n b) = limit b"
begin

lemma reserve_bounded: "reserve n b = (ok, b') \<Longrightarrow> used b \<le> limit b \<Longrightarrow> used b' \<le> limit b'"
  using reserve_ok reserve_used reserve_limit by fastforce

lemma release_bounded: "unat n \<le> used b \<Longrightarrow> used b \<le> limit b \<Longrightarrow> used (release n b) \<le> limit (release n b)"
  by (simp add: release_used release_limit)

lemma release_reserved: "reserve n b = (True, b') \<Longrightarrow> used (release n b') = used b"
  by (simp add: reserve_used release_used)

lemma release_all:
  assumes "sum_list (map unat ns) \<le> used b"
  shows "used (fold release ns b) = used b - sum_list (map unat ns)
    \<and> limit (fold release ns b) = limit b"
  using assms by (induction ns arbitrary: b) (simp_all add: release_used release_limit)

end

interpretation gb: byte_budget TryReserve gb_Release
  "\<lambda>b. unat (gb_used b)" "\<lambda>b. unat (gb_limit b)"
proof
  fix n b ok and b' :: GlobalQueueBudget
  assume r: "TryReserve n b = (ok, b')"
  have ok: "ok \<longleftrightarrow> fits n (gb_used b) (gb_limit b)"
    using r by (auto simp: TryReserve_def fits_def split: if_splits)
  then show "ok \<longleftrightarrow> unat (gb_used b) + unat n \<le> unat (gb_limit b)"
    by (simp add: fits_iff)
  show "unat (gb_limit b') = unat (gb_limit b)"
    using r by (auto simp: TryReserve_def split: if_splits)
  show "unat (gb_used b') = (if ok then unat (gb_used b) + unat n else unat (gb_used b))"
    using r ok unat_add_fits by (auto simp: TryReserve_def split: if_splits)
qed (auto simp: gb_Release_def not_less unat_sub word_le_nat_alt word_less_nat_alt)

subsection \<open>Invariants\<close>

definition queued :: "OutboundQueue \<Rightarrow> nat" where
  "queued q = sum_list (map length (oq_queue q))"

definition oq_inv :: "OutboundQueue \<Rightarrow> bool" where
  "oq_inv q \<longleftrightarrow> list_all vec_ok (oq_queue q) \<and> unat (oq_queued_bytes q) = queued q
     \<and> queued q \<le> unat (oq_session_limit q) \<and> (oq_closed q \<longrightarrow> oq_queue q = [])"

text \<open>
  The budget's counter is the total of the bytes queued in all sessions, and stays within its
  limit.
\<close>

definition qs_inv :: "queue_system \<Rightarrow> bool" where
  "qs_inv s \<longleftrightarrow> list_all oq_inv (qs_queues s)
     \<and> unat (gb_used (qs_budget s)) = sum_list (map queued (qs_queues s))
     \<and> unat (gb_used (qs_budget s)) \<le> unat (gb_limit (qs_budget s))"

lemma sum_vec_sizes:
  "list_all vec_ok bs \<Longrightarrow> sum_list (map unat (map vec_size bs)) = sum_list (map length bs)"
  by (induction bs) (simp_all add: size_simps)

lemma fold_release_vecs:
  "fold (\<lambda>buf. gb_Release (vec_size buf)) bs b = fold gb_Release (map vec_size bs) b"
  by (induction bs arbitrary: b) simp_all

text \<open>
  Each operation keeps the queue's invariant, moves as many bytes in the budget as in the queue,
  and leaves the limits alone.
\<close>

definition queue_step_ok :: "OutboundQueue \<Rightarrow> GlobalQueueBudget \<Rightarrow> OutboundQueue
    \<Rightarrow> GlobalQueueBudget \<Rightarrow> bool" where
  "queue_step_ok q b q' b' \<longleftrightarrow> oq_inv q'
     \<and> unat (gb_used b') + queued q = unat (gb_used b) + queued q'
     \<and> gb_limit b' = gb_limit b \<and> unat (gb_used b') \<le> unat (gb_limit b')
     \<and> oq_session_limit q' = oq_session_limit q"

lemma oq_Push_Some:
  assumes "oq_inv q" and "vec_ok buf"
  shows "oq_Push (Some buf) q b =
    (if oq_closed q then (Closed, q, b)
     else if queued q + length buf > unat (oq_session_limit q) then (SessionLimitExceeded, q, b)
     else if unat (gb_used b) + length buf > unat (gb_limit b) then (GlobalLimitExceeded, q, b)
     else (Accepted,
           q\<lparr>oq_queue := oq_queue q @ [buf], oq_queued_bytes := oq_queued_bytes q + vec_size buf\<rparr>,
           b\<lparr>gb_used := gb_used b + vec_size buf\<rparr>))"
proof -
  have "vec_size buf > oq_session_limit q \<or> oq_queued_bytes q > oq_session_limit q - vec_size buf
      \<longleftrightarrow> queued q + length buf > unat (oq_session_limit q)"
    using fits_iff [of "vec_size buf" "oq_queued_bytes q" "oq_session_limit q"] assms
    by (auto simp: fits_def oq_inv_def size_simps)
  moreover have "vec_size buf > gb_limit b \<or> gb_used b > gb_limit b - vec_size buf
      \<longleftrightarrow> unat (gb_used b) + length buf > unat (gb_limit b)"
    using fits_iff [of "vec_size buf" "gb_used b" "gb_limit b"] assms(2)
    by (auto simp: fits_def size_simps)
  ultimately show ?thesis
    by (simp add: oq_Push_def TryReserve_def Let_def)
qed

lemma oq_Push_ok:
  assumes "oq_inv q" and "unat (gb_used b) \<le> unat (gb_limit b)"
    and "case buffer of None \<Rightarrow> True | Some buf \<Rightarrow> vec_ok buf"
    and "oq_Push buffer q b = (res, q', b')"
  shows "queue_step_ok q b q' b'"
proof (cases "res = Accepted")
  case True
  with assms obtain buf where buf: "buffer = Some buf" "vec_ok buf"
    by (auto simp: oq_Push_def split: option.splits)
  note push = oq_Push_Some [OF assms(1) buf(2), of b]
  from True assms(4) buf push have
    q': "q' = q\<lparr>oq_queue := oq_queue q @ [buf], oq_queued_bytes := oq_queued_bytes q + vec_size buf\<rparr>"
    and b': "b' = b\<lparr>gb_used := gb_used b + vec_size buf\<rparr>"
    and op: "\<not> oq_closed q"
    and fs: "queued q + length buf \<le> unat (oq_session_limit q)"
    and fg: "unat (gb_used b) + length buf \<le> unat (gb_limit b)"
    by (auto split: if_splits)
  have "fits (vec_size buf) (oq_queued_bytes q) (oq_session_limit q)"
    and "fits (vec_size buf) (gb_used b) (gb_limit b)"
    using assms(1) buf(2) fs fg by (simp_all add: fits_iff oq_inv_def size_simps)
  then have "unat (oq_queued_bytes q + vec_size buf) = queued q + length buf"
    and "unat (gb_used b + vec_size buf) = unat (gb_used b) + length buf"
    using assms(1) buf(2) by (simp_all add: unat_add_fits oq_inv_def size_simps)
  moreover have "queued q' = queued q + length buf" by (simp add: q' queued_def)
  ultimately show ?thesis
    using assms(1) buf(2) op fs fg by (simp add: queue_step_ok_def oq_inv_def q' b')
next
  case False
  with assms show ?thesis
    by (auto simp: oq_Push_Some queue_step_ok_def split: option.splits if_splits)
      (simp_all add: oq_Push_def)
qed

lemma oq_Pop_ok:
  assumes "oq_inv q" and "unat (gb_used b) \<le> unat (gb_limit b)" and "queued q \<le> unat (gb_used b)"
    and "oq_Pop q b = (res, q', b')"
  shows "queue_step_ok q b q' b'"
proof (cases "oq_queue q")
  case Nil
  with assms show ?thesis by (auto simp: oq_Pop_def queue_step_ok_def)
next
  case (Cons buf rest)
  with assms(4) have q': "q' = q\<lparr>oq_queue := rest, oq_queued_bytes := oq_queued_bytes q - vec_size buf\<rparr>"
    and b': "b' = gb_Release (vec_size buf) b"
    by (auto simp: oq_Pop_def)
  have buf: "vec_ok buf" "queued q = length buf + queued q'"
    using assms(1) Cons by (auto simp: oq_inv_def queued_def q')
  have "unat (vec_size buf) \<le> unat (gb_used b)" using buf assms(3) by (simp add: size_simps)
  from gb.release_used [OF this] gb.release_bounded [OF this assms(2)]
  have "unat (gb_used b') + length buf = unat (gb_used b)" "unat (gb_used b') \<le> unat (gb_limit b')"
    using buf assms(3) by (simp_all add: b' size_simps)
  moreover have "unat (oq_queued_bytes q - vec_size buf) = queued q'"
    using assms(1) buf by (simp add: oq_inv_def size_simps word_le_nat_alt)
  ultimately show ?thesis
    using assms(1) buf Cons by (auto simp: queue_step_ok_def oq_inv_def q' b' gb_Release_def)
qed

lemma oq_Close_ok:
  assumes "oq_inv q" and "unat (gb_used b) \<le> unat (gb_limit b)" and "queued q \<le> unat (gb_used b)"
    and "oq_Close q b = (q', b')"
  shows "queue_step_ok q b q' b'"
proof -
  have sum: "sum_list (map unat (map vec_size (oq_queue q))) = queued q"
    using assms(1) sum_vec_sizes [of "oq_queue q"] by (simp add: oq_inv_def queued_def)
  with assms(3) gb.release_all [of "map vec_size (oq_queue q)" b]
  have "unat (gb_used b') = unat (gb_used b) - queued q" "unat (gb_limit b') = unat (gb_limit b)"
    using assms(4) by (auto simp: oq_Close_def fold_release_vecs)
  with assms show ?thesis
    by (auto simp: queue_step_ok_def oq_inv_def oq_Close_def queued_def word_unat_eq_iff)
qed

lemma qs_update_inv:
  assumes "qs_inv s" and "i < length (qs_queues s)"
    and "queue_step_ok (qs_queues s ! i) (qs_budget s) q b"
  shows "qs_inv (s\<lparr>qs_budget := b, qs_queues := (qs_queues s)[i := q]\<rparr>)"
proof -
  have "unat (gb_used b) = sum_list (map queued ((qs_queues s)[i := q]))"
    using assms sum_list_map_update [OF assms(2), of queued q]
    by (simp add: qs_inv_def queue_step_ok_def)
  moreover have "list_all oq_inv ((qs_queues s)[i := q])"
    using assms by (auto simp: qs_inv_def queue_step_ok_def list_all_iff dest!: set_update_subset_insert [THEN subsetD])
  ultimately show ?thesis
    using assms by (auto simp: qs_inv_def queue_step_ok_def)
qed

lemma qs_step_inv:
  assumes "qs_inv s" and "op_ok (length (qs_queues s)) x" and "qs_step s x = (e, s')"
  shows "qs_inv s' \<and> length (qs_queues s') = length (qs_queues s)"
proof -
  let ?i = "op_index x" and ?b = "qs_budget s"
  let ?q = "qs_queues s ! ?i"
  have i: "?i < length (qs_queues s)" using assms(2) by (cases x) auto
  then have inv: "oq_inv ?q" and used: "unat (gb_used ?b) \<le> unat (gb_limit ?b)"
    and le: "queued ?q \<le> unat (gb_used ?b)"
    using assms(1) elem_le_sum_list_map [of ?q "qs_queues s" queued]
    by (auto simp: qs_inv_def list_all_iff)
  show ?thesis
    using assms(2,3) qs_update_inv [OF assms(1) i] oq_Push_ok [OF inv used]
      oq_Pop_ok [OF inv used le] oq_Close_ok [OF inv used le]
    by (cases x) (auto split: prod.splits)
qed

lemma qs_run_inv:
  "qs_inv s \<Longrightarrow> list_all (op_ok (length (qs_queues s))) xs \<Longrightarrow> qs_run s xs = (es, s') \<Longrightarrow>
     qs_inv s' \<and> length (qs_queues s') = length (qs_queues s)"
proof (induction xs arbitrary: s es)
  case (Cons x xs)
  obtain e s1 es1 where st: "qs_step s x = (e, s1)" and rn: "qs_run s1 xs = (es1, s')"
    using Cons.prems(3) by (auto split: prod.splits)
  from qs_step_inv [OF Cons.prems(1) _ st] Cons.prems(2) Cons.IH [OF _ _ rn] show ?case
    by simp
qed simp

lemma qs_new_inv [inv_intros]: "qs_inv (qs_new limit ls)"
proof -
  have "sum_list (map queued (map oq_new ls)) = 0"
    by (induction ls) (simp_all add: oq_new_def queued_def)
  then show ?thesis
    by (simp add: qs_new_def qs_inv_def gb_new_def list_all_iff oq_inv_def oq_new_def queued_def)
qed

subsection \<open>Properties\<close>

text \<open>C22. Byte accounting under any interleaving of sessions: after any sequence of pushes,
  pops and closes on any number of queues, every queue's counter equals the bytes it holds and
  respects its session limit, and the shared budget's counter equals the bytes held by all queues
  together and respects the global limit. No counter ever wraps.\<close>

theorem qs_accounting:
  assumes "list_all (op_ok (length ls)) xs" and "qs_run (qs_new limit ls) xs = (es, s)"
  shows "unat (gb_Used (qs_budget s)) = sum_list (map queued (qs_queues s)) \<and>
    unat (gb_Used (qs_budget s)) \<le> unat (gb_limit (qs_budget s)) \<and>
    (\<forall>q \<in> set (qs_queues s). unat (oq_QueuedBytes q) = queued q \<and>
      queued q \<le> unat (oq_session_limit q))"
proof -
  have "qs_inv s"
    using qs_run_inv [OF qs_new_inv _ assms(2)] assms(1) by (simp add: qs_new_def)
  then show ?thesis
    by (auto simp: qs_inv_def oq_inv_def list_all_iff gb_Used_def oq_QueuedBytes_def)
qed

theorem qs_accounting_witness:
  "(let s = snd (qs_run (qs_new 4 [3, 8]) [QPush 0 (Some [1, 2]), QPush 1 (Some [3, 4, 5]),
        QPush 1 (Some [6, 7]), QPop 0])
    in unat (gb_Used (qs_budget s)) = 2 \<and> sum_list (map queued (qs_queues s)) = 2)"
proof -
  let ?xs = "[QPush 0 (Some [1, 2]), QPush 1 (Some [3, 4, 5]), QPush 1 (Some [6, 7]), QPop 0]"
  let ?s = "snd (qs_run (qs_new 4 [3, 8]) ?xs)"
  obtain es where r: "qs_run (qs_new 4 [3, 8]) ?xs = (es, ?s)"
    by (metis prod.collapse)
  have "sum_list (map queued (qs_queues ?s)) = 2"
    by (simp add: qs_new_def oq_new_def gb_new_def oq_Push_def oq_Pop_def TryReserve_def
        vec_size_def Let_def queued_def)
  with qs_accounting [of "[3, 8]" ?xs 4 es ?s, OF _ r] show ?thesis
    by (simp add: vec_ok_def)
qed

fun pushed :: "nat \<Rightarrow> queue_event list \<Rightarrow> byte list list" where
  "pushed i [] = []"
| "pushed i (EvPush j (Some b) Accepted # es) = (if j = i then b # pushed i es else pushed i es)"
| "pushed i (e # es) = pushed i es"

fun popped :: "nat \<Rightarrow> queue_event list \<Rightarrow> byte list list" where
  "popped i [] = []"
| "popped i (EvPop j (Some b) # es) = (if j = i then b # popped i es else popped i es)"
| "popped i (e # es) = popped i es"

lemma pushed_Cons: "pushed i (e # es) = pushed i [e] @ pushed i es"
  by (cases "(i, e # es)" rule: pushed.cases) auto

lemma popped_Cons: "popped i (e # es) = popped i [e] @ popped i es"
  by (cases "(i, e # es)" rule: popped.cases) auto

lemma qs_step_fifo:
  assumes "op_ok (length (qs_queues s)) x" and "x \<noteq> QClose i" and "qs_step s x = (e, s')"
  shows "oq_queue (qs_queues s ! i) @ pushed i [e] = popped i [e] @ oq_queue (qs_queues s' ! i)"
  using assms
  by (cases x)
    (auto simp: oq_Push_def oq_Pop_def oq_Close_def Let_def nth_list_update
      split: prod.splits option.splits if_splits bool.splits list.splits)

text \<open>FIFO: as long as a queue is not closed, the buffers it held at the start followed by
  those it accepted are exactly the buffers popped from it followed by those it still holds. No
  buffer is lost, duplicated, reordered or altered, whatever the other sessions do.\<close>

lemma qs_fifo:
  assumes "list_all (op_ok (length (qs_queues s))) xs" and "QClose i \<notin> set xs"
    and "qs_run s xs = (es, s')"
  shows "oq_queue (qs_queues s ! i) @ pushed i es = popped i es @ oq_queue (qs_queues s' ! i)"
  using assms
proof (induction xs arbitrary: s es)
  case (Cons x xs)
  obtain e s1 es1 where st: "qs_step s x = (e, s1)" and rn: "qs_run s1 xs = (es1, s')"
    and es: "es = e # es1"
    using Cons.prems(3) by (auto split: prod.splits)
  have "length (qs_queues s1) = length (qs_queues s)"
    using st by (cases x) (auto split: prod.splits)
  with Cons.IH [OF _ _ rn] Cons.prems
  have "oq_queue (qs_queues s1 ! i) @ pushed i es1 = popped i es1 @ oq_queue (qs_queues s' ! i)"
    by simp
  moreover have "oq_queue (qs_queues s ! i) @ pushed i [e] = popped i [e] @ oq_queue (qs_queues s1 ! i)"
    using Cons.prems by (intro qs_step_fifo [OF _ _ st]) auto
  ultimately show ?case
    unfolding es pushed_Cons [of i e es1] popped_Cons [of i e es1] by (metis append.assoc)
qed simp

end
