(* ===== verification/Send_Cursor.thy ===== *)
theory Send_Cursor
  imports Outbound_Queue
begin

text \<open>
  \<open>src/core/send_cursor.hpp\<close>: how far the two-part message of one overlapped write (a
  small header kept in the cursor, a shared payload) has been sent. \<open>WSASend\<close> may send less
  than it was given; the cursor then yields the two remainders for the next call.
\<close>

record SendCursor =
  sc_header :: "byte list"
  sc_header_size :: nat
  sc_payload :: SharedBuffer
  sc_sent :: nat

definition send_header_capacity :: nat where
  "send_header_capacity = 16"

definition sc_new :: "byte list \<Rightarrow> SharedBuffer \<Rightarrow> cpp_exception + SendCursor" where
  "sc_new header payload =
    (if length header > send_header_capacity
     then Inl (LengthError ''send header exceeds cursor capacity'')
     else Inr \<lparr>sc_header = header @ replicate (send_header_capacity - length header) 0,
               sc_header_size = length header, sc_payload = payload, sc_sent = 0\<rparr>)"

definition sc_TotalSize :: "SendCursor \<Rightarrow> nat" where
  "sc_TotalSize c =
     sc_header_size c + (case sc_payload c of None \<Rightarrow> 0 | Some p \<Rightarrow> length p)"

definition sc_Remaining :: "SendCursor \<Rightarrow> nat" where
  "sc_Remaining c = sc_TotalSize c - sc_sent c"

definition sc_Consume :: "nat \<Rightarrow> SendCursor \<Rightarrow> SendCursor" where
  "sc_Consume bytes c =
    (let remaining = sc_Remaining c
     in c\<lparr>sc_sent := sc_sent c + (if bytes > remaining then remaining else bytes)\<rparr>)"

definition sc_Complete :: "SendCursor \<Rightarrow> bool" where
  "sc_Complete c \<longleftrightarrow> sc_Remaining c = 0"

definition sc_HeaderRemainder :: "SendCursor \<Rightarrow> byte list" where
  "sc_HeaderRemainder c =
    (if sc_sent c \<ge> sc_header_size c then []
     else drop (sc_sent c) (take (sc_header_size c) (sc_header c)))"

definition sc_PayloadRemainder :: "SendCursor \<Rightarrow> byte list" where
  "sc_PayloadRemainder c =
    (case sc_payload c of
       None \<Rightarrow> []
     | Some p \<Rightarrow>
         let payload_sent = (if sc_sent c > sc_header_size c then sc_sent c - sc_header_size c else 0)
         in drop payload_sent p)"

subsection \<open>The message of a cursor\<close>

definition sc_wire :: "SendCursor \<Rightarrow> byte list" where
  "sc_wire c = take (sc_header_size c) (sc_header c) @ (case sc_payload c of None \<Rightarrow> [] | Some p \<Rightarrow> p)"

text \<open>The header fits its array, and \<open>sent\<close> never passes the end.\<close>

definition sc_inv :: "SendCursor \<Rightarrow> bool" where
  "sc_inv c \<longleftrightarrow> sc_header_size c \<le> length (sc_header c) \<and> sc_sent c \<le> sc_TotalSize c"

lemma length_sc_wire: "sc_inv c \<Longrightarrow> length (sc_wire c) = sc_TotalSize c"
  by (simp add: sc_inv_def sc_wire_def sc_TotalSize_def split: option.splits)

lemma sc_new_inv:
  "sc_new h p = Inr c \<Longrightarrow> sc_inv c \<and> sc_sent c = 0 \<and>
     sc_wire c = h @ (case p of None \<Rightarrow> [] | Some x \<Rightarrow> x)"
  by (auto simp: sc_new_def sc_inv_def sc_wire_def split: if_splits)

lemma sc_remainders:
  "sc_inv c \<Longrightarrow> sc_HeaderRemainder c @ sc_PayloadRemainder c = drop (sc_sent c) (sc_wire c)"
  by (auto simp: sc_inv_def sc_HeaderRemainder_def sc_PayloadRemainder_def sc_wire_def
      sc_TotalSize_def min_def split: option.splits)

lemma sc_Consume_inv [inv_intros]: "sc_inv c \<Longrightarrow> sc_inv (sc_Consume n c)"
  by (auto simp: sc_inv_def sc_Consume_def sc_Remaining_def sc_TotalSize_def Let_def)

lemma sc_Consume_sent:
  "sc_inv c \<Longrightarrow> sc_sent (sc_Consume n c) = min (sc_sent c + n) (sc_TotalSize c)"
  by (auto simp: sc_inv_def sc_Consume_def sc_Remaining_def Let_def)

lemma sc_Consume_frame [simp]:
  "sc_wire (sc_Consume n c) = sc_wire c" "sc_TotalSize (sc_Consume n c) = sc_TotalSize c"
  by (simp_all add: sc_Consume_def sc_wire_def sc_TotalSize_def Let_def)

text \<open>
  A write operation: each completion reports how many bytes of the two remainders were sent, and
  the cursor is advanced by it.
\<close>

fun transmit :: "nat list \<Rightarrow> SendCursor \<Rightarrow> byte list \<times> SendCursor" where
  "transmit [] c = ([], c)"
| "transmit (n # ns) c =
    (let out = take n (sc_HeaderRemainder c @ sc_PayloadRemainder c)
     in case transmit ns (sc_Consume n c) of (outs, c') \<Rightarrow> (out @ outs, c'))"

lemma transmit_spec:
  assumes "sc_inv c" and "transmit ns c = (out, c')"
  shows "sc_inv c' \<and> sc_wire c' = sc_wire c \<and>
    sc_sent c' = min (sc_sent c + sum_list ns) (sc_TotalSize c) \<and>
    out = drop (sc_sent c) (take (sc_sent c') (sc_wire c))"
  using assms
proof (induction ns arbitrary: c out)
  case Nil
  then show ?case by (simp add: sc_inv_def)
next
  case (Cons n ns)
  obtain outs where t: "transmit ns (sc_Consume n c) = (outs, c')"
    and out: "out = take n (drop (sc_sent c) (sc_wire c)) @ outs"
    using Cons.prems by (auto simp: Let_def sc_remainders split: prod.splits)
  note IH = Cons.IH [OF sc_Consume_inv [OF Cons.prems(1)] t]
  note s1 = sc_Consume_sent [OF Cons.prems(1), of n] and len = length_sc_wire [OF Cons.prems(1)]
  let ?s = "sc_sent c" and ?s1 = "sc_sent (sc_Consume n c)" and ?s2 = "sc_sent c'"
  have le: "?s \<le> ?s1" "?s1 \<le> ?s2"
    using s1 IH Cons.prems(1) by (auto simp: sc_inv_def)
  have "take n (drop ?s (sc_wire c)) = drop ?s (take ?s1 (sc_wire c))"
    using s1 len by (auto simp: take_drop min_def add.commute)
  moreover have "outs = drop ?s1 (take ?s2 (sc_wire c))" using IH by simp
  ultimately have "out = drop ?s (take ?s2 (sc_wire c))"
    using out slice_append [OF le, of "sc_wire c"] by simp
  with IH s1 show ?case by (auto simp: min_def)
qed

subsection \<open>Properties\<close>

text \<open>Partial sends: whatever sizes the successive completions of a write operation report,
  the bytes that went out are a prefix of header followed by payload, of the total size reported
  (or the whole message); the cursor is complete exactly when everything went out, and what it
  offers next is exactly the unsent rest.\<close>

lemma sc_partial_sends:
  assumes "sc_new h (Some p) = Inr c" and "transmit ns c = (out, c')"
  shows "out = take (sum_list ns) (h @ p) \<and>
    (sc_Complete c' \<longleftrightarrow> out = h @ p) \<and>
    sc_HeaderRemainder c' @ sc_PayloadRemainder c' = drop (sum_list ns) (h @ p) \<and>
    sc_TotalSize c' = length h + length p"
proof -
  note c = sc_new_inv [OF assms(1)] and t = transmit_spec [OF _ assms(2)]
  have wire: "sc_wire c = h @ p" and tot: "sc_TotalSize c = length (h @ p)"
    using c length_sc_wire [of c] by auto
  have out: "out = take (sum_list ns) (h @ p)" and sent: "sc_sent c' = min (sum_list ns) (length (h @ p))"
    using t c wire tot by (auto simp: min_def)
  have tot': "sc_TotalSize c' = length (h @ p)"
    using t c wire length_sc_wire [of c'] by auto
  have "sc_Complete c' \<longleftrightarrow> length (h @ p) \<le> sum_list ns"
    using sent tot' by (auto simp: sc_Complete_def sc_Remaining_def)
  also have "\<dots> \<longleftrightarrow> out = h @ p"
    unfolding out by (metis length_take min.absorb_iff1 min.commute take_all_iff)
  finally show ?thesis
    using out sent tot' t c wire sc_remainders [of c'] by (auto simp: min_def)
qed

end
