(* ===== verification/Memory_Pool.thy ===== *)
theory Memory_Pool
  imports Prelude
begin

text \<open>
  \<open>src/core/memory_pool.hpp\<close>: \<open>TypedObjectPool\<close>, a fixed array of slots with an
  intrusive free list. A slot is a union: it holds either an object or the link to the next free
  slot, so that a read of the wrong member is visible in the model. Pointers to slots are indices;
  a pointer passed to \<open>Destroy\<close> is a byte offset from the start of the array, since the code
  checks its range and its alignment. The build flag \<open>NDEBUG\<close> is the field
  \<open>pool_debug\<close>: a debug build keeps the bitmap \<open>allocated_\<close>, a release build does not.
\<close>

subsection \<open>Data\<close>

datatype 'a slot = Storage 'a | NextFree "nat option" | Raw

record 'a TypedObjectPool =
  pool_debug :: bool
  pool_slot_size :: nat
  pool_slots :: "'a slot list"
  pool_free_head :: "nat option"
  pool_allocated :: "bool list"

definition pool_capacity :: "'a TypedObjectPool \<Rightarrow> nat" where
  "pool_capacity p = length (pool_slots p)"

subsection \<open>Operations\<close>

definition size_max :: nat where
  "size_max = 2 ^ 64 - 1"

text \<open>The constructor threads every slot into the free list, in order.\<close>

definition pool_new :: "bool \<Rightarrow> nat \<Rightarrow> nat \<Rightarrow> cpp_exception + 'a TypedObjectPool" where
  "pool_new debug slot_size capacity =
    (if capacity = 0 then Inl (InvalidArgument ''TypedObjectPool capacity must be non-zero'')
     else if capacity > size_max div slot_size
       then Inl (LengthError ''TypedObjectPool capacity overflows allocation size'')
     else Inr \<lparr>pool_debug = debug, pool_slot_size = slot_size,
       pool_slots = map (\<lambda>i. if i + 1 < capacity then NextFree (Some (i + 1)) else NextFree None)
         [0..<capacity],
       pool_free_head = Some 0,
       pool_allocated = (if debug then replicate capacity False else [])\<rparr>)"

text \<open>
  Reading \<open>slot->next\<close> of a slot whose union holds an object is undefined behaviour; the
  model yields \<open>None\<close> for it, and the invariant below excludes it.
\<close>

definition slot_next :: "'a slot \<Rightarrow> nat option" where
  "slot_next s = (case s of NextFree n \<Rightarrow> n | _ \<Rightarrow> None)"

text \<open>
  \<open>Create\<close>: the constructor of \<open>T\<close> is a parameter, \<open>None\<close> when it throws; the slot
  then goes back to the free list and the exception is rethrown.
\<close>

definition pool_Create :: "'a option \<Rightarrow> 'a TypedObjectPool
    \<Rightarrow> (cpp_exception + nat option) \<times> 'a TypedObjectPool" where
  "pool_Create construct p =
    (case pool_free_head p of
       None \<Rightarrow> (Inr None, p)
     | Some i \<Rightarrow>
         let p1 = p\<lparr>pool_free_head := slot_next (pool_slots p ! i)\<rparr>
         in if pool_debug p \<and> pool_allocated p1 ! i
            then (Inl (LogicError ''TypedObjectPool free-list corruption''), p1)
            else
              let p2 = p1\<lparr>pool_allocated :=
                    (if pool_debug p then (pool_allocated p1)[i := True] else pool_allocated p1)\<rparr>
              in case construct of
                   Some x \<Rightarrow> (Inr (Some i), p2\<lparr>pool_slots := (pool_slots p2)[i := Storage x]\<rparr>)
                 | None \<Rightarrow>
                     (Inl ConstructorThrew,
                      p2\<lparr>pool_allocated :=
                          (if pool_debug p then (pool_allocated p2)[i := False] else pool_allocated p2),
                        pool_slots := (pool_slots p2)[i := NextFree (pool_free_head p2)],
                        pool_free_head := Some i\<rparr>))"

text \<open>
  \<open>Destroy\<close>: a null pointer is ignored; \<open>offset\<close> is the distance in bytes of the pointer
  from the array (negative below it). \<open>offsetof(Slot, storage)\<close> is 0 in a union.
\<close>

definition pool_Destroy :: "int option \<Rightarrow> 'a TypedObjectPool
    \<Rightarrow> (cpp_exception + unit) \<times> 'a TypedObjectPool" where
  "pool_Destroy object p =
    (case object of
       None \<Rightarrow> (Inr (), p)
     | Some offset \<Rightarrow>
         if offset < 0 \<or> offset \<ge> int (pool_capacity p * pool_slot_size p)
           then (Inl (InvalidArgument ''pointer does not belong to TypedObjectPool''), p)
         else if nat offset mod pool_slot_size p \<noteq> 0
           then (Inl (InvalidArgument ''pointer is not at a TypedObjectPool block boundary''), p)
         else
           let i = nat offset div pool_slot_size p
           in if pool_debug p \<and> \<not> pool_allocated p ! i
              then (Inl (LogicError ''TypedObjectPool double free detected''), p)
              else
                let p1 = p\<lparr>pool_allocated :=
                      (if pool_debug p then (pool_allocated p)[i := False] else pool_allocated p)\<rparr>
                in (Inr (), p1\<lparr>pool_slots := (pool_slots p1)[i := NextFree (pool_free_head p1)],
                      pool_free_head := Some i\<rparr>))"

subsection \<open>The free list\<close>

text \<open>The slots reachable from the free head, as a path through the links.\<close>

fun free_path :: "'a slot list \<Rightarrow> nat option \<Rightarrow> nat list \<Rightarrow> bool" where
  "free_path ss h [] \<longleftrightarrow> h = None"
| "free_path ss h (i # is) \<longleftrightarrow>
     h = Some i \<and> i < length ss \<and> (\<exists>n. ss ! i = NextFree n \<and> free_path ss n is)"

lemma free_path_update [simp]:
  "i \<notin> set is \<Longrightarrow> free_path (ss[i := x]) h is = free_path ss h is"
  by (induction "is" arbitrary: h) auto

lemma free_path_range: "free_path ss h is \<Longrightarrow> i \<in> set is \<Longrightarrow> i < length ss"
  by (induction "is" arbitrary: h) auto

fun is_storage :: "'a slot \<Rightarrow> bool" where
  "is_storage (Storage x) = True"
| "is_storage s = False"

definition live :: "'a TypedObjectPool \<Rightarrow> nat set" where
  "live p = {i. i < pool_capacity p \<and> is_storage (pool_slots p ! i)}"

text \<open>
  The free list threads exactly the slots that hold no object, each once; the debug bitmap marks
  exactly the slots that hold one.
\<close>

definition free_list :: "'a TypedObjectPool \<Rightarrow> nat list \<Rightarrow> bool" where
  "free_list p fl \<longleftrightarrow> free_path (pool_slots p) (pool_free_head p) fl \<and> distinct fl
     \<and> set fl = {0..<pool_capacity p} - live p"

definition pool_inv :: "'a TypedObjectPool \<Rightarrow> bool" where
  "pool_inv p \<longleftrightarrow> 0 < pool_slot_size p \<and> (\<exists>fl. free_list p fl)
     \<and> (pool_debug p \<longrightarrow> pool_allocated p = map is_storage (pool_slots p))"

lemma finite_live [simp]: "finite (live p)"
  by (simp add: live_def)

lemma free_list_length:
  assumes "free_list p fl"
  shows "length fl + card (live p) = pool_capacity p"
proof -
  have "live p \<subseteq> {0..<pool_capacity p}" by (auto simp: live_def)
  then have "card ({0..<pool_capacity p} - live p) + card (live p) = pool_capacity p"
    by (metis card_Diff_subset card_atLeastLessThan card_mono diff_zero finite_atLeastLessThan
        finite_live le_add_diff_inverse2)
  with assms show ?thesis by (simp add: free_list_def distinct_card [symmetric])
qed

lemma map_is_storage_update:
  "(map is_storage ss)[i := b] = map is_storage (ss[i := x])" if "is_storage x = b"
  using that by (simp add: map_update)

subsection \<open>Each operation\<close>

lemma pool_new_inv:
  assumes "pool_new d k n = Inr p" and "0 < k"
  shows "pool_inv p \<and> live p = {} \<and> pool_capacity p = n \<and> 0 < n"
proof -
  let ?ss = "map (\<lambda>i. if i + 1 < n then NextFree (Some (i + 1)) else NextFree None) [0..<n] :: 'a slot list"
  from assms have n: "0 < n" and p: "pool_slots p = ?ss" "pool_free_head p = Some 0"
    "pool_slot_size p = k" "pool_allocated p = (if d then replicate n False else [])"
    "pool_debug p = d"
    by (auto simp: pool_new_def split: if_splits)
  have path: "m \<le> n \<Longrightarrow> free_path ?ss (if n - m < n then Some (n - m) else None) [n - m..<n]" for m
  proof (induction m)
    case (Suc m)
    then have "[n - Suc m..<n] = (n - Suc m) # [n - m..<n]"
      by (simp add: upt_conv_Cons Suc_diff_Suc)
    with Suc show ?case by (auto simp: Suc_diff_Suc split: if_splits)
  qed simp
  have no: "live p = {}" by (auto simp: live_def p pool_capacity_def)
  have "free_list p [0..<n]"
    using path [of n] n no by (auto simp: free_list_def p pool_capacity_def)
  moreover have "map is_storage ?ss = replicate n False"
    by (intro nth_equalityI) auto
  ultimately show ?thesis
    using assms(2) n no by (auto simp: pool_inv_def p pool_capacity_def)
qed

lemma pool_Create_full:
  assumes "pool_inv p"
  shows "pool_free_head p = None \<longleftrightarrow> card (live p) = pool_capacity p"
proof -
  from assms obtain fl where fl: "free_list p fl" by (auto simp: pool_inv_def)
  have "pool_free_head p = None \<longleftrightarrow> fl = []"
    using fl by (cases fl) (auto simp: free_list_def)
  with free_list_length [OF fl] show ?thesis by auto
qed

lemma pool_head:
  assumes "pool_inv p" and "pool_free_head p = Some i"
  obtains n fl where "pool_slots p ! i = NextFree n" and "free_list p (i # fl)"
    and "free_path (pool_slots p) n fl" and "i < pool_capacity p" and "i \<notin> live p"
proof -
  from assms(1) obtain fs where fs: "free_list p fs" by (auto simp: pool_inv_def)
  with assms(2) obtain fl where "fs = i # fl" by (cases fs) (auto simp: free_list_def)
  with fs that show ?thesis by (auto simp: free_list_def pool_capacity_def live_def)
qed

lemma pool_Create_ok:
  fixes x :: 'a
  assumes "pool_inv p" and "pool_free_head p = Some i"
  defines "p' \<equiv> snd (pool_Create (Some x) p)"
  shows "fst (pool_Create (Some x) p) = Inr (Some i)"
    and "pool_inv p'" and "live p' = insert i (live p)" and "i \<notin> live p"
    and "pool_slots p' = (pool_slots p)[i := Storage x]"
    and "pool_slot_size p' = pool_slot_size p" and "pool_debug p' = pool_debug p"
proof -
  from pool_head [OF assms(1,2)] obtain n fl where
    i: "pool_slots p ! i = NextFree n" "free_list p (i # fl)"
      "free_path (pool_slots p) n fl" "i < pool_capacity p" "i \<notin> live p" .
  have bit: "\<not> (pool_debug p \<and> pool_allocated p ! i)"
    using assms(1) i by (auto simp: pool_inv_def pool_capacity_def)
  then show "fst (pool_Create (Some x) p) = Inr (Some i)"
    by (simp add: pool_Create_def assms(2) Let_def)
  have p': "pool_slots p' = (pool_slots p)[i := Storage x]" "pool_free_head p' = n"
    "pool_debug p' = pool_debug p" "pool_slot_size p' = pool_slot_size p"
    "pool_allocated p' = (if pool_debug p then (pool_allocated p)[i := True] else pool_allocated p)"
    using bit by (auto simp: p'_def pool_Create_def assms(2) Let_def i(1) slot_next_def)
  show live: "live p' = insert i (live p)"
    using i by (auto simp: live_def p' pool_capacity_def nth_list_update)
  have "free_list p' fl"
    using i live by (auto simp: free_list_def p' pool_capacity_def)
  then show "pool_inv p'"
    using assms(1) by (auto simp: pool_inv_def p' map_update)
  show "i \<notin> live p" "pool_slots p' = (pool_slots p)[i := Storage x]"
    "pool_slot_size p' = pool_slot_size p" "pool_debug p' = pool_debug p"
    by (fact i(5) p')+
qed

text \<open>A throwing constructor leaves the pool as it was.\<close>

lemma pool_Create_throws:
  assumes "pool_inv p" and "pool_free_head p = Some i"
  shows "pool_Create None p = (Inl ConstructorThrew, p)"
proof -
  from pool_head [OF assms] obtain n fl where
    i: "pool_slots p ! i = NextFree n" "free_list p (i # fl)" "i < pool_capacity p" "i \<notin> live p"
    by blast
  have "pool_debug p \<Longrightarrow> \<not> pool_allocated p ! i"
    and "pool_debug p \<Longrightarrow> (pool_allocated p)[i := False] = pool_allocated p"
    using assms(1) i by (auto simp: pool_inv_def pool_capacity_def list_update_same_conv)
  moreover have "(pool_slots p)[i := NextFree n] = pool_slots p"
    using i by (simp add: pool_capacity_def list_update_same_conv)
  ultimately show ?thesis
    by (simp add: pool_Create_def assms(2) Let_def i(1) slot_next_def)
qed

text \<open>The byte offset of the object in slot \<open>i\<close>, as \<open>Create\<close> returns it.\<close>

definition slot_ptr :: "'a TypedObjectPool \<Rightarrow> nat \<Rightarrow> int" where
  "slot_ptr p i = int (i * pool_slot_size p)"

lemma pool_Destroy_at:
  assumes "pool_inv p" and "i < pool_capacity p"
  shows "pool_Destroy (Some (slot_ptr p i)) p =
    (if pool_debug p \<and> \<not> pool_allocated p ! i
     then (Inl (LogicError ''TypedObjectPool double free detected''), p)
     else (Inr (), p\<lparr>pool_allocated :=
         (if pool_debug p then (pool_allocated p)[i := False] else pool_allocated p),
       pool_slots := (pool_slots p)[i := NextFree (pool_free_head p)], pool_free_head := Some i\<rparr>))"
proof -
  have "0 < pool_slot_size p" using assms(1) by (simp add: pool_inv_def)
  moreover from this have "i * pool_slot_size p < pool_capacity p * pool_slot_size p"
    using assms(2) by simp
  ultimately show ?thesis
    by (simp add: slot_ptr_def pool_Destroy_def Let_def nat_mult_distrib del: of_nat_mult)
qed

lemma pool_Destroy_ok:
  assumes "pool_inv p" and "i \<in> live p"
  defines "p' \<equiv> snd (pool_Destroy (Some (slot_ptr p i)) p)"
  shows "fst (pool_Destroy (Some (slot_ptr p i)) p) = Inr ()"
    and "pool_inv p'" and "live p' = live p - {i}" and "pool_free_head p' = Some i"
    and "pool_capacity p' = pool_capacity p"
    and "\<forall>j. j \<noteq> i \<longrightarrow> pool_slots p' ! j = pool_slots p ! j"
    and "pool_slot_size p' = pool_slot_size p" and "pool_debug p' = pool_debug p"
proof -
  have i: "i < pool_capacity p" "is_storage (pool_slots p ! i)"
    using assms(2) by (auto simp: live_def)
  have bit: "pool_debug p \<Longrightarrow> pool_allocated p ! i"
    using assms(1) i by (simp add: pool_inv_def pool_capacity_def)
  note d = pool_Destroy_at [OF assms(1) i(1)]
  show "fst (pool_Destroy (Some (slot_ptr p i)) p) = Inr ()"
    using bit by (auto simp: d)
  have p': "p' = p\<lparr>pool_allocated :=
         (if pool_debug p then (pool_allocated p)[i := False] else pool_allocated p),
       pool_slots := (pool_slots p)[i := NextFree (pool_free_head p)], pool_free_head := Some i\<rparr>"
    using bit by (auto simp: p'_def d)
  show live: "live p' = live p - {i}"
    using i by (auto simp: live_def p' pool_capacity_def nth_list_update)
  from assms(1) obtain fl where fl: "free_list p fl" by (auto simp: pool_inv_def)
  then have new: "i \<notin> set fl" using assms(2) by (auto simp: free_list_def)
  have cap: "pool_capacity p' = pool_capacity p" by (simp add: p' pool_capacity_def)
  have "free_path (pool_slots p') (pool_free_head p') (i # fl)"
    using fl new i by (simp add: free_list_def p' pool_capacity_def)
  moreover have "set (i # fl) = {0..<pool_capacity p'} - live p'"
  proof -
    have "set fl = {0..<pool_capacity p} - live p" and "i \<in> {0..<pool_capacity p}"
      using fl i(1) by (simp_all add: free_list_def)
    then show ?thesis
      unfolding live cap list.set using assms(2) by blast
  qed
  ultimately have "free_list p' (i # fl)"
    using fl new by (simp add: free_list_def)
  moreover have "0 < pool_slot_size p'"
    and "pool_debug p' \<Longrightarrow> pool_allocated p' = map is_storage (pool_slots p')"
    using assms(1) by (simp_all add: pool_inv_def p' map_update)
  ultimately show "pool_inv p'"
    by (auto simp: pool_inv_def)
  show "pool_free_head p' = Some i" "pool_capacity p' = pool_capacity p"
    "\<forall>j. j \<noteq> i \<longrightarrow> pool_slots p' ! j = pool_slots p ! j"
    "pool_slot_size p' = pool_slot_size p" "pool_debug p' = pool_debug p"
    by (simp_all add: p' pool_capacity_def)
qed

subsection \<open>Runs\<close>

text \<open>
  A client of the pool: it creates objects and destroys objects by the pointers it holds. In
  \<open>PFree i\<close> the pointer is that of slot \<open>i\<close>, whether or not it is live.
\<close>

datatype 'a pool_op = PNew "'a option" | PFree nat

fun pool_step :: "'a TypedObjectPool \<Rightarrow> 'a pool_op \<Rightarrow> cpp_exception option \<times> 'a TypedObjectPool" where
  "pool_step p (PNew c) =
    (case pool_Create c p of (r, p') \<Rightarrow> (case r of Inl e \<Rightarrow> Some e | Inr _ \<Rightarrow> None, p'))"
| "pool_step p (PFree i) =
    (case pool_Destroy (Some (slot_ptr p i)) p of
       (r, p') \<Rightarrow> (case r of Inl e \<Rightarrow> Some e | Inr _ \<Rightarrow> None, p'))"

fun pool_run :: "'a TypedObjectPool \<Rightarrow> 'a pool_op list \<Rightarrow> cpp_exception option list \<times> 'a TypedObjectPool" where
  "pool_run p [] = ([], p)"
| "pool_run p (x # xs) =
    (case pool_step p x of (e, p1) \<Rightarrow> case pool_run p1 xs of (es, p2) \<Rightarrow> (e # es, p2))"

lemma pool_Destroy_dead:
  assumes "pool_inv p" and "pool_debug p" and "i \<notin> live p"
  shows "\<exists>e. pool_Destroy (Some (slot_ptr p i)) p = (Inl e, p) \<and>
    e \<noteq> LogicError ''TypedObjectPool free-list corruption''"
proof (cases "i < pool_capacity p")
  case True
  then have "\<not> pool_allocated p ! i"
    using assms by (auto simp: pool_inv_def live_def pool_capacity_def)
  with pool_Destroy_at [OF assms(1) True] assms(2) show ?thesis by simp
next
  case False
  then have "pool_capacity p * pool_slot_size p \<le> i * pool_slot_size p"
    by simp
  then show ?thesis
    by (auto simp: pool_Destroy_def slot_ptr_def simp del: of_nat_mult)
qed

lemma pool_step_inv:
  assumes "pool_inv p" and "pool_debug p" and "pool_step p x = (e, p')"
  shows "pool_inv p' \<and> pool_debug p' \<and> pool_capacity p' = pool_capacity p \<and>
    e \<noteq> Some (LogicError ''TypedObjectPool free-list corruption'')"
proof (cases x)
  case (PNew c)
  show ?thesis
  proof (cases "pool_free_head p")
    case None
    with assms PNew show ?thesis by (auto simp: pool_Create_def)
  next
    case (Some i)
    show ?thesis
    proof (cases c)
      case None
      with assms PNew Some show ?thesis by (auto simp: pool_Create_throws)
    next
      case (Some y)
      note ok = pool_Create_ok(1,2,3,5,6,7) [OF assms(1) \<open>pool_free_head p = Some i\<close>, of y]
      have "p' = snd (pool_Create (Some y) p)" "e = None"
        using assms(3) PNew Some ok(1) by (auto split: prod.splits sum.splits)
      with ok assms(2) show ?thesis by (simp add: pool_capacity_def)
    qed
  qed
next
  case (PFree i)
  show ?thesis
  proof (cases "i \<in> live p")
    case True
    note ok = pool_Destroy_ok [OF assms(1) True]
    have "p' = snd (pool_Destroy (Some (slot_ptr p i)) p)" "e = None"
      using assms(3) PFree ok(1) by (auto split: prod.splits sum.splits)
    with ok assms(2) show ?thesis by simp
  next
    case False
    with pool_Destroy_dead [OF assms(1,2)] assms PFree show ?thesis by fastforce
  qed
qed

lemma pool_run_inv:
  assumes "pool_inv p" and "pool_debug p" and "pool_run p xs = (es, p')"
  shows "pool_inv p' \<and> pool_capacity p' = pool_capacity p \<and>
    Some (LogicError ''TypedObjectPool free-list corruption'') \<notin> set es"
  using assms
proof (induction xs arbitrary: p es)
  case (Cons x xs)
  obtain e p1 es1 where st: "pool_step p x = (e, p1)" and rn: "pool_run p1 xs = (es1, p')"
    and es: "es = e # es1"
    using Cons.prems(3) by (auto split: prod.splits)
  from pool_step_inv [OF Cons.prems(1,2) st] Cons.IH [OF _ _ rn] es show ?case by auto
qed simp

subsection \<open>Properties\<close>



text \<open>Destruction of a live object succeeds, frees exactly its slot and makes that slot the
  next one to be reused; in a debug build destroying a slot that holds no object (a double free)
  is reported and changes nothing.\<close>

lemma pool_Destroy_functional:
  assumes "pool_inv p" and "pool_Destroy (Some (slot_ptr p i)) p = (r, p')"
  shows "if i \<in> live p
    then r = Inr () \<and> live p' = live p - {i} \<and> pool_inv p' \<and>
      fst (pool_Create (Some x) p') = Inr (Some i) \<and> (\<forall>j. j \<noteq> i \<longrightarrow> pool_slots p' ! j = pool_slots p ! j)
    else pool_debug p \<longrightarrow> (\<exists>e. r = Inl e) \<and> p' = p"
  using pool_Destroy_ok [OF assms(1), of i] pool_Destroy_dead [OF assms(1), of i] assms(2)
    pool_Create_ok(1) [of p' i x]
  by auto

end
