(* ===== verification/Server_State.thy ===== *)
theory Server_State
  imports Server_Config Session_Registry Framing Ws_Frames Send_Cursor Memory_Pool
begin

text \<open>
  The state of \<open>IocpServer::Impl\<close> (\<open>src/core/iocp_server.cpp\<close>) and the end of a session,
  \<open>Disconnect\<close>.

  Sessions are shared objects: the store is a list of all sessions ever accepted, and a
  \<open>shared_ptr\<close> to one is its index. Every call to Winsock or to the allocator that can succeed or
  fail reads the next answer of \<open>srv_oracle\<close>, and every look at the clock reads the next value of
  \<open>srv_clock\<close>; the theorems hold for all answers. The overlapped operations are heap objects: an
  address is an index, and \<open>delete\<close> leaves \<open>None\<close> behind. A completion handler, a call of the
  application and a pass of the timer are steps that run to their end.

  Three fields are not members of the class. \<open>srv_fault\<close> records what would end the process, an
  exception that leaves a thread, or a loop of the model that ran out of fuel; \<open>srv_accepted_log\<close> and
  \<open>srv_wire_log\<close> record per session what was accepted for sending and what went out, and nothing
  reads them.
\<close>

subsection \<open>Data\<close>

text \<open>The used part of the 16-byte header array, the payload and the flag.\<close>

record OutboundItem =
  oi_header :: "byte list"
  oi_payload :: "byte list"
  oi_close_after :: bool

definition item_wire :: "OutboundItem \<Rightarrow> byte list" where
  "item_wire item = oi_header item @ oi_payload item"

definition item_bytes :: "OutboundItem \<Rightarrow> nat" where
  "item_bytes item = length (oi_header item) + length (oi_payload item)"

record ClientSession =
  se_handle :: SessionHandle
  se_socket :: "nat option"
  se_state :: SessionState
  se_transport :: TransportKind
  se_disconnect_started :: bool
  se_raw_decoder :: LengthPrefixedAccumulator
  se_websocket_decoder :: WebSocketDecoder
  se_detection_buffer :: "byte list"
  se_inbound_accounted :: size_t
  se_malformed_messages :: u32
  se_connected_at_ms :: int
  se_last_activity_ms :: int
  se_last_pong_ms :: int
  se_close_started_ms :: int
  se_awaiting_pong :: bool
  se_rate_window_ms :: int
  se_rate_window_messages :: size_t
  se_send_queue :: "OutboundItem list"
  se_queued_bytes :: size_t
  se_write_active :: bool

definition new_session :: "SessionHandle \<Rightarrow> nat \<Rightarrow> ServerConfig \<Rightarrow> int \<Rightarrow> ClientSession" where
  "new_session handle socket config now =
    \<lparr>se_handle = handle, se_socket = Some socket, se_state = Connecting, se_transport = Detecting,
     se_disconnect_started = False,
     se_raw_decoder = lpa_new (cfg_max_message_bytes config) (cfg_max_session_inbound_bytes config),
     se_websocket_decoder = ws_new (cfg_max_message_bytes config) (cfg_max_session_inbound_bytes config) True,
     se_detection_buffer = [], se_inbound_accounted = 0, se_malformed_messages = 0,
     se_connected_at_ms = now, se_last_activity_ms = now, se_last_pong_ms = now, se_close_started_ms = 0,
     se_awaiting_pong = False, se_rate_window_ms = now, se_rate_window_messages = 0,
     se_send_queue = [], se_queued_bytes = 0, se_write_active = False\<rparr>"

record WriteOperation =
  wo_session :: nat
  wo_cursor :: SendCursor
  wo_close_after :: bool

text \<open>An \<open>AcceptOperation\<close> is its socket and lives in a slot of the accept pool; a
  \<open>ReadOperation\<close> is its session, since its buffer is overwritten by every read.\<close>

datatype fault = Uncaught cpp_exception | NullPointer | OutOfFuel

record 'app Server =
  srv_config :: ServerConfig
  srv_sessions :: "nat registry"
  srv_store :: "ClientSession list"
  srv_metrics :: ServerMetrics
  srv_running :: bool
  srv_stopping :: bool
  srv_initialized :: bool
  srv_winsock_started :: bool
  srv_completion_port :: bool
  srv_listen_socket :: "nat option"
  srv_accept_pool :: "nat option TypedObjectPool option"
  srv_next_session_id :: u64
  srv_next_generation :: u64
  srv_outstanding :: size_t
  srv_reads :: "nat option list"
  srv_writes :: "WriteOperation option list"
  srv_open_sockets :: "nat list"
  srv_next_socket :: nat
  srv_oracle :: "nat \<Rightarrow> bool"
  srv_clock :: "nat \<Rightarrow> int"
  srv_ticks :: nat
  srv_app :: 'app
  srv_fault :: "fault option"
  srv_accepted_log :: "(nat \<times> byte list) list"
  srv_wire_log :: "(nat \<times> byte list) list"

subsection \<open>Access\<close>

definition sess :: "nat \<Rightarrow> 'app Server \<Rightarrow> ClientSession" where
  "sess p s = srv_store s ! p"

definition set_sess :: "nat \<Rightarrow> (ClientSession \<Rightarrow> ClientSession) \<Rightarrow> 'app Server \<Rightarrow> 'app Server" where
  "set_sess p f s = s\<lparr>srv_store := (srv_store s)[p := f (srv_store s ! p)]\<rparr>"

definition count :: "(ServerMetrics \<Rightarrow> ServerMetrics) \<Rightarrow> 'app Server \<Rightarrow> 'app Server" where
  "count f s = s\<lparr>srv_metrics := f (srv_metrics s)\<rparr>"

definition fail :: "fault \<Rightarrow> 'app Server \<Rightarrow> 'app Server" where
  "fail e s = s\<lparr>srv_fault := Some e\<rparr>"

definition draw :: "'app Server \<Rightarrow> bool \<times> 'app Server" where
  "draw s = (srv_oracle s (srv_ticks s), s\<lparr>srv_ticks := Suc (srv_ticks s)\<rparr>)"

definition MonotonicMilliseconds :: "'app Server \<Rightarrow> int \<times> 'app Server" where
  "MonotonicMilliseconds s = (srv_clock s (srv_ticks s), s\<lparr>srv_ticks := Suc (srv_ticks s)\<rparr>)"

definition TrackOperation :: "'app Server \<Rightarrow> 'app Server" where
  "TrackOperation s = s\<lparr>srv_outstanding := srv_outstanding s + 1\<rparr>"

definition CompleteOperation :: "'app Server \<Rightarrow> 'app Server" where
  "CompleteOperation s = s\<lparr>srv_outstanding := srv_outstanding s - 1\<rparr>"

text \<open>The handle of the session a registry entry points to.\<close>

definition deref :: "'app Server \<Rightarrow> nat \<Rightarrow> SessionHandle" where
  "deref s p = se_handle (sess p s)"

definition FindSession :: "SessionHandle \<Rightarrow> 'app Server \<Rightarrow> nat option" where
  "FindSession h s = sr_Find (deref s) h (srv_sessions s)"

subsection \<open>Disconnect\<close>

text \<open>\<open>UpdateInboundAccounting(session, 0)\<close>: the first branch of that function is never taken with
  zero bytes, so no further \<open>Disconnect\<close> follows.\<close>

definition ReleaseInbound :: "nat \<Rightarrow> 'app Server \<Rightarrow> 'app Server" where
  "ReleaseInbound p s =
    (let accounted = se_inbound_accounted (sess p s)
     in if 0 < accounted
        then set_sess p (\<lambda>c. c\<lparr>se_inbound_accounted := 0\<rparr>)
               (count (\<lambda>m. m\<lparr>m_inbound_bytes := m_inbound_bytes m - accounted\<rparr>) s)
        else s)"

text \<open>The queued items are dropped one by one, each with its bytes.\<close>

definition DropQueue :: "nat \<Rightarrow> 'app Server \<Rightarrow> 'app Server" where
  "DropQueue p s =
    (let s1 = fold (\<lambda>item s.
           set_sess p (\<lambda>c. c\<lparr>se_queued_bytes := se_queued_bytes c - of_nat (item_bytes item)\<rparr>)
             (count (\<lambda>m. m\<lparr>m_queued_bytes := m_queued_bytes m - of_nat (item_bytes item)\<rparr>) s))
         (se_send_queue (sess p s)) s
     in set_sess p (\<lambda>c. c\<lparr>se_send_queue := []\<rparr>) s1)"

definition CloseSocket :: "nat \<Rightarrow> 'app Server \<Rightarrow> 'app Server" where
  "CloseSocket p s =
    (case se_socket (sess p s) of
       None \<Rightarrow> s
     | Some socket \<Rightarrow>
         (set_sess p (\<lambda>c. c\<lparr>se_socket := None\<rparr>) s)
           \<lparr>srv_open_sockets := removeAll socket (srv_open_sockets s)\<rparr>)"

type_synonym 'app session_handler = "(SessionHandle \<Rightarrow> 'app \<Rightarrow> 'app) option"

definition InvokeSession :: "'app session_handler \<Rightarrow> SessionHandle \<Rightarrow> 'app Server \<Rightarrow> 'app Server" where
  "InvokeSession callback h s =
    (case callback of None \<Rightarrow> s | Some f \<Rightarrow> s\<lparr>srv_app := f h (srv_app s)\<rparr>)"

definition Disconnect :: "'app session_handler \<Rightarrow> nat \<Rightarrow> 'app Server \<Rightarrow> 'app Server" where
  "Disconnect on_disconnect p s =
    (if se_disconnect_started (sess p s) then s
     else
       let h = se_handle (sess p s);
           s1 = set_sess p (\<lambda>c. c\<lparr>se_disconnect_started := True, se_state := ClosedState\<rparr>) s;
           s2 = s1\<lparr>srv_sessions := sr_Remove (deref s1) h (srv_sessions s1)\<rparr>;
           s3 = CloseSocket p s2;
           s4 = DropQueue p s3;
           s5 = ReleaseInbound p s4;
           s6 = count (\<lambda>m. m\<lparr>m_active_connections := m_active_connections m - 1\<rparr>) s5
       in InvokeSession on_disconnect h s6)"

end
