(* ===== verification/Server_Write.thy ===== *)
theory Server_Write
  imports Server_State
begin

text \<open>
  The write path of \<open>IocpServer::Impl\<close> (\<open>src/core/iocp_server.cpp\<close>): queueing under the
  session and the global byte limits, one overlapped write at a time per session, partial sends,
  control frames, and the public \<open>Send\<close> and \<open>Close\<close>. \<open>od\<close> is the registered disconnect
  handler; \<open>a\<close> is the address of a write operation and \<open>p\<close> a session pointer.
\<close>

subsection \<open>Queue limits\<close>

text \<open>The compare-and-swap loop of \<open>ReserveGlobalQueued\<close> ends with the value it last read.\<close>

definition ReserveGlobalQueued :: "nat \<Rightarrow> 'app Server \<Rightarrow> bool \<times> 'app Server" where
  "ReserveGlobalQueued bytes s =
    (let current = unat (m_queued_bytes (srv_metrics s));
         limit = unat (cfg_max_global_queued_bytes (srv_config s))
     in if bytes > limit \<or> current > limit - bytes then (False, s)
        else (True, count (\<lambda>m. m\<lparr>m_queued_bytes := m_queued_bytes m + of_nat bytes\<rparr>) s))"

definition ReleaseGlobalQueued :: "nat \<Rightarrow> 'app Server \<Rightarrow> 'app Server" where
  "ReleaseGlobalQueued bytes s = count (\<lambda>m. m\<lparr>m_queued_bytes := m_queued_bytes m - of_nat bytes\<rparr>) s"

definition send_failure :: "'app Server \<Rightarrow> 'app Server" where
  "send_failure s = count (\<lambda>m. m\<lparr>m_send_failures := m_send_failures m + 1\<rparr>) s"

subsection \<open>Writing\<close>

text \<open>The two buffers handed to \<open>WSASend\<close>, one after the other.\<close>

definition write_buffers :: "WriteOperation \<Rightarrow> byte list" where
  "write_buffers w = sc_HeaderRemainder (wo_cursor w) @ sc_PayloadRemainder (wo_cursor w)"

definition PostWrite :: "nat \<Rightarrow> 'app Server \<Rightarrow> bool \<times> 'app Server" where
  "PostWrite a s =
    (case srv_writes s ! a of
       None \<Rightarrow> (False, s)
     | Some w \<Rightarrow>
         (case se_socket (sess (wo_session w) s) of None \<Rightarrow> (False, s) | Some socket \<Rightarrow> draw s))"

text \<open>The first half of \<open>FinishWrite\<close>: the bytes are released and the operation is deleted.\<close>

definition SettleWrite :: "nat \<Rightarrow> bool \<Rightarrow> 'app Server \<Rightarrow> 'app Server" where
  "SettleWrite a succeeded s =
    (case srv_writes s ! a of
       None \<Rightarrow> s
     | Some w \<Rightarrow>
         let bytes = sc_TotalSize (wo_cursor w);
             s1 = set_sess (wo_session w) (\<lambda>c. c\<lparr>se_queued_bytes :=
                    (if bytes > unat (se_queued_bytes c) then 0 else se_queued_bytes c - of_nat bytes)\<rparr>) s;
             s2 = ReleaseGlobalQueued bytes s1;
             s3 = (if succeeded then count (\<lambda>m. m\<lparr>m_sent_messages := m_sent_messages m + 1\<rparr>) s2
                   else send_failure s2)
         in CompleteOperation (s3\<lparr>srv_writes := (srv_writes s3)[a := None]\<rparr>))"

text \<open>\<open>StartNextWrite\<close>. When the write cannot be posted it calls \<open>FinishWrite(operation, false)\<close>,
  which settles the operation and disconnects; it is written out because the two functions call each
  other.\<close>

definition StartNextWrite :: "'app session_handler \<Rightarrow> nat \<Rightarrow> 'app Server \<Rightarrow> 'app Server" where
  "StartNextWrite od p s =
    (case se_send_queue (sess p s) of
       [] \<Rightarrow> set_sess p (\<lambda>c. c\<lparr>se_write_active := False\<rparr>) s
     | item # rest \<Rightarrow>
         (case draw (set_sess p (\<lambda>c. c\<lparr>se_send_queue := rest\<rparr>) s) of (allocated, s2) \<Rightarrow>
            if \<not> allocated then
              let s3 = set_sess p (\<lambda>c. c\<lparr>se_queued_bytes := se_queued_bytes c - of_nat (item_bytes item)\<rparr>) s2
              in Disconnect od p (send_failure (ReleaseGlobalQueued (item_bytes item) s3))
            else
              (case sc_new (oi_header item) (Some (oi_payload item)) of
                 Inl e \<Rightarrow> fail (Uncaught e) s2
               | Inr cur \<Rightarrow>
                   let a = length (srv_writes s2);
                       w = \<lparr>wo_session = p, wo_cursor = cur, wo_close_after = oi_close_after item\<rparr>
                   in case PostWrite a (TrackOperation (s2\<lparr>srv_writes := srv_writes s2 @ [Some w]\<rparr>)) of
                        (True, s3) \<Rightarrow> s3
                      | (False, s3) \<Rightarrow> Disconnect od p (SettleWrite a False s3))))"

definition FinishWrite :: "'app session_handler \<Rightarrow> nat \<Rightarrow> bool \<Rightarrow> 'app Server \<Rightarrow> 'app Server" where
  "FinishWrite od a succeeded s =
    (case srv_writes s ! a of
       None \<Rightarrow> s
     | Some w \<Rightarrow>
         let s1 = SettleWrite a succeeded s
         in if \<not> succeeded \<or> wo_close_after w then Disconnect od (wo_session w) s1
            else StartNextWrite od (wo_session w) s1)"

definition HandleWrite :: "'app session_handler \<Rightarrow> nat \<Rightarrow> bool \<Rightarrow> nat \<Rightarrow> 'app Server \<Rightarrow> 'app Server" where
  "HandleWrite od a succeeded bytes_transferred s =
    (case srv_writes s ! a of
       None \<Rightarrow> s
     | Some w \<Rightarrow>
         if \<not> succeeded \<or> bytes_transferred = 0 then FinishWrite od a False s
         else
           let cur = sc_Consume bytes_transferred (wo_cursor w);
               s1 = s\<lparr>srv_writes := (srv_writes s)[a := Some (w\<lparr>wo_cursor := cur\<rparr>)],
                      srv_wire_log := srv_wire_log s @ [(wo_session w, take bytes_transferred (write_buffers w))]\<rparr>
           in if \<not> sc_Complete cur then
                (case PostWrite a s1 of (True, s2) \<Rightarrow> s2 | (False, s2) \<Rightarrow> FinishWrite od a False s2)
              else FinishWrite od a True s1)"

definition Enqueue :: "'app session_handler \<Rightarrow> nat \<Rightarrow> OutboundItem \<Rightarrow> 'app Server \<Rightarrow> bool \<times> 'app Server" where
  "Enqueue od p item s =
    (let bytes = item_bytes item;
         c = sess p s;
         limit = unat (cfg_max_session_queued_bytes (srv_config s))
     in if se_disconnect_started c then (False, s)
        else if bytes > limit \<or> unat (se_queued_bytes c) > limit - bytes then (False, send_failure s)
        else (case ReserveGlobalQueued bytes s of
            (False, s1) \<Rightarrow> (False, send_failure s1)
          | (True, s1) \<Rightarrow>
              let s2 = set_sess p (\<lambda>c. c\<lparr>se_queued_bytes := se_queued_bytes c + of_nat bytes,
                      se_send_queue := se_send_queue c @ [item], se_write_active := True\<rparr>) s1;
                  s3 = s2\<lparr>srv_accepted_log := srv_accepted_log s2 @ [(p, item_wire item)]\<rparr>
              in (True, if se_write_active c then s3 else StartNextWrite od p s3)))"

subsection \<open>Control frames and raw responses\<close>

text \<open>\<open>WebSocketHeader\<close> copies the compact header into the 16-byte array of an item.\<close>

definition WebSocketHeader :: "WsOpcode \<Rightarrow> nat \<Rightarrow> byte list \<times> nat" where
  "WebSocketHeader opcode payload_size =
    (case BuildFrameHeader opcode (of_nat payload_size) of (short_header, temporary_size) \<Rightarrow>
       (take temporary_size short_header @ replicate (16 - temporary_size) 0, temporary_size))"

definition websocket_item :: "WsOpcode \<Rightarrow> byte list \<Rightarrow> bool \<Rightarrow> OutboundItem" where
  "websocket_item opcode payload close_after =
    (case WebSocketHeader opcode (length payload) of (header, header_size) \<Rightarrow>
       \<lparr>oi_header = take header_size header, oi_payload = payload, oi_close_after = close_after\<rparr>)"

text \<open>The frame is queued; when that fails and the session should close, it is disconnected.\<close>

definition enqueue_or_close :: "'app session_handler \<Rightarrow> nat \<Rightarrow> OutboundItem \<Rightarrow> 'app Server \<Rightarrow> 'app Server" where
  "enqueue_or_close od p item s =
    (case Enqueue od p item s of (ok, s1) \<Rightarrow>
       if \<not> ok \<and> oi_close_after item then Disconnect od p s1 else s1)"

definition SendControl :: "'app session_handler \<Rightarrow> nat \<Rightarrow> WsOpcode \<Rightarrow> byte list \<Rightarrow> bool
    \<Rightarrow> 'app Server \<Rightarrow> 'app Server" where
  "SendControl od p opcode payload close_after s =
    (if close_after then
       if se_state (sess p s) = ClosedState \<or> se_state (sess p s) = Closing then s
       else
         (case MonotonicMilliseconds (set_sess p (\<lambda>c. c\<lparr>se_state := Closing\<rparr>) s) of (now, s1) \<Rightarrow>
            enqueue_or_close od p (websocket_item opcode payload True)
              (set_sess p (\<lambda>c. c\<lparr>se_close_started_ms := now\<rparr>) s1))
     else enqueue_or_close od p (websocket_item opcode payload False) s)"

definition SendRaw :: "'app session_handler \<Rightarrow> nat \<Rightarrow> string \<Rightarrow> bool \<Rightarrow> 'app Server \<Rightarrow> 'app Server" where
  "SendRaw od p response close_after s =
    enqueue_or_close od p
      \<lparr>oi_header = [], oi_payload = bytes_of_string response, oi_close_after = close_after\<rparr> s"

subsection \<open>The public operations\<close>

definition ServerSend :: "'app session_handler \<Rightarrow> SessionHandle \<Rightarrow> SharedBuffer \<Rightarrow> 'app Server \<Rightarrow> bool \<times> 'app Server" where
  "ServerSend od h payload s =
    (case FindSession h s of
       None \<Rightarrow> (False, s)
     | Some p \<Rightarrow>
         (case payload of
            None \<Rightarrow> (False, s)
          | Some b \<Rightarrow>
              if b = [] \<or> length b > unat (cfg_max_message_bytes (srv_config s)) \<or> se_state (sess p s) \<noteq> Open
              then (False, s)
              else (case se_transport (sess p s) of
                  RawTcp \<Rightarrow>
                    (case EncodeLength (length b) of
                       Inl e \<Rightarrow> (False, fail (Uncaught e) s)
                     | Inr header \<Rightarrow>
                         Enqueue od p \<lparr>oi_header = header, oi_payload = b, oi_close_after = False\<rparr> s)
                | WebSocket \<Rightarrow> Enqueue od p (websocket_item Binary b False) s
                | Detecting \<Rightarrow> (False, s))))"

definition ServerClose :: "'app session_handler \<Rightarrow> SessionHandle \<Rightarrow> u16 \<Rightarrow> string \<Rightarrow> 'app Server \<Rightarrow> 'app Server" where
  "ServerClose od h websocket_code reason s =
    (case FindSession h s of
       None \<Rightarrow> s
     | Some p \<Rightarrow>
         if se_transport (sess p s) \<noteq> WebSocket then Disconnect od p s
         else
           let reason1 = (if length reason > 123 then take 123 reason else reason);
               payload = [ucast (drop_bit 8 websocket_code AND 0xff), ucast (websocket_code AND 0xff)]
                           @ bytes_of_string reason1
           in SendControl od p Close payload True s)"

end
