(* ===== verification/Base64.thy ===== *)
theory Base64
  imports Prelude
begin

text \<open>
  Base64 in \<open>src/transport/websocket_transport.cpp\<close>: the encoder for the
  \<open>Sec-WebSocket-Accept\<close> digest, the digit values and the check of the client's
  \<open>Sec-WebSocket-Key\<close>.
\<close>

subsection \<open>The code\<close>

definition Base64Value :: "char \<Rightarrow> int" where
  "Base64Value c =
    (let v = (of_char c :: int)
     in if v \<ge> of_char (CHR ''A'') \<and> v \<le> of_char (CHR ''Z'') then v - of_char (CHR ''A'')
        else if v \<ge> of_char (CHR ''a'') \<and> v \<le> of_char (CHR ''z'') then v - of_char (CHR ''a'') + 26
        else if v \<ge> of_char (CHR ''0'') \<and> v \<le> of_char (CHR ''9'') then v - of_char (CHR ''0'') + 52
        else if c = CHR ''+'' then 62
        else if c = CHR ''/'' then 63
        else -1)"

text \<open>The loop of the key check: decoded bytes, pending bits, accumulator; \<open>None\<close> is
  \<open>return false\<close> inside the loop.\<close>

fun key_loop :: "string \<Rightarrow> nat \<Rightarrow> int \<Rightarrow> u32 \<Rightarrow> nat option" where
  "key_loop [] decoded bits accumulator = Some decoded"
| "key_loop (c # cs) decoded bits accumulator =
    (if c = CHR ''='' then Some decoded
     else let digit = Base64Value c
          in if digit < 0 then None
             else let accumulator' = push_bit 6 accumulator OR word_of_int digit;
                      bits' = bits + 6
                  in if bits' \<ge> 8 then key_loop cs (Suc decoded) (bits' - 8) accumulator'
                     else key_loop cs decoded bits' accumulator')"

definition IsValidWebSocketKey :: "string \<Rightarrow> bool" where
  "IsValidWebSocketKey key =
    (if length key \<noteq> 24 \<or> key ! 22 \<noteq> CHR ''='' \<or> key ! 23 \<noteq> CHR ''='' then False
     else case key_loop key 0 0 0 of None \<Rightarrow> False | Some decoded \<Rightarrow> decoded = 16)"

definition Alphabet :: string where
  "Alphabet = ''ABCDEFGHIJKLMNOPQRSTUVWXYZabcdefghijklmnopqrstuvwxyz0123456789+/''"

definition sextet :: "nat \<Rightarrow> u32 \<Rightarrow> char" where
  "sextet shift val = Alphabet ! unat (drop_bit shift val AND 0x3f)"

function Base64Encode :: "byte list \<Rightarrow> string" where
  "Base64Encode [] = []"
| "Base64Encode (a # rest) =
    (let v0 = push_bit 16 (ucast a) :: u32;
         v1 = (case rest of [] \<Rightarrow> v0 | b # _ \<Rightarrow> v0 OR push_bit 8 (ucast b));
         v2 = (case rest of b # c # _ \<Rightarrow> v1 OR ucast c | _ \<Rightarrow> v1)
     in [sextet 18 v2, sextet 12 v2,
         if 1 < length (a # rest) then sextet 6 v2 else CHR ''='',
         if 2 < length (a # rest) then sextet 0 v2 else CHR ''=''] @ Base64Encode (drop 2 rest))"
  by pat_completeness auto
termination
  by (relation "measure length") auto

subsection \<open>Digits\<close>

lemma Alphabet_digits: "list_all (\<lambda>d. Base64Value (Alphabet ! d) = int d \<and> Alphabet ! d \<noteq> CHR ''='') [0..<64]"
  by code_simp

lemma Base64Value_Alphabet: "d < 64 \<Longrightarrow> Base64Value (Alphabet ! d) = int d"
  and Alphabet_not_pad: "d < 64 \<Longrightarrow> Alphabet ! d \<noteq> CHR ''=''"
  using Alphabet_digits by (simp_all add: list_all_iff)

lemma Base64Value_range: "Base64Value c < 64"
  by (simp add: Base64Value_def Let_def)

lemma Base64Value_pad: "Base64Value (CHR ''='') = -1"
  by code_simp

text \<open>The three bytes of a group, and its four digits, as numbers.\<close>

definition group :: "nat \<Rightarrow> nat \<Rightarrow> nat \<Rightarrow> nat" where
  "group a b c = a * 65536 + b * 256 + c"

lemma sextet_nat: "n < 2 ^ 32 \<Longrightarrow> sextet k (of_nat n) = Alphabet ! (n div 2 ^ k mod 64)"
proof -
  assume n: "n < 2 ^ 32"
  have "(0x3f :: u32) = mask 6" by (simp add: mask_eq_exp_minus_1)
  then have "unat (drop_bit k (of_nat n :: u32) AND 0x3f) = unat (drop_bit k (of_nat n :: u32)) mod 64"
    using unat_and_mask [of "drop_bit k (of_nat n :: u32)" 6] by simp
  also have "unat (drop_bit k (of_nat n :: u32)) = n div 2 ^ k"
    using n by (simp only: unsigned_drop_bit_eq unat_of_nat) (simp add: drop_bit_eq_div take_bit_nat_eq_self)
  finally show ?thesis by (simp add: sextet_def)
qed

lemma group_less: "group (unat (a :: byte)) (unat (b :: byte)) (unat (c :: byte)) < 2 ^ 24"
proof -
  have "unat a \<le> 255" "unat b \<le> 255" "unat c \<le> 255"
    using unat_byte_less [of a] unat_byte_less [of b] unat_byte_less [of c] by linarith+
  then have "unat a * 65536 + unat b * 256 + unat c \<le> 255 * 65536 + 255 * 256 + 255"
    by (intro add_mono mult_right_mono) simp_all
  then show ?thesis unfolding group_def by simp
qed

lemma ucast_u32: "(ucast (b :: byte) :: u32) = of_nat (unat b)"
  by (rule of_nat_unat [symmetric])

lemma group_word2:
  "push_bit 16 (ucast (a :: byte)) OR push_bit 8 (ucast (b :: byte)) = (of_nat (group (unat a) (unat b) 0) :: u32)"
proof -
  have "push_bit 8 (ucast b :: u32) = of_nat (unat b * 256)"
    by (simp only: ucast_u32 push_bit_eq_mult) simp
  moreover have "unat b * 256 < 2 ^ 16" by (simp add: mult.commute)
  ultimately show ?thesis
    using push_bit_or_of_nat [of "unat b * 256" 16 "unat a", where 'a = 32]
    by (simp only: ucast_u32 group_def) simp
qed

lemma group_word3:
  "(push_bit 16 (ucast (a :: byte)) OR push_bit 8 (ucast (b :: byte))) OR ucast (c :: byte) =
     (of_nat (group (unat a) (unat b) (unat c)) :: u32)"
proof -
  have g: "group (unat a) (unat b) 0 = (unat a * 256 + unat b) * 256" by (simp add: group_def)
  have "of_nat (group (unat a) (unat b) 0) = (push_bit 8 (of_nat (unat a * 256 + unat b)) :: u32)"
    unfolding g by (simp add: push_bit_eq_mult)
  then have "(of_nat (group (unat a) (unat b) 0) :: u32) OR ucast c =
      of_nat ((unat a * 256 + unat b) * 2 ^ 8 + unat c)"
    using push_bit_or_of_nat [of "unat c" 8 "unat a * 256 + unat b", where 'a = 32]
    by (simp only: ucast_u32) simp
  moreover have "(unat a * 256 + unat b) * 2 ^ 8 + unat c = group (unat a) (unat b) (unat c)"
    by (simp add: group_def)
  moreover have "(push_bit 16 (ucast a) OR push_bit 8 (ucast b)) OR ucast c =
      (of_nat (group (unat a) (unat b) 0) :: u32) OR ucast c"
    by (simp only: group_word2)
  ultimately show ?thesis by (simp only:)
qed

definition digit :: "nat \<Rightarrow> nat \<Rightarrow> char" where
  "digit k g = Alphabet ! (g div 2 ^ k mod 64)"

lemma Base64Encode_1:
  "Base64Encode [a] = (let g = group (unat a) 0 0 in [digit 18 g, digit 12 g, CHR ''='', CHR ''=''])"
proof -
  have "push_bit 16 (ucast a :: u32) = of_nat (group (unat a) 0 0)"
    by (simp only: ucast_u32 push_bit_eq_mult group_def) simp
  moreover have "group (unat a) 0 0 < 2 ^ 32"
    using group_less [of a 0 0] by simp
  ultimately show ?thesis by (simp add: Let_def sextet_nat digit_def)
qed

lemma Base64Encode_2:
  "Base64Encode [a, b] =
     (let g = group (unat a) (unat b) 0 in [digit 18 g, digit 12 g, digit 6 g, CHR ''=''])"
proof -
  have "group (unat a) (unat b) 0 < 2 ^ 32"
    using group_less [of a b 0] by simp
  then show ?thesis by (simp add: Let_def group_word2 sextet_nat digit_def)
qed

lemma Base64Encode_3:
  "Base64Encode (a # b # c # rest) =
     (let g = group (unat a) (unat b) (unat c)
      in [digit 18 g, digit 12 g, digit 6 g, digit 0 g] @ Base64Encode rest)"
proof -
  have "group (unat a) (unat b) (unat c) < 2 ^ 32"
    using group_less [of a b c] by simp
  then show ?thesis by (simp add: Let_def group_word3 sextet_nat digit_def)
qed

lemmas Base64Encode_groups = Base64Encode_1 Base64Encode_2 Base64Encode_3

declare Base64Encode.simps(2) [simp del]

subsection \<open>Decoding\<close>

text \<open>A reference decoder (RFC 4648, section 4): four digits give three bytes, and only the last
  quantum may be padded.\<close>

definition digit_value :: "char \<Rightarrow> nat" where
  "digit_value c = nat (Base64Value c)"

definition quad :: "char \<Rightarrow> char \<Rightarrow> char \<Rightarrow> char \<Rightarrow> byte list" where
  "quad p q r s =
    (let g = ((digit_value p * 64 + digit_value q) * 64 + digit_value r) * 64 + digit_value s
     in [of_nat (g div 65536), of_nat (g div 256), of_nat g])"

definition is_digit :: "char \<Rightarrow> bool" where
  "is_digit c \<longleftrightarrow> Base64Value c \<ge> 0"

fun b64_decode :: "string \<Rightarrow> byte list option" where
  "b64_decode [] = Some []"
| "b64_decode (p # q # r # s # rest) =
    (if \<not> is_digit p \<or> \<not> is_digit q then None
     else if r = CHR ''='' \<and> s = CHR ''='' \<and> rest = [] then Some (take 1 (quad p q (CHR ''A'') (CHR ''A'')))
     else if \<not> is_digit r then None
     else if s = CHR ''='' \<and> rest = [] then Some (take 2 (quad p q r (CHR ''A'')))
     else if \<not> is_digit s then None
     else map_option (\<lambda>bs. quad p q r s @ bs) (b64_decode rest))"
| "b64_decode _ = None"

lemma digit_value_A [simp]: "digit_value (CHR ''A'') = 0"
  by code_simp

lemma digit_value_digit [simp]: "digit_value (digit k g) = g div 2 ^ k mod 64"
  by (simp add: digit_value_def digit_def Base64Value_Alphabet)

lemma is_digit_digit [simp]: "is_digit (digit k g)"
  by (simp add: is_digit_def digit_def Base64Value_Alphabet)

lemma digit_not_pad [simp]: "digit k g \<noteq> CHR ''=''"
  by (simp add: digit_def Alphabet_not_pad)

lemma sextets_join:
  fixes g :: nat
  assumes "g < 2 ^ 24"
  shows "((g div 2 ^ 18 mod 64 * 64 + g div 2 ^ 12 mod 64) * 64 + g div 2 ^ 6 mod 64) * 64 + g div 2 ^ 0 mod 64 = g"
proof -
  have "g div 2 ^ 12 = g div 2 ^ 18 * 64 + g div 2 ^ 12 mod 64"
    using div_mult_mod_eq [of "g div 4096" 64] by (simp add: div_mult2_eq [symmetric])
  moreover have "g div 2 ^ 6 = g div 2 ^ 12 * 64 + g div 2 ^ 6 mod 64"
    using div_mult_mod_eq [of "g div 64" 64] by (simp add: div_mult2_eq [symmetric])
  moreover have "g = g div 2 ^ 6 * 64 + g div 2 ^ 0 mod 64"
    using div_mult_mod_eq [of g 64] by simp
  moreover have "g div 2 ^ 18 mod 64 = g div 2 ^ 18"
    using assms by (simp add: less_mult_imp_div_less)
  ultimately show ?thesis by presburger
qed

lemma sextets_pad:
  fixes g :: nat
  shows "g mod 64 = 0 \<Longrightarrow> g div 2 ^ 0 mod 64 = 0"
    and "g mod 4096 = 0 \<Longrightarrow> g div 2 ^ 6 mod 64 = 0 \<and> g div 2 ^ 0 mod 64 = 0"
  by (auto simp: mod_eq_0_iff_dvd elim!: dvdE)

lemma of_nat_byte_mod: "(of_nat (n mod 256) :: byte) = of_nat n"
  by (simp add: word_unat_eq_iff unat_of_nat)

lemma group_bytes:
  "(of_nat (group (unat a) (unat b) (unat c) div 65536) :: byte) = a"
  "(of_nat (group (unat a) (unat b) (unat c) div 256) :: byte) = b"
  "(of_nat (group (unat a) (unat b) (unat c)) :: byte) = c"
  for a b c :: byte
proof -
  have c: "unat c < 256" and b: "unat b < 256" by simp_all
  have "group (unat a) (unat b) (unat c) = unat c + 256 * (unat b + 256 * unat a)"
    by (simp add: group_def)
  then have 1: "group (unat a) (unat b) (unat c) div 256 = unat b + 256 * unat a"
    and 2: "group (unat a) (unat b) (unat c) mod 256 = unat c"
    using div_mult_self1 [of 256 "unat c"] mod_mult_self1 [of "unat c" _ 256] c
    by (simp_all only: mult.commute [of 256] add.commute div_less mod_less)
  from 2 show "(of_nat (group (unat a) (unat b) (unat c)) :: byte) = c"
    using of_nat_byte_mod [of "group (unat a) (unat b) (unat c)"] by simp
  from 1 show "(of_nat (group (unat a) (unat b) (unat c) div 256) :: byte) = b"
    using of_nat_byte_mod [of "unat b + 256 * unat a"] b by simp
  have "group (unat a) (unat b) (unat c) div 65536 = group (unat a) (unat b) (unat c) div 256 div 256"
    by (simp add: div_mult2_eq [symmetric])
  then show "(of_nat (group (unat a) (unat b) (unat c) div 65536) :: byte) = a"
    using b by (simp add: 1)
qed

lemma quad_digits:
  assumes "g = group (unat a) (unat b) (unat c)"
  shows "quad (digit 18 g) (digit 12 g) (digit 6 g) (digit 0 g) = [a, b, c]"
proof -
  have "g < 2 ^ 24" using group_less assms by blast
  from sextets_join [OF this] show ?thesis
    unfolding quad_def digit_value_digit Let_def assms by (simp only: group_bytes)
qed

lemma digit_zero: "g div 2 ^ k mod 64 = 0 \<Longrightarrow> digit k g = CHR ''A''"
  unfolding digit_def by (simp add: Alphabet_def)

lemma quad_digits_2:
  assumes "g = group (unat a) (unat b) 0"
  shows "quad (digit 18 g) (digit 12 g) (digit 6 g) (CHR ''A'') = [a, b, 0]"
proof -
  have "g mod 64 = 0" unfolding assms group_def by presburger
  then have "digit 0 g = CHR ''A''" by (intro digit_zero sextets_pad)
  moreover have "quad (digit 18 g) (digit 12 g) (digit 6 g) (digit 0 g) = [a, b, 0]"
    by (rule quad_digits) (simp add: assms)
  ultimately show ?thesis by (simp only:)
qed

lemma quad_digits_1:
  assumes "g = group (unat a) 0 0"
  shows "quad (digit 18 g) (digit 12 g) (CHR ''A'') (CHR ''A'') = [a, 0, 0]"
proof -
  have "g mod 4096 = 0" unfolding assms group_def by simp
  from sextets_pad(2) [OF this] have "digit 6 g = CHR ''A''" "digit 0 g = CHR ''A''"
    by (auto intro: digit_zero)
  moreover have "quad (digit 18 g) (digit 12 g) (digit 6 g) (digit 0 g) = [a, 0, 0]"
    by (rule quad_digits) (simp add: assms)
  ultimately show ?thesis by (simp only:)
qed

lemma Base64Encode_correct:
  "b64_decode (Base64Encode bs) = Some bs \<and> length (Base64Encode bs) = 4 * ((length bs + 2) div 3)"
proof (induction bs rule: length_induct)
  case (1 bs)
  consider "bs = []" | a where "bs = [a]" | a b where "bs = [a, b]"
    | a b c rest where "bs = a # b # c # rest"
    by (metis list.exhaust)
  then show ?case
  proof cases
    case 4
    with 1 have "b64_decode (Base64Encode rest) = Some rest"
      and "length (Base64Encode rest) = 4 * ((length rest + 2) div 3)" by simp_all
    moreover have "(5 + length rest) div 3 = Suc ((length rest + 2) div 3)" by presburger
    ultimately show ?thesis using 4 by (simp add: Base64Encode_3 Let_def quad_digits)
  qed (simp_all add: Base64Encode_1 Base64Encode_2 Let_def quad_digits_1 quad_digits_2)
qed

lemmas b64_decode_encode = conjunct1 [OF Base64Encode_correct]
  and length_Base64Encode = conjunct2 [OF Base64Encode_correct]

text \<open>Base64 encoding loses nothing: for every byte string, the standard decoder applied to
  \<open>WebSocketTransport::Base64Encode\<close> gives the bytes back; the text is
  \<open>4 * ((size + 2) / 3)\<close> characters long, the capacity the code reserves.\<close>

lemma Base64Encode_roundtrip:
  "b64_decode (Base64Encode bs) = Some bs \<and> length (Base64Encode bs) = 4 * ((length bs + 2) div 3)"
  by (simp add: b64_decode_encode length_Base64Encode)

subsection \<open>The client's key\<close>

lemma key_loop_digits:
  assumes "list_all is_digit cs" and "0 \<le> bits" and "bits < 8" and "rest = [] \<or> hd rest = CHR ''=''"
  shows "key_loop (cs @ rest) decoded bits acc = Some (decoded + (nat bits + 6 * length cs) div 8)"
  using assms(1-3)
proof (induction cs arbitrary: decoded bits acc)
  case Nil
  then show ?case using assms(4) by (cases rest) auto
next
  case (Cons c cs)
  have c: "c \<noteq> CHR ''=''" "\<not> Base64Value c < 0"
    using Cons.prems Base64Value_pad by (auto simp: is_digit_def)
  show ?case
  proof (cases "bits + 6 \<ge> 8")
    case True
    have "(nat (bits - 2) + 6 * length cs) div 8 + 1 = (nat bits + 6 * Suc (length cs)) div 8"
    proof -
      from True have "nat bits = nat (bits - 2) + 2" by simp
      then show ?thesis by simp
    qed
    with True c Cons.IH [of "bits + 6 - 8"] Cons.prems show ?thesis by (simp add: Let_def)
  next
    case False
    have "nat (bits + 6) + 6 * length cs = nat bits + 6 * Suc (length cs)"
      using Cons.prems by (simp add: nat_add_distrib)
    with False c Cons.IH [of "bits + 6"] Cons.prems show ?thesis by (simp add: Let_def)
  qed
qed

lemma key_loop_bad:
  assumes "list_all is_digit cs" and "\<not> is_digit c" and "c \<noteq> CHR ''=''"
  shows "key_loop (cs @ c # rest) decoded bits acc = None"
  using assms(1)
proof (induction cs arbitrary: decoded bits acc)
  case Nil
  then show ?case using assms(2,3) by (simp add: is_digit_def Let_def)
next
  case (Cons d cs)
  moreover have "d \<noteq> CHR ''=''" "\<not> Base64Value d < 0"
    using Cons.prems Base64Value_pad by (auto simp: is_digit_def)
  ultimately show ?case by (simp add: Let_def)
qed

lemma is_digit_pad [simp]: "\<not> is_digit (CHR ''='')"
  by (simp add: is_digit_def Base64Value_pad)

lemma key_loop_iff:
  assumes "rest = [] \<or> hd rest = CHR ''=''" and "CHR ''='' \<notin> set cs"
  shows "key_loop (cs @ rest) 0 0 0 = (if list_all is_digit cs then Some (6 * length cs div 8) else None)"
proof (cases "list_all is_digit cs")
  case True
  then show ?thesis using key_loop_digits [OF True, of 0 rest 0 0] assms(1) by simp
next
  case False
  then obtain c where "c \<in> set cs" and "\<not> is_digit c" by (auto simp: list_all_iff)
  then obtain ys d zs where "cs = ys @ d # zs" and "\<not> is_digit d" and "list_all is_digit ys"
    using split_list_first_prop [of cs "\<lambda>c. \<not> is_digit c"] by (auto simp: list_all_iff)
  then show ?thesis using assms(2) key_loop_bad [of ys d "zs @ rest"] False by auto
qed

lemma key_loop_short: "key_loop cs decoded bits acc = Some n \<Longrightarrow> 0 \<le> bits \<Longrightarrow> bits < 8 \<Longrightarrow>
    n \<le> decoded + (nat bits + 6 * length (takeWhile (\<lambda>c. c \<noteq> CHR ''='') cs)) div 8"
proof (cases "list_all is_digit (takeWhile (\<lambda>c. c \<noteq> CHR ''='') cs)")
  case True
  assume a: "key_loop cs decoded bits acc = Some n" and b: "0 \<le> bits" "bits < 8"
  let ?rest = "dropWhile (\<lambda>c. c \<noteq> CHR ''='') cs"
  have "?rest = [] \<or> hd ?rest = CHR ''=''"
    using hd_dropWhile [of "\<lambda>c. c \<noteq> CHR ''=''" cs] by auto
  from key_loop_digits [OF True b this, of decoded acc] a show ?thesis by simp
next
  case False
  assume a: "key_loop cs decoded bits acc = Some n"
  let ?t = "takeWhile (\<lambda>c. c \<noteq> CHR ''='') cs" and ?rest = "dropWhile (\<lambda>c. c \<noteq> CHR ''='') cs"
  from False have "\<exists>c\<in>set ?t. \<not> is_digit c" by (auto simp: list_all_iff)
  then obtain ys d zs where t: "?t = ys @ d # zs" "\<not> is_digit d" "list_all is_digit ys"
    using split_list_first_prop [of ?t "\<lambda>c. \<not> is_digit c"] by (auto simp: list_all_iff)
  then have "d \<noteq> CHR ''=''" using set_takeWhileD [of d "\<lambda>c. c \<noteq> CHR ''=''" cs] by auto
  with t have "key_loop ((ys @ d # zs) @ ?rest) decoded bits acc = None"
    using key_loop_bad [of ys d "zs @ ?rest"] by simp
  then show ?thesis using a t(1) takeWhile_dropWhile_id [of "\<lambda>c. c \<noteq> CHR ''=''" cs] by simp
qed

lemma key_shape:
  "IsValidWebSocketKey key \<longleftrightarrow> (\<exists>body. length body = 22 \<and> list_all is_digit body \<and> key = body @ ''=='')"
proof
  assume valid: "IsValidWebSocketKey key"
  then have len: "length key = 24" and pads: "key ! 22 = CHR ''=''" "key ! 23 = CHR ''=''"
    and "\<exists>n. key_loop key 0 0 0 = Some n \<and> n = 16"
    by (auto simp: IsValidWebSocketKey_def split: if_splits option.splits)
  then have loop: "key_loop key 0 0 0 = Some 16" by simp
  let ?t = "takeWhile (\<lambda>c. c \<noteq> CHR ''='') key"
  have long: "22 \<le> length ?t"
    using key_loop_short [OF loop] by simp
  have split: "key = take 22 key @ ''==''"
  proof -
    have "drop 22 key = [key ! 22, key ! 23]"
      using len by (simp add: Cons_nth_drop_Suc [symmetric])
    then show ?thesis using pads append_take_drop_id [of 22 key] by simp
  qed
  have "take 22 key = take 22 ?t"
    using long takeWhile_dropWhile_id [of "\<lambda>c. c \<noteq> CHR ''=''" key]
    by (metis take_append_prefix take_append diff_is_0_eq take_0 append_Nil2)
  then have "CHR ''='' \<notin> set (take 22 key)"
    by (auto dest: in_set_takeD set_takeWhileD)
  from key_loop_iff [OF _ this, of "''==''"] loop split
  have "list_all is_digit (take 22 key)" by (auto split: if_splits)
  moreover have "length (take 22 key) = 22" using len by simp
  ultimately show "\<exists>body. length body = 22 \<and> list_all is_digit body \<and> key = body @ ''==''"
    using split by blast
next
  assume "\<exists>body. length body = 22 \<and> list_all is_digit body \<and> key = body @ ''==''"
  then obtain body where b: "length body = 22" "list_all is_digit body" "key = body @ ''==''" by blast
  moreover have "CHR ''='' \<notin> set body" using b(2) is_digit_pad by (auto simp: list_all_iff)
  ultimately show "IsValidWebSocketKey key"
    using key_loop_iff [of "''==''" body] by (simp add: IsValidWebSocketKey_def nth_append)
qed

lemma length_quad [simp]: "length (quad p q r s) = 3"
  by (simp add: quad_def Let_def)

lemma b64_decode_padded:
  "b64_decode cs = Some bs \<Longrightarrow> length bs = 3 * k + 1 \<Longrightarrow>
     \<exists>body. length body = 4 * k + 2 \<and> list_all is_digit body \<and> cs = body @ ''==''"
proof (induction cs arbitrary: bs k rule: b64_decode.induct)
  case (2 p q r s rest)
  show ?case
  proof (cases "r = CHR ''='' \<and> s = CHR ''='' \<and> rest = []")
    case True
    with 2 have "k = 0" "is_digit p" "is_digit q" by (auto split: if_splits)
    then show ?thesis using True by (intro exI [of _ "[p, q]"]) simp
  next
    case False
    have "\<not> (s = CHR ''='' \<and> rest = [])"
    proof
      assume "s = CHR ''='' \<and> rest = []"
      with 2(2) False have "length bs = 2" by (auto split: if_splits)
      with 2(3) show False by presburger
    qed
    with 2(2) False obtain bs' where d: "is_digit p" "is_digit q" "is_digit r" "is_digit s"
      and rest: "b64_decode rest = Some bs'" "bs = quad p q r s @ bs'"
      by (auto split: if_splits)
    then obtain k' where "k = Suc k'" using 2(3) by (cases k) auto
    then have "length bs' = 3 * k' + 1" using rest 2(3) by simp
    then obtain body where "length body = 4 * k' + 2" "list_all is_digit body" "rest = body @ ''==''"
      using 2(1) d rest False \<open>\<not> (s = CHR ''='' \<and> rest = [])\<close> by blast
    then show ?thesis using d \<open>k = Suc k'\<close> by (intro exI [of _ "p # q # r # s # body"]) simp
  qed
qed simp_all

lemma b64_decode_pad:
  "length body = 4 * k + 2 \<Longrightarrow> list_all is_digit body \<Longrightarrow>
     \<exists>bs. b64_decode (body @ ''=='') = Some bs \<and> length bs = 3 * k + 1"
proof (induction k arbitrary: body)
  case 0
  then obtain p q where "body = [p, q]" by (auto simp: length_Suc_conv numeral_2_eq_2)
  then show ?case using 0 by simp
next
  case (Suc k)
  then have "length body = Suc (Suc (Suc (Suc (4 * k + 2))))" by simp
  then obtain p q r s body' where b: "body = p # q # r # s # body'" "length body' = 4 * k + 2"
    unfolding length_Suc_conv by blast
  with Suc obtain bs where "b64_decode (body' @ ''=='') = Some bs" "length bs = 3 * k + 1" by auto
  then show ?case using b Suc.prems is_digit_pad by auto
qed


end
