(* ===== verification/Sha1.thy ===== *)
theory Sha1
  imports Base64
begin

text \<open>
  The SHA-1 digest of \<open>src/transport/websocket_transport.cpp\<close> and the
  \<open>Sec-WebSocket-Accept\<close> value computed from it, with the standard's description of the
  algorithm (FIPS 180-4) as the specification.
\<close>

subsection \<open>The code\<close>

definition RotateLeft :: "u32 \<Rightarrow> nat \<Rightarrow> u32" where
  "RotateLeft v count = push_bit count v OR drop_bit (32 - count) v"

text \<open>\<open>while (padded_size % 64 != 56) ++padded_size;\<close>\<close>

function pad_loop :: "nat \<Rightarrow> nat" where
  "pad_loop padded_size = (if padded_size mod 64 = 56 then padded_size else pad_loop (Suc padded_size))"
  by pat_completeness auto
termination
proof (relation "measure (\<lambda>n. (56 + 64 - n mod 64) mod 64)")
  fix n :: nat
  assume "n mod 64 \<noteq> 56"
  moreover have "Suc n mod 64 = (if n mod 64 = 63 then 0 else Suc (n mod 64))"
    by (simp add: mod_Suc)
  moreover have "n mod 64 < 64" by simp
  ultimately show "(Suc n, n) \<in> measure (\<lambda>n. (56 + 64 - n mod 64) mod 64)"
    by (cases "n mod 64 < 56") (auto simp: le_mod_geq)
qed simp

declare pad_loop.simps [simp del]

text \<open>The padded message: the zero-initialised vector with the data copied to its front, the byte
  \<open>0x80\<close> after it and the bit length stored byte by byte from the end.\<close>

definition sha1_padded :: "byte list \<Rightarrow> byte list" where
  "sha1_padded data =
    (let bit_length = of_nat (length data) * 8 :: u64;
         padded_size = pad_loop (length data + 1) + 8;
         padded = data @ replicate (padded_size - length data) 0;
         padded' = padded[length data := 0x80]
     in fold (\<lambda>index p. p[padded_size - 1 - index := ucast (drop_bit (index * 8) bit_length)]) [0..<8] padded')"

definition sha1_word :: "byte list \<Rightarrow> nat \<Rightarrow> u32" where
  "sha1_word padded base =
    push_bit 24 (ucast (padded ! base)) OR push_bit 16 (ucast (padded ! (base + 1))) OR
    push_bit 8 (ucast (padded ! (base + 2))) OR ucast (padded ! (base + 3))"

definition sha1_words :: "byte list \<Rightarrow> nat \<Rightarrow> u32 list" where
  "sha1_words padded offset =
    (let words = fold (\<lambda>index w. w[index := sha1_word padded (offset + index * 4)]) [0..<16] (replicate 80 0)
     in fold (\<lambda>index w. w[index := RotateLeft (w ! (index - 3) XOR w ! (index - 8)
          XOR w ! (index - 14) XOR w ! (index - 16)) 1]) [16..<80] words)"

type_synonym sha1_state = "u32 \<times> u32 \<times> u32 \<times> u32 \<times> u32"

definition sha1_round :: "u32 list \<Rightarrow> nat \<Rightarrow> sha1_state \<Rightarrow> sha1_state" where
  "sha1_round words index = (\<lambda>(a, b, c, d, e).
    let (f, k) = (if index < 20 then ((b AND c) OR (NOT b AND d), 0x5a827999)
                  else if index < 40 then (b XOR c XOR d, 0x6ed9eba1)
                  else if index < 60 then ((b AND c) OR (b AND d) OR (c AND d), 0x8f1bbcdc)
                  else (b XOR c XOR d, 0xca62c1d6));
        temporary = RotateLeft a 5 + f + e + k + words ! index
    in (temporary, a, RotateLeft b 30, c, d))"

definition sha1_block :: "byte list \<Rightarrow> nat \<Rightarrow> sha1_state \<Rightarrow> sha1_state" where
  "sha1_block padded offset = (\<lambda>(h0, h1, h2, h3, h4).
    let words = sha1_words padded offset;
        (a, b, c, d, e) = fold (sha1_round words) [0..<80] (h0, h1, h2, h3, h4)
    in (h0 + a, h1 + b, h2 + c, h3 + d, h4 + e))"

function sha1_blocks :: "byte list \<Rightarrow> nat \<Rightarrow> sha1_state \<Rightarrow> sha1_state" where
  "sha1_blocks padded offset h =
    (if offset < length padded then sha1_blocks padded (offset + 64) (sha1_block padded offset h) else h)"
  by pat_completeness auto
termination
  by (relation "measure (\<lambda>(p, n, _). length p - n)") auto

declare sha1_blocks.simps [simp del]

definition store_be32 :: "u32 \<Rightarrow> byte list" where
  "store_be32 v = [ucast (drop_bit 24 v), ucast (drop_bit 16 v), ucast (drop_bit 8 v), ucast v]"

definition Sha1 :: "byte list \<Rightarrow> byte list" where
  "Sha1 data =
    (case sha1_blocks (sha1_padded data) 0
        (0x67452301, 0xefcdab89, 0x98badcfe, 0x10325476, 0xc3d2e1f0) of
      (h0, h1, h2, h3, h4) \<Rightarrow> concat (map store_be32 [h0, h1, h2, h3, h4]))"

definition Guid :: string where
  "Guid = ''258EAFA5-E914-47DA-95CA-C5AB0DC85B11''"

definition ComputeAcceptKey :: "string \<Rightarrow> string" where
  "ComputeAcceptKey client_key = Base64Encode (Sha1 (bytes_of_string (client_key @ Guid)))"

subsection \<open>The standard\<close>

text \<open>FIPS 180-4: padding (5.1.1), parsing into blocks of sixteen big-endian words (5.2.1), the
  functions and constants of round \<open>t\<close> (4.1.1, 4.2.1), the message schedule and the
  compression of one block (6.1.2).\<close>

definition fips_pad :: "byte list \<Rightarrow> byte list" where
  "fips_pad msg = msg @ [0x80] @ replicate ((119 - length msg mod 64) mod 64) 0
     @ map (\<lambda>i. of_nat (8 * length msg div 256 ^ (7 - i))) [0..<8]"

function fips_blocks :: "byte list \<Rightarrow> byte list list" where
  "fips_blocks bs = (if bs = [] then [] else take 64 bs # fips_blocks (drop 64 bs))"
  by pat_completeness auto
termination
  by (relation "measure length") auto

declare fips_blocks.simps [simp del]

fun fips_W :: "byte list \<Rightarrow> nat \<Rightarrow> u32" where
  "fips_W M t =
    (if t < 16 then of_nat (big_endian (take 4 (drop (4 * t) M)))
     else word_rotl 1 (fips_W M (t - 3) XOR fips_W M (t - 8) XOR fips_W M (t - 14) XOR fips_W M (t - 16)))"

declare fips_W.simps [simp del]

definition fips_f :: "nat \<Rightarrow> u32 \<Rightarrow> u32 \<Rightarrow> u32 \<Rightarrow> u32" where
  "fips_f t x y z =
    (if t \<le> 19 then (x AND y) XOR (NOT x AND z)
     else if t \<le> 39 then x XOR y XOR z
     else if t \<le> 59 then (x AND y) XOR (x AND z) XOR (y AND z)
     else x XOR y XOR z)"

definition fips_K :: "nat \<Rightarrow> u32" where
  "fips_K t = (if t \<le> 19 then 0x5a827999 else if t \<le> 39 then 0x6ed9eba1
     else if t \<le> 59 then 0x8f1bbcdc else 0xca62c1d6)"

definition fips_round :: "byte list \<Rightarrow> nat \<Rightarrow> sha1_state \<Rightarrow> sha1_state" where
  "fips_round M t = (\<lambda>(a, b, c, d, e).
     (word_rotl 5 a + fips_f t b c d + e + fips_K t + fips_W M t, a, word_rotl 30 b, c, d))"

definition fips_block :: "byte list \<Rightarrow> sha1_state \<Rightarrow> sha1_state" where
  "fips_block M = (\<lambda>(h0, h1, h2, h3, h4).
     case fold (fips_round M) [0..<80] (h0, h1, h2, h3, h4) of
       (a, b, c, d, e) \<Rightarrow> (h0 + a, h1 + b, h2 + c, h3 + d, h4 + e))"

definition fips_sha1 :: "byte list \<Rightarrow> byte list" where
  "fips_sha1 msg =
    (case fold fips_block (fips_blocks (fips_pad msg))
        (0x67452301, 0xefcdab89, 0x98badcfe, 0x10325476, 0xc3d2e1f0) of
      (h0, h1, h2, h3, h4) \<Rightarrow>
        concat (map (\<lambda>h. map (\<lambda>i. of_nat (unat h div 256 ^ (3 - i))) [0..<4]) [h0, h1, h2, h3, h4]))"

subsection \<open>Padding\<close>

lemma ucast_drop_bit_of_nat:
  "k \<le> 56 \<Longrightarrow> (ucast (drop_bit k (of_nat m :: u64)) :: byte) = of_nat (m div 2 ^ k)"
  by (rule bit_word_eqI) (auto simp: bit_simps drop_bit_eq_div [symmetric] add.commute)

lemma pad_loop_eq: "pad_loop n = n + (56 + 64 - n mod 64) mod 64"
proof (induction n rule: pad_loop.induct)
  case (1 n)
  show ?case
  proof (cases "n mod 64 = 56")
    case True
    then show ?thesis by (simp add: pad_loop.simps [of n])
  next
    case False
    have m: "Suc n mod 64 = (if n mod 64 = 63 then 0 else Suc (n mod 64))" by (simp add: mod_Suc)
    have "n mod 64 < 64" by simp
    with False m have "Suc ((56 + 64 - Suc n mod 64) mod 64) = (56 + 64 - n mod 64) mod 64"
      by (cases "n mod 64 < 56") (auto simp: le_mod_geq)
    with 1 False show ?thesis by (simp add: pad_loop.simps [of n])
  qed
qed

lemma update_tail8:
  "length p = n \<Longrightarrow> fold (\<lambda>i p. p[n + 8 - 1 - i := f i]) [0..<8] (p @ replicate 8 0) =
     p @ map (\<lambda>i. f (7 - i)) [0..<8]"
  by (simp add: upt_rec eval_nat_numeral list_update_append)

lemma sha1_padded_eq: "sha1_padded data = fips_pad data"
proof -
  let ?n = "length data"
  let ?k = "(119 - ?n mod 64) mod 64"
  have "(56 + 64 - Suc ?n mod 64) mod 64 = ?k"
    using mod_less_divisor [of 64 ?n] by (auto simp: mod_Suc le_mod_geq)
  then have size: "pad_loop (?n + 1) + 8 = (?n + 1 + ?k) + 8" by (simp add: pad_loop_eq)
  have split: "(data @ replicate (?n + 1 + ?k + 8 - ?n) 0)[?n := 0x80] =
      (data @ [0x80] @ replicate ?k 0) @ replicate 8 0"
  proof -
    have "?n + 1 + ?k + 8 - ?n = Suc (?k + 8)" by simp
    then show ?thesis
      by (simp only: replicate_add replicate_Suc list_update_length append_Cons append_assoc append_Nil)
  qed
  have bits: "of_nat ?n * 8 = (of_nat (8 * ?n) :: u64)" by simp
  have len: "length (data @ [0x80] @ replicate ?k 0) = ?n + 1 + ?k" by simp
  have "map (\<lambda>i. ucast (drop_bit ((7 - i) * 8) (of_nat (8 * ?n) :: u64)) :: byte) [0..<8] =
      map (\<lambda>i. of_nat (8 * ?n div 256 ^ (7 - i))) [0..<8]"
  proof (rule map_cong)
    fix i assume "i \<in> set [0..<8]"
    have "(256 :: nat) ^ (7 - i) = 2 ^ ((7 - i) * 8)" by (simp add: power_mult mult.commute)
    then show "(ucast (drop_bit ((7 - i) * 8) (of_nat (8 * ?n) :: u64)) :: byte) =
        of_nat (8 * ?n div 256 ^ (7 - i))"
      by (subst ucast_drop_bit_of_nat) simp_all
  qed simp
  then show ?thesis
    unfolding sha1_padded_def Let_def size bits split fips_pad_def
    by (subst update_tail8 [OF len]) simp
qed

lemma length_fips_pad: "length (fips_pad msg) mod 64 = 0"
proof -
  have "(n + 9 + (119 - n mod 64) mod 64) mod 64 = 0" for n :: nat
  proof -
    have "(n + 9 + (119 - n mod 64) mod 64) mod 64 = (n mod 64 + 9 + (119 - n mod 64)) mod 64"
      by (metis mod_add_left_eq mod_add_right_eq)
    also have "n mod 64 + 9 + (119 - n mod 64) = 128"
      using mod_less_divisor [of 64 n] by linarith
    finally show ?thesis by simp
  qed
  from this [of "length msg"] show ?thesis by (simp add: fips_pad_def add.assoc)
qed

subsection \<open>Words, rounds and blocks\<close>

lemma RotateLeft_eq: "0 < n \<Longrightarrow> n < 32 \<Longrightarrow> RotateLeft w n = word_rotl n w"
  by (rule bit_word_eqI)
    (auto simp: RotateLeft_def bit_simps mod_if not_le not_less add.commute [of _ 32] split: if_splits
       dest: bit_imp_le_length)

lemma sha1_word_eq:
  "base + 4 \<le> length p \<Longrightarrow> sha1_word p base = of_nat (big_endian (take 4 (drop base p)))"
proof -
  assume len: "base + 4 \<le> length p"
  let ?b = "\<lambda>i. unat (p ! (base + i))"
  have bytes: "take 4 (drop base p) = [p ! base, p ! (base + 1), p ! (base + 2), p ! (base + 3)]"
    using len by (simp add: take_4_nth)
  have "?b i \<le> 255" for i using unat_byte_less [of "p ! (base + i)"] by linarith
  from this [of 3] this [of 2] this [of 1]
  have less: "?b 3 < 2 ^ 8" "?b 2 * 2 ^ 8 + ?b 3 < 2 ^ 16"
      "?b 1 * 2 ^ 16 + (?b 2 * 2 ^ 8 + ?b 3) < 2 ^ 24"
    by simp_all
  have "sha1_word p base = of_nat (?b 0 * 2 ^ 24 + (?b 1 * 2 ^ 16 + (?b 2 * 2 ^ 8 + ?b 3)))"
    using less
    by (simp only: sha1_word_def ucast_u32 push_bit_or_of_nat add_0_right)
  then show ?thesis
    by (simp add: bytes big_endian_def)
qed

lemma fold_update_upt:
  assumes "\<And>k w. m \<le> k \<Longrightarrow> k < n \<Longrightarrow> length w = l \<Longrightarrow> (\<And>j. j < k \<Longrightarrow> w ! j = g j) \<Longrightarrow> f k w = g k"
    and "m \<le> n" and "n \<le> l" and "length w0 = l" and "\<And>j. j < m \<Longrightarrow> w0 ! j = g j"
  shows "length (fold (\<lambda>i w. w[i := f i w]) [m..<n] w0) = l \<and>
    (\<forall>j<n. fold (\<lambda>i w. w[i := f i w]) [m..<n] w0 ! j = g j)"
  using assms(2,1,3)
proof (induction n rule: nat_induct_at_least)
  case base
  then show ?case using assms(4,5) by simp
next
  case (Suc n)
  let ?w = "fold (\<lambda>i w. w[i := f i w]) [m..<n] w0"
  have IH: "length ?w = l \<and> (\<forall>j<n. ?w ! j = g j)"
    using Suc.IH Suc.prems by auto
  then have "f n ?w = g n" using Suc.prems(1) [of n ?w] Suc.hyps by simp
  with IH Suc show ?case by (auto simp: nth_list_update less_Suc_eq)
qed

lemma sha1_words_eq:
  assumes "offset + 64 \<le> length p" and "t < 80"
  shows "sha1_words p offset ! t = fips_W (take 64 (drop offset p)) t"
proof -
  let ?M = "take 64 (drop offset p)"
  have W16: "sha1_word p (offset + i * 4) = fips_W ?M i" if "i < 16" for i
  proof -
    have "take 4 (drop (4 * i) ?M) = take 4 (drop (offset + i * 4) p)"
      using that by (simp add: drop_take add.commute mult.commute)
    then show ?thesis
      using that assms by (simp add: sha1_word_eq fips_W.simps [of _ i])
  qed
  let ?w16 = "fold (\<lambda>i w. w[i := sha1_word p (offset + i * 4)]) [0..<16] (replicate 80 0)"
  have 1: "length ?w16 = 80 \<and> (\<forall>j<16. ?w16 ! j = fips_W ?M j)"
    by (rule fold_update_upt) (simp_all add: W16)
  have "length (sha1_words p offset) = 80 \<and> (\<forall>j<80. sha1_words p offset ! j = fips_W ?M j)"
    unfolding sha1_words_def Let_def
    by (rule fold_update_upt)
      (use 1 in \<open>simp_all add: RotateLeft_eq fips_W.simps [of ?M]\<close>)
  then show ?thesis using assms by simp
qed

lemma sha1_choose: "((b AND c) OR (NOT b AND d)) = (b AND c) XOR (NOT b AND (d :: u32))"
  and sha1_majority: "((b AND c) OR (b AND d) OR (c AND d)) = (b AND c) XOR (b AND d) XOR (c AND (d :: u32))"
  by (rule bit_word_eqI; auto simp: bit_simps)+

lemma sha1_round_eq:
  assumes "words ! t = fips_W M t"
  shows "sha1_round words t h = fips_round M t h"
  using assms
  by (cases h) (simp add: sha1_round_def fips_round_def fips_f_def fips_K_def RotateLeft_eq Let_def
      sha1_choose sha1_majority)

lemma sha1_block_eq:
  assumes "offset + 64 \<le> length p"
  shows "sha1_block p offset h = fips_block (take 64 (drop offset p)) h"
proof -
  have "fold (sha1_round (sha1_words p offset)) [0..<80] x = fold (fips_round (take 64 (drop offset p))) [0..<80] x" for x
    by (rule fold_cong) (auto simp: sha1_words_eq [OF assms] fun_eq_iff intro!: sha1_round_eq)
  then show ?thesis by (cases h) (simp add: sha1_block_def fips_block_def Let_def)
qed

lemma fips_blocks_Nil [simp]: "fips_blocks [] = []"
  by (simp add: fips_blocks.simps)

lemma sha1_blocks_eq:
  assumes p: "length p mod 64 = 0" and "offset mod 64 = 0"
  shows "sha1_blocks p offset h = fold fips_block (fips_blocks (drop offset p)) h"
  using assms(2)
proof (induction "length p - offset" arbitrary: offset h rule: less_induct)
  case less
  show ?case
  proof (cases "offset < length p")
    case True
    have "64 dvd length p - offset"
      using p less.prems by (simp add: mod_eq_0_iff_dvd)
    then have fits: "offset + 64 \<le> length p"
      using True by (auto dest!: dvd_imp_le)
    have "sha1_blocks p (offset + 64) (sha1_block p offset h) =
        fold fips_block (fips_blocks (drop (offset + 64) p)) (sha1_block p offset h)"
      using less.hyps less.prems True by simp
    with True fits show ?thesis
      by (simp add: sha1_blocks.simps [of p offset] fips_blocks.simps [of "drop offset p"]
          sha1_block_eq add.commute)
  next
    case False
    then show ?thesis
      by (simp add: sha1_blocks.simps [of p offset] fips_blocks.simps [of "drop offset p"])
  qed
qed

lemma store_be32_eq: "store_be32 h = map (\<lambda>i. of_nat (unat h div 256 ^ (3 - i))) [0..<4]"
proof -
  have "ucast (drop_bit k h) = (of_nat (unat h div 2 ^ k) :: byte)" for k
  proof -
    have "ucast (drop_bit k h) = (of_nat (unat (drop_bit k h)) :: byte)"
      by (rule of_nat_unat [symmetric])
    also have "unat h < 2 ^ LENGTH(32)" by (rule unsigned_less)
    then have "unat (drop_bit k h) = unat h div 2 ^ k"
      by (simp only: unsigned_drop_bit_eq) (simp add: drop_bit_eq_div take_bit_nat_eq_self)
    finally show ?thesis .
  qed
  moreover have "[0..<4] = [0, 1, 2, 3 :: nat]" by code_simp
  moreover have "ucast h = (of_nat (unat h) :: byte)" by (rule of_nat_unat [symmetric])
  ultimately show ?thesis
    by (simp add: store_be32_def del: of_nat_unat)
qed

lemma Sha1_eq: "Sha1 data = fips_sha1 data"
  by (simp add: Sha1_def fips_sha1_def sha1_padded_eq sha1_blocks_eq length_fips_pad store_be32_eq
      cong: prod.case_cong)

lemma length_Sha1: "length (Sha1 data) = 20"
  by (simp add: Sha1_def store_be32_def split: prod.splits)

text \<open>C39. The digest is SHA-1: for every input, \<open>WebSocketTransport::Sha1\<close> computes the digest
  of FIPS 180-4, twenty bytes long, and \<open>ComputeAcceptKey\<close> is the Base64 text of the
  SHA-1 of the client's key followed by the GUID of RFC 6455, 28 characters long.\<close>

theorem Sha1_correct:
  "Sha1 data = fips_sha1 data \<and> length (Sha1 data) = 20 \<and>
   b64_decode (ComputeAcceptKey key) = Some (fips_sha1 (bytes_of_string (key @ Guid))) \<and>
   length (ComputeAcceptKey key) = 28"
  by (simp add: ComputeAcceptKey_def length_Base64Encode b64_decode_encode length_Sha1 flip: Sha1_eq)

end
