(* ===== verification/Ws_Handshake.thy ===== *)
theory Ws_Handshake
  imports Sha1
begin

text \<open>
  The HTTP upgrade of \<open>src/transport/websocket_transport.cpp\<close>: \<open>Trim\<close>, \<open>Lower\<close>,
  \<open>ContainsToken\<close> and \<open>WebSocketTransport::ParseHandshake\<close> with all its error replies.
\<close>

subsection \<open>Strings\<close>

text \<open>\<open>std::string_view::find\<close>: the first position at or after \<open>pos\<close>; \<open>None\<close> is
  \<open>npos\<close>.\<close>

fun find_str :: "string \<Rightarrow> string \<Rightarrow> nat option" where
  "find_str pat [] = (if pat = [] then Some 0 else None)"
| "find_str pat (c # cs) =
    (if take (length pat) (c # cs) = pat then Some 0 else map_option Suc (find_str pat cs))"

definition find_from :: "string \<Rightarrow> string \<Rightarrow> nat \<Rightarrow> nat option" where
  "find_from pat s pos = (if pos > length s then None else map_option ((+) pos) (find_str pat (drop pos s)))"

text \<open>\<open>substr(0, n)\<close> where \<open>n\<close> may be \<open>npos\<close>.\<close>

definition substr_to :: "nat option \<Rightarrow> string \<Rightarrow> string" where
  "substr_to n s = (case n of None \<Rightarrow> s | Some i \<Rightarrow> take i s)"

definition is_blank :: "char \<Rightarrow> bool" where
  "is_blank c \<longleftrightarrow> c = CHR '' '' \<or> c = CHR 0x09"

fun trim_front :: "string \<Rightarrow> string" where
  "trim_front [] = []"
| "trim_front (c # cs) = (if is_blank c then trim_front cs else c # cs)"

function trim_back :: "string \<Rightarrow> string" where
  "trim_back s = (if s \<noteq> [] \<and> is_blank (last s) then trim_back (butlast s) else s)"
  by pat_completeness auto
termination
  by (relation "measure length") auto

declare trim_back.simps [simp del]

definition Trim :: "string \<Rightarrow> string" where
  "Trim s = trim_back (trim_front s)"

text \<open>\<open>std::tolower\<close> in the C locale.\<close>

definition tolower :: "char \<Rightarrow> char" where
  "tolower c =
    (if of_char c \<ge> (65 :: nat) \<and> of_char c \<le> (90 :: nat) then char_of (of_char c + 32 :: nat) else c)"

definition Lower :: "string \<Rightarrow> string" where
  "Lower = map tolower"

lemma find_str_bound: "find_str pat s = Some i \<Longrightarrow> i + length pat \<le> length s"
proof (induction pat s arbitrary: i rule: find_str.induct)
  case (2 pat c cs)
  then show ?case
    by (fastforce split: if_splits dest: arg_cong [where f = length])
qed (auto split: if_splits)

function ContainsToken :: "string \<Rightarrow> string \<Rightarrow> bool" where
  "ContainsToken value expected =
    (if value = [] then False
     else
       let separator = find_str '','' value;
           token = Trim (substr_to separator value)
       in if Lower token = Lower expected then True
          else (case separator of
                  None \<Rightarrow> False
                | Some i \<Rightarrow> ContainsToken (drop (i + 1) value) expected))"
  by pat_completeness auto
termination
  by (relation "measure (\<lambda>(v, _). length v)") (auto dest: find_str_bound)

declare ContainsToken.simps [simp del]

subsection \<open>The handshake\<close>

datatype HandshakeStatus = HsNeedMoreData | HsAccepted | HsRejected

record HandshakeResult =
  hs_status :: HandshakeStatus
  hs_consumed :: nat
  hs_response :: string
  hs_origin :: string
  hs_error :: string

definition hs_default :: HandshakeResult where
  "hs_default = \<lparr>hs_status = HsNeedMoreData, hs_consumed = 0, hs_response = [], hs_origin = [], hs_error = []\<rparr>"

definition CRLF :: string where
  "CRLF = [CHR 0x0D, CHR 0x0A]"

definition reject :: "string \<Rightarrow> string \<Rightarrow> HandshakeResult \<Rightarrow> HandshakeResult" where
  "reject err response r = r\<lparr>hs_status := HsRejected, hs_error := err, hs_response := response\<rparr>"

definition bad_request :: string where
  "bad_request = ''HTTP/1.1 400 Bad Request'' @ CRLF @ ''Connection: close'' @ CRLF @ CRLF"

type_synonym headers = "string \<rightharpoonup> string"

text \<open>The loop over the header lines; \<open>Inl\<close> is the error of an early return. A line end is always
  found, because the terminator of the headers lies ahead (\<open>header_line_found\<close> below).\<close>

function header_loop :: "string \<Rightarrow> nat \<Rightarrow> nat \<Rightarrow> headers \<Rightarrow> string + headers" where
  "header_loop request header_end position headers =
    (if position < header_end then
       (case find_from CRLF request position of
          None \<Rightarrow> Inr headers
        | Some line_end \<Rightarrow>
            let line = take (line_end - position) (drop position request)
            in (case find_str '':'' line of
                  None \<Rightarrow> Inl ''malformed HTTP header''
                | Some colon \<Rightarrow>
                    let name = Lower (Trim (take colon line))
                    in if name \<in> dom headers then Inl ''duplicate HTTP header''
                       else header_loop request header_end (line_end + 2)
                              (headers(name \<mapsto> Trim (drop (colon + 1) line)))))
     else Inr headers)"
  by pat_completeness auto
termination
  by (relation "measure (\<lambda>(_, e, p, _). e - p)") (auto simp: find_from_def split: if_splits)

declare header_loop.simps [simp del]

definition request_line_ok :: "string \<Rightarrow> bool" where
  "request_line_ok request_line =
    (let first_space = find_str '' '' request_line;
         second_space = find_from '' '' request_line (case first_space of None \<Rightarrow> 0 | Some i \<Rightarrow> i + 1)
     in (case (first_space, second_space) of
           (Some i, Some j) \<Rightarrow> take i request_line = ''GET'' \<and> drop (j + 1) request_line = ''HTTP/1.1''
         | _ \<Rightarrow> False))"

definition upgrade_headers_ok :: "headers \<Rightarrow> bool" where
  "upgrade_headers_ok headers =
    (case (headers ''upgrade'', headers ''connection'', headers ''sec-websocket-key'',
           headers ''sec-websocket-version'') of
       (Some upgrade, Some connection, Some key, Some version) \<Rightarrow>
         Lower upgrade = ''websocket'' \<and> ContainsToken connection ''upgrade'' \<and>
         IsValidWebSocketKey key \<and> version = ''13''
     | _ \<Rightarrow> False)"

definition accept_response :: "string \<Rightarrow> string" where
  "accept_response key =
    ''HTTP/1.1 101 Switching Protocols'' @ CRLF @ ''Upgrade: websocket'' @ CRLF @
    ''Connection: Upgrade'' @ CRLF @ ''Sec-WebSocket-Accept: '' @ ComputeAcceptKey key @ CRLF @ CRLF"

definition ParseHandshake :: "byte list \<Rightarrow> size_t \<Rightarrow> (string \<Rightarrow> bool) option \<Rightarrow> HandshakeResult" where
  "ParseHandshake bytes max_header_bytes origin_validator =
    (let result = hs_default
     in if length bytes > unat max_header_bytes then
          reject ''HTTP upgrade headers exceed configured limit''
            (''HTTP/1.1 431 Request Header Fields Too Large'' @ CRLF @ ''Connection: close'' @ CRLF @ CRLF) result
        else
          let request = string_of_bytes bytes
          in (case find_str (CRLF @ CRLF) request of
                None \<Rightarrow> result
              | Some header_end \<Rightarrow>
                  let result = result\<lparr>hs_consumed := header_end + 4\<rparr>
                  in (case find_str CRLF request of
                        None \<Rightarrow> reject ''missing HTTP request line'' bad_request result
                      | Some request_line_end \<Rightarrow>
                          if \<not> request_line_ok (take request_line_end request) then
                            reject ''WebSocket upgrade requires GET over HTTP/1.1'' bad_request result
                          else
                            (case header_loop request header_end (request_line_end + 2) Map.empty of
                               Inl err \<Rightarrow> reject err bad_request result
                             | Inr headers \<Rightarrow>
                                 if \<not> upgrade_headers_ok headers then
                                   reject ''required WebSocket upgrade headers are missing or invalid''
                                     (''HTTP/1.1 400 Bad Request'' @ CRLF @ ''Sec-WebSocket-Version: 13'' @ CRLF @
                                      ''Connection: close'' @ CRLF @ CRLF) result
                                 else
                                   let result = (case headers ''origin'' of
                                         None \<Rightarrow> result | Some origin \<Rightarrow> result\<lparr>hs_origin := origin\<rparr>)
                                   in if (case origin_validator of
                                            None \<Rightarrow> False | Some valid \<Rightarrow> \<not> valid (hs_origin result)) then
                                        reject ''WebSocket Origin is not allowed''
                                          (''HTTP/1.1 403 Forbidden'' @ CRLF @ ''Connection: close'' @ CRLF @ CRLF)
                                          result
                                      else result\<lparr>hs_status := HsAccepted,
                                             hs_response := accept_response (the (headers ''sec-websocket-key''))\<rparr>))))"

subsection \<open>Searching\<close>

lemma find_str_hit: "find_str pat s = Some i \<Longrightarrow> take (length pat) (drop i s) = pat"
  by (induction pat s arbitrary: i rule: find_str.induct) (auto split: if_splits)

lemma find_str_le:
  "take (length pat) (drop i s) = pat \<Longrightarrow> i \<le> length s \<Longrightarrow> \<exists>j \<le> i. find_str pat s = Some j"
proof (induction s arbitrary: i)
  case (Cons c cs)
  show ?case
  proof (cases "take (length pat) (c # cs) = pat")
    case False
    with Cons.prems obtain k where "i = Suc k" by (cases i) auto
    with Cons.prems Cons.IH [of k] False show ?thesis by auto
  qed simp
qed simp

lemma find_str_append: "find_str pat s = Some i \<Longrightarrow> find_str pat (s @ t) = Some i"
proof (induction pat s arbitrary: i rule: find_str.induct)
  case (1 pat)
  then show ?case by (cases t) (auto split: if_splits)
next
  case (2 pat c cs)
  show ?case
  proof (cases "take (length pat) (c # cs) = pat")
    case True
    then have "length pat \<le> length (c # cs)" by (metis length_take min.cobounded1)
    with True have "take (length pat) (c # cs @ t) = pat"
      by (metis append_Cons take_append_prefix)
    with True 2 show ?thesis by auto
  next
    case False
    with 2 obtain j where j: "find_str pat cs = Some j" "i = Suc j" by auto
    from find_str_bound [OF j(1)] have "take (length pat) (c # cs @ t) = take (length pat) (c # cs)"
      by (metis append_Cons take_append_prefix le_add2 le_SucI length_Cons le_trans)
    with False 2 j show ?thesis by auto
  qed
qed

text \<open>A character that does not occur in front of the match is skipped.\<close>

lemma find_str_skip: "x \<notin> set t \<Longrightarrow> find_str (x # p) (t @ s) = map_option ((+) (length t)) (find_str (x # p) s)"
  by (cases "find_str (x # p) s"; induction t) auto

lemma find_str_head: "find_str p (p @ s) = Some 0"
  by (cases "p @ s") (auto simp: append_eq_Cons_conv)

lemma find_str_miss: "x \<notin> set t \<Longrightarrow> find_str (x # p) t = None"
  by (induction t) auto

subsection \<open>Later bytes\<close>

lemma terminator:
  assumes "find_str (CRLF @ CRLF) request = Some header_end"
  shows "take (length CRLF) (drop header_end request) = CRLF" and "header_end + 4 \<le> length request"
proof -
  have "take 2 (take 4 (drop header_end request)) = take 2 (CRLF @ CRLF)"
    using find_str_hit [OF assms] by (simp add: CRLF_def eval_nat_numeral)
  then show "take (length CRLF) (drop header_end request) = CRLF" by (simp add: CRLF_def eval_nat_numeral)
  show "header_end + 4 \<le> length request"
    using find_str_bound [OF assms] by (simp add: CRLF_def)
qed

lemma header_line_found:
  assumes "find_str (CRLF @ CRLF) request = Some header_end" and "position < header_end"
  shows "\<exists>line_end \<le> header_end. find_from CRLF request position = Some line_end \<and> position \<le> line_end"
proof -
  note t = terminator [OF assms(1)]
  then have "take (length CRLF) (drop (header_end - position) (drop position request)) = CRLF"
    using assms(2) by simp
  moreover have "header_end - position \<le> length (drop position request)"
    using t(2) by simp
  ultimately obtain j where "j \<le> header_end - position" "find_str CRLF (drop position request) = Some j"
    using find_str_le by blast
  with assms(2) t(2) show ?thesis
    by (intro exI [of _ "position + j"]) (auto simp: find_from_def)
qed

lemma header_loop_append:
  assumes "find_str (CRLF @ CRLF) request = Some header_end"
  shows "header_loop (request @ t) header_end position h = header_loop request header_end position h"
proof (induction "header_end - position" arbitrary: position h rule: less_induct)
  case less
  show ?case
  proof (cases "position < header_end")
    case True
    from header_line_found [OF assms True] obtain le where
      le: "le \<le> header_end" "find_from CRLF request position = Some le" "position \<le> le" by blast
    note len = terminator(2) [OF assms]
    from le(2) obtain j where j: "find_str CRLF (drop position request) = Some j" "le = position + j"
      by (auto simp: find_from_def split: if_splits)
    have f: "find_from CRLF (request @ t) position = Some le"
      using find_str_append [OF j(1), of t] j(2) len True by (simp add: find_from_def)
    have l: "take (le - position) (drop position (request @ t)) = take (le - position) (drop position request)"
      using le len by simp
    have "header_end - (le + 2) < header_end - position" using True le by simp
    from less.hyps [OF this]
    have IH: "header_loop (request @ t) header_end (le + 2) h' = header_loop request header_end (le + 2) h'" for h'
      by simp
    show ?thesis
      unfolding header_loop.simps [of "request @ t" header_end position]
        header_loop.simps [of request header_end position] Let_def f l le(2)
      by (simp only: IH l option.case)
  next
    case False
    then show ?thesis by (simp add: header_loop.simps)
  qed
qed

lemma ParseHandshake_append:
  assumes "find_str (CRLF @ CRLF) (string_of_bytes bytes) = Some header_end"
    and "length (bytes @ later) \<le> unat mx"
  shows "ParseHandshake (bytes @ later) mx v = ParseHandshake bytes mx v"
proof -
  let ?r = "string_of_bytes bytes"
  note t = terminator [OF assms(1)]
  with find_str_le [OF t(1)] obtain rle where rle: "find_str CRLF ?r = Some rle" by auto
  have "rle \<le> length ?r" using find_str_bound [OF rle] by simp
  with rle find_str_append [OF rle] find_str_append [OF assms(1)] assms(2) header_loop_append [OF assms(1)] assms(1)
  show ?thesis by (simp add: ParseHandshake_def Let_def)
qed

subsection \<open>Well-formed requests\<close>

text \<open>The text of an upgrade request: request line, header lines and the empty line.\<close>

definition header_text :: "(string \<times> string) list \<Rightarrow> string" where
  "header_text hs = concat (map (\<lambda>(n, v). n @ '':'' @ v @ CRLF) hs)"

definition request_text :: "string \<Rightarrow> (string \<times> string) list \<Rightarrow> string" where
  "request_text path hs = (''GET '' @ path @ '' HTTP/1.1'') @ CRLF @ header_text hs @ CRLF"

definition plain :: "string \<Rightarrow> bool" where
  "plain s \<longleftrightarrow> CHR 0x0D \<notin> set s"

fun header_ok :: "string \<times> string \<Rightarrow> bool" where
  "header_ok (n, v) \<longleftrightarrow> plain n \<and> plain v \<and> CHR '':'' \<notin> set n"

definition header_names :: "(string \<times> string) list \<Rightarrow> string list" where
  "header_names hs = map (\<lambda>(n, v). Lower (Trim n)) hs"

definition header_map :: "(string \<times> string) list \<Rightarrow> headers" where
  "header_map hs = map_of (map (\<lambda>(n, v). (Lower (Trim n), Trim v)) hs)"

lemma dom_header_map: "dom (header_map hs) = set (header_names hs)"
  by (force simp: header_map_def header_names_def dom_map_of_conv_image_fst)

lemma find_CRLF_plain: "plain t \<Longrightarrow> find_str CRLF (t @ CRLF @ s) = Some (length t)"
  using find_str_skip [of "CHR 0x0D" t "[CHR 0x0A]" "CRLF @ s"] find_str_head [of CRLF s]
  by (simp add: plain_def CRLF_def)

lemma find_terminator:
  assumes "list_all header_ok hs"
  shows "find_str (CRLF @ CRLF) (CRLF @ header_text hs @ CRLF @ rest) = Some (length (header_text hs))"
  using assms
proof (induction hs)
  case Nil
  then show ?case
    using find_str_head [of "CRLF @ CRLF" rest] by (simp add: header_text_def)
next
  case (Cons h hs)
  obtain n v where h: "h = (n, v)" by (cases h)
  let ?line = "n @ '':'' @ v" and ?s = "CRLF @ header_text hs @ CRLF @ rest"
  have plain: "CHR 0x0D \<notin> set ?line" using Cons.prems h by (auto simp: plain_def)
  then obtain c t where ct: "?line @ ?s = c # t" "c \<noteq> CHR 0x0D"
    by (cases n) auto
  have skip: "find_str (CRLF @ CRLF) (CRLF @ c # t) = map_option (\<lambda>i. i + 2) (find_str (CRLF @ CRLF) (c # t))"
    using ct(2) by (simp add: CRLF_def option.map_comp comp_def)
  have "find_str (CRLF @ CRLF) (?line @ ?s) = Some (length ?line + length (header_text hs))"
    using find_str_skip [OF plain, of "[CHR 0x0A] @ CRLF" ?s] Cons h by (simp add: CRLF_def)
  moreover from skip have "find_str (CRLF @ CRLF) (CRLF @ ?line @ ?s) =
      map_option (\<lambda>i. i + 2) (find_str (CRLF @ CRLF) (?line @ ?s))"
    by (simp only: ct(1))
  moreover have "CRLF @ header_text (h # hs) @ CRLF @ rest = CRLF @ ?line @ ?s"
    by (simp add: h header_text_def)
  moreover have "length (header_text (h # hs)) = length ?line + length (header_text hs) + 2"
    by (simp add: h header_text_def CRLF_def)
  ultimately show ?case by simp
qed

lemma header_loop_done: "e \<le> p \<Longrightarrow> header_loop r e p m = Inr m"
  by (simp add: header_loop.simps)

lemma header_loop_text:
  assumes "list_all header_ok hs" and "distinct (header_names hs)" and "set (header_names hs) \<inter> dom m = {}"
  shows "header_loop (pre @ header_text hs @ rest) (length pre + length (header_text hs) - 2) (length pre) m =
    Inr (m ++ header_map hs)"
  using assms
proof (induction hs arbitrary: pre m)
  case Nil
  then show ?case by (simp add: header_loop_done header_text_def header_map_def)
next
  case (Cons h hs)
  obtain n v where h: "h = (n, v)" by (cases h)
  let ?line = "n @ '':'' @ v" and ?k = "Lower (Trim n)"
  let ?r = "pre @ ?line @ CRLF @ header_text hs @ rest"
  let ?e = "length pre + length (header_text (h # hs)) - 2"
  have r: "pre @ header_text (h # hs) @ rest = ?r" by (simp add: h header_text_def)
  have e: "?e = length (pre @ ?line @ CRLF) + length (header_text hs) - 2"
    by (simp add: h header_text_def CRLF_def)
  have "plain ?line" using Cons.prems h by (auto simp: plain_def)
  then have f: "find_from CRLF ?r (length pre) = Some (length pre + length ?line)"
    using find_CRLF_plain [of ?line "header_text hs @ rest"] by (simp add: find_from_def)
  have c: "find_str '':'' ?line = Some (length n)"
    using Cons.prems h find_str_skip [of "CHR '':''" n "[]" "'':'' @ v"] by simp
  have IH: "header_loop ?r ?e (length pre + length ?line + 2) (m(?k \<mapsto> Trim v)) =
      Inr ((m(?k \<mapsto> Trim v)) ++ header_map hs)"
  proof -
    have "list_all header_ok hs" "distinct (header_names hs)"
      "set (header_names hs) \<inter> dom (m(?k \<mapsto> Trim v)) = {}"
      using Cons.prems h by (auto simp: header_names_def)
    from Cons.IH [OF this, of "pre @ ?line @ CRLF"] show ?thesis
      unfolding e by (simp add: CRLF_def fun_upd_def)
  qed
  have k: "?k \<notin> dom m" and new: "?k \<notin> dom (header_map hs)"
    using Cons.prems h by (auto simp: header_names_def dom_header_map)
  from new have "(m(?k \<mapsto> Trim v)) ++ header_map hs = m ++ header_map (h # hs)"
    by (auto simp: h header_map_def map_add_def fun_eq_iff domIff split: option.split)
  moreover have "length pre < ?e" by (simp add: h header_text_def CRLF_def)
  moreover have "take (length pre + length ?line - length pre) (drop (length pre) ?r) = ?line" by simp
  ultimately show ?case
    unfolding r header_loop.simps [of ?r ?e "length pre"] f
    using k IH by (simp add: c [simplified] Let_def)
qed

lemma plain_request_line: "plain path \<Longrightarrow> plain (''GET '' @ path @ '' HTTP/1.1'')"
  by (simp add: plain_def)

lemma request_line_ok_GET:
  assumes "CHR '' '' \<notin> set path"
  shows "request_line_ok (''GET '' @ path @ '' HTTP/1.1'')"
proof -
  let ?l = "''GET '' @ path @ '' HTTP/1.1''"
  have 1: "find_str '' '' ?l = Some 3" by simp
  have "find_str '' '' (path @ '' HTTP/1.1'') = Some (length path)"
    using find_str_skip [OF assms, of "[]" "'' HTTP/1.1''"] by simp
  then have 2: "find_from '' '' ?l 4 = Some (4 + length path)"
    by (simp add: find_from_def eval_nat_numeral)
  show ?thesis unfolding request_line_ok_def Let_def 1
    using 2 by (simp add: eval_nat_numeral)
qed

text \<open>The outcome for a well-formed request, before its headers are judged.\<close>

lemma ParseHandshake_request:
  assumes path: "plain path" "CHR '' '' \<notin> set path"
    and hs: "list_all header_ok hs" "distinct (header_names hs)"
    and len: "length (bytes_of_string (request_text path hs) @ later) \<le> unat mx"
  shows "find_str (CRLF @ CRLF) (request_text path hs @ string_of_bytes later) = Some (length (request_text path hs) - 4)"
    and "find_str CRLF (request_text path hs @ string_of_bytes later) = Some (length path + 13)"
    and "header_loop (request_text path hs @ string_of_bytes later) (length (request_text path hs) - 4)
      (length path + 13 + 2) Map.empty = Inr (header_map hs)"
    and "take (length path + 13) (request_text path hs @ string_of_bytes later) = ''GET '' @ path @ '' HTTP/1.1''"
proof -
  let ?l = "''GET '' @ path @ '' HTTP/1.1''" and ?t = "string_of_bytes later"
  have req: "request_text path hs @ ?t = ?l @ CRLF @ header_text hs @ CRLF @ ?t"
    by (simp add: request_text_def)
  have lens: "length ?l = length path + 13" "length CRLF = 2"
    "length (request_text path hs) = length path + 13 + 2 + length (header_text hs) + 2"
    by (simp_all add: request_text_def CRLF_def)
  have "find_str (CRLF @ CRLF) (?l @ CRLF @ header_text hs @ CRLF @ ?t) =
      map_option ((+) (length ?l)) (find_str (CRLF @ CRLF) (CRLF @ header_text hs @ CRLF @ ?t))"
    using find_str_skip [of "CHR 0x0D" ?l "[CHR 0x0A] @ CRLF"] plain_request_line [OF path(1)]
    unfolding plain_def CRLF_def by simp
  then show "find_str (CRLF @ CRLF) (request_text path hs @ ?t) = Some (length (request_text path hs) - 4)"
    unfolding req find_terminator [OF hs(1)] using lens by simp
  show "find_str CRLF (request_text path hs @ ?t) = Some (length path + 13)"
    unfolding req find_CRLF_plain [OF plain_request_line [OF path(1)]] using lens by simp
  show "take (length path + 13) (request_text path hs @ ?t) = ?l"
    unfolding req by (metis append_eq_conv_conj lens(1))
  have "header_loop ((?l @ CRLF) @ header_text hs @ CRLF @ ?t) (length (?l @ CRLF) + length (header_text hs) - 2)
      (length (?l @ CRLF)) Map.empty = Inr (Map.empty ++ header_map hs)"
    using hs by (intro header_loop_text) simp_all
  moreover have "length (?l @ CRLF) = length path + 13 + 2"
    "length path + 13 + 2 + length (header_text hs) - 2 = length (request_text path hs) - 4"
    by (simp_all add: lens)
  ultimately show "header_loop (request_text path hs @ ?t) (length (request_text path hs) - 4)
      (length path + 13 + 2) Map.empty = Inr (header_map hs)"
    unfolding req by (simp only: append_assoc map_add_empty empty_map_add)
qed

subsection \<open>Properties\<close>

definition allowed :: "(string \<Rightarrow> bool) option \<Rightarrow> string \<Rightarrow> bool" where
  "allowed validator origin \<longleftrightarrow> (case validator of None \<Rightarrow> True | Some valid \<Rightarrow> valid origin)"

definition origin_of :: "headers \<Rightarrow> string" where
  "origin_of h = (case h ''origin'' of None \<Rightarrow> [] | Some origin \<Rightarrow> origin)"

text \<open>C36. A well-formed upgrade is accepted: for any path without blanks, any header lines in any order
  and spelling (names without a colon, no carriage returns, no name twice), if they contain the
  required upgrade fields and the origin is allowed, the request is accepted with the matching
  \<open>Sec-WebSocket-Accept\<close>; exactly the request is consumed, and pipelined bytes after it do not
  matter as long as the total is within the limit.\<close>

theorem ParseHandshake_accepts:
  assumes "plain path" and "CHR '' '' \<notin> set path"
    and "list_all header_ok hs" and "distinct (header_names hs)"
    and "length (bytes_of_string (request_text path hs) @ later) \<le> unat mx"
    and "upgrade_headers_ok (header_map hs)" and "allowed validator (origin_of (header_map hs))"
  shows "ParseHandshake (bytes_of_string (request_text path hs) @ later) mx validator =
    \<lparr>hs_status = HsAccepted, hs_consumed = length (request_text path hs),
     hs_response = accept_response (the (header_map hs ''sec-websocket-key'')),
     hs_origin = origin_of (header_map hs), hs_error = []\<rparr>"
proof -
  note p = ParseHandshake_request [OF assms(1-5)]
  have r: "string_of_bytes (bytes_of_string (request_text path hs) @ later) = request_text path hs @ string_of_bytes later"
    by simp
  have "4 \<le> length (request_text path hs)" by (simp add: request_text_def)
  then show ?thesis
    using assms(5-7) request_line_ok_GET [OF assms(2)]
    unfolding ParseHandshake_def Let_def r p(1,2) option.case p(3,4) sum.case
    by (auto simp: hs_default_def origin_of_def allowed_def split: option.splits)
qed

theorem ParseHandshake_accepts_witness:
  "hs_status (ParseHandshake (bytes_of_string (request_text ''/live''
      [(''Host'', '' h''), (''Upgrade'', '' WebSocket''), (''connection'', ''keep-alive, Upgrade''),
       (''Sec-WebSocket-Key'', '' dGhlIHNhbXBsZSBub25jZQ==''), (''Sec-WebSocket-Version'', ''13 '')]) @ [0x82])
     8192 (Some (\<lambda>origin. origin = []))) = HsAccepted"
proof -
  let ?hs = "[(''Host'', '' h''), (''Upgrade'', '' WebSocket''), (''connection'', ''keep-alive, Upgrade''),
       (''Sec-WebSocket-Key'', '' dGhlIHNhbXBsZSBub25jZQ==''), (''Sec-WebSocket-Version'', ''13 '')]"
  have "list_all header_ok ?hs" "distinct (header_names ?hs)" "upgrade_headers_ok (header_map ?hs)"
    "origin_of (header_map ?hs) = []"
    by code_simp+
  moreover have "length (request_text ''/live'' ?hs) \<le> 8000" by code_simp
  ultimately show ?thesis
    using ParseHandshake_accepts [of "''/live''" ?hs "[0x82]" 8192 "Some (\<lambda>origin. origin = [])"]
    by (simp add: plain_def allowed_def)
qed


text \<open>C38. The decision does not depend on how the request arrives: once the parser has accepted or
  rejected the bytes received so far, the same bytes followed by any others give the same result, up
  to the header limit.\<close>

theorem ParseHandshake_stable:
  assumes "hs_status (ParseHandshake bytes mx validator) \<noteq> HsNeedMoreData"
    and "length (bytes @ later) \<le> unat mx"
  shows "ParseHandshake (bytes @ later) mx validator = ParseHandshake bytes mx validator"
proof (cases "find_str (CRLF @ CRLF) (string_of_bytes bytes)")
  case None
  with assms have False by (simp add: ParseHandshake_def hs_default_def)
  then show ?thesis ..
next
  case (Some header_end)
  from ParseHandshake_append [OF this assms(2)] show ?thesis .
qed

theorem ParseHandshake_stable_witness:
  "ParseHandshake (bytes_of_string (''POST / HTTP/1.1'' @ CRLF @ CRLF) @ [1, 2]) 100 None =
   ParseHandshake (bytes_of_string (''POST / HTTP/1.1'' @ CRLF @ CRLF)) 100 None"
proof (rule ParseHandshake_stable)
  have "hs_status (ParseHandshake (bytes_of_string (''POST / HTTP/1.1'' @ CRLF @ CRLF)) 100 None) = HsRejected"
    by code_simp
  then show "hs_status (ParseHandshake (bytes_of_string (''POST / HTTP/1.1'' @ CRLF @ CRLF)) 100 None)
      \<noteq> HsNeedMoreData" by simp
qed (simp add: CRLF_def)

end
