(* ===== verification/Server_Read.thy ===== *)
theory Server_Read
  imports Server_Write Ws_Handshake
begin

text \<open>
  The read path of \<open>IocpServer::Impl\<close> (\<open>src/core/iocp_server.cpp\<close>): accounting of buffered
  input, transport detection, the decoding loops and the delivery of messages to the application.
  The registered callbacks are the record \<open>Handlers\<close>; the message handler may change the server,
  since it may call \<open>Send\<close> and \<open>Close\<close>. The decoding loops are bounded by fuel, one more than
  the buffered bytes; running out would set \<open>srv_fault\<close>.
\<close>

record 'app Handlers =
  on_message :: "(SessionHandle \<Rightarrow> byte list \<Rightarrow> 'app Server \<Rightarrow> MessageDisposition \<times> 'app Server) option"
  on_connect :: "'app session_handler"
  on_disconnect :: "'app session_handler"

subsection \<open>Accounting\<close>

definition RecordMalformed :: "nat \<Rightarrow> 'app Server \<Rightarrow> 'app Server" where
  "RecordMalformed p s =
    count (\<lambda>m. m\<lparr>m_malformed_messages := m_malformed_messages m + 1\<rparr>)
      (set_sess p (\<lambda>c. c\<lparr>se_malformed_messages := se_malformed_messages c + 1\<rparr>) s)"

definition UpdateInboundAccounting :: "'app session_handler \<Rightarrow> nat \<Rightarrow> nat \<Rightarrow> 'app Server \<Rightarrow> 'app Server" where
  "UpdateInboundAccounting od p bytes s =
    (let accounted = unat (se_inbound_accounted (sess p s))
     in if bytes > accounted then
          let delta = of_nat (bytes - accounted);
              total = m_inbound_bytes (srv_metrics s) + delta;
              s1 = set_sess p (\<lambda>c. c\<lparr>se_inbound_accounted := of_nat bytes\<rparr>)
                     (count (\<lambda>m. m\<lparr>m_inbound_bytes := m_inbound_bytes m + delta\<rparr>) s)
          in if total > cfg_max_global_inbound_bytes (srv_config s) then Disconnect od p s1 else s1
        else if bytes < accounted then
          set_sess p (\<lambda>c. c\<lparr>se_inbound_accounted := of_nat bytes\<rparr>)
            (count (\<lambda>m. m\<lparr>m_inbound_bytes := m_inbound_bytes m - of_nat (accounted - bytes)\<rparr>) s)
        else s)"

lemma ReleaseInbound_eq: "ReleaseInbound p s = UpdateInboundAccounting od p 0 s"
  by (auto simp: ReleaseInbound_def UpdateInboundAccounting_def Let_def unat_gt_0 word_neq_0_conv)

subsection \<open>Delivery\<close>

definition CloseWith :: "'app Handlers \<Rightarrow> nat \<Rightarrow> u16 \<Rightarrow> string \<Rightarrow> 'app Server \<Rightarrow> 'app Server" where
  "CloseWith hs p code reason s = ServerClose (on_disconnect hs) (se_handle (sess p s)) code reason s"

text \<open>The rate limiter: a window of a second, and the number of messages in it.\<close>

definition rate_tick :: "int \<Rightarrow> ClientSession \<Rightarrow> ClientSession" where
  "rate_tick now c =
    (let c1 = (if now - se_rate_window_ms c \<ge> 1000
               then c\<lparr>se_rate_window_ms := now, se_rate_window_messages := 0\<rparr> else c)
     in c1\<lparr>se_rate_window_messages := se_rate_window_messages c1 + 1\<rparr>)"

definition DeliverMessage :: "'app Handlers \<Rightarrow> nat \<Rightarrow> byte list \<Rightarrow> 'app Server \<Rightarrow> bool \<times> 'app Server" where
  "DeliverMessage hs p msg s =
    (case MonotonicMilliseconds s of (now, s1) \<Rightarrow>
       let s2 = set_sess p (rate_tick now) s1
       in if se_rate_window_messages (sess p s2) > cfg_max_messages_per_second (srv_config s2)
          then (False, CloseWith hs p 1008 ''message rate limit exceeded'' s2)
          else (case on_message hs of
              None \<Rightarrow> (True, s2)
            | Some callback \<Rightarrow>
                (case callback (se_handle (sess p s2)) msg
                        (count (\<lambda>m. m\<lparr>m_received_messages := m_received_messages m + 1\<rparr>) s2) of
                   (disposition, s3) \<Rightarrow>
                     if disposition = AcceptedMessage then (True, s3)
                     else
                       let s4 = RecordMalformed p s3
                       in if disposition = CloseSession \<or>
                             se_malformed_messages (sess p s4) \<ge> cfg_malformed_message_limit (srv_config s4)
                          then (False, CloseWith hs p 1007 ''invalid application message'' s4)
                          else (True, s4))))"

subsection \<open>Raw TCP\<close>

datatype loop_exit = LoopEnded | FunctionReturned

fun raw_loop :: "'app Handlers \<Rightarrow> nat \<Rightarrow> nat \<Rightarrow> 'app Server \<Rightarrow> loop_exit \<times> 'app Server" where
  "raw_loop hs 0 p s = (FunctionReturned, fail OutOfFuel s)"
| "raw_loop hs (Suc fuel) p s =
    (if se_disconnect_started (sess p s) then (LoopEnded, s)
     else (case lpa_Next (se_raw_decoder (sess p s)) of (status, msg, d) \<Rightarrow>
       let s1 = set_sess p (\<lambda>c. c\<lparr>se_raw_decoder := d\<rparr>) s
       in if status = NeedMoreData then (LoopEnded, s1)
          else if status \<noteq> MessageReady
            then (FunctionReturned, Disconnect (on_disconnect hs) p (RecordMalformed p s1))
          else (case DeliverMessage hs p msg s1 of
              (False, s2) \<Rightarrow> (FunctionReturned, s2)
            | (True, s2) \<Rightarrow> raw_loop hs fuel p s2)))"

definition ProcessRaw :: "'app Handlers \<Rightarrow> nat \<Rightarrow> byte list \<Rightarrow> 'app Server \<Rightarrow> 'app Server" where
  "ProcessRaw hs p bytes s =
    (case lpa_Append bytes (se_raw_decoder (sess p s)) of (ok, d) \<Rightarrow>
       let s1 = set_sess p (\<lambda>c. c\<lparr>se_raw_decoder := d\<rparr>) s
       in if \<not> ok then Disconnect (on_disconnect hs) p s1
          else
            let s2 = UpdateInboundAccounting (on_disconnect hs) p (lpa_BufferedBytes d) s1
            in (case raw_loop hs (Suc (lpa_BufferedBytes d)) p s2 of
                  (FunctionReturned, s3) \<Rightarrow> s3
                | (LoopEnded, s3) \<Rightarrow>
                    UpdateInboundAccounting (on_disconnect hs) p (lpa_BufferedBytes (se_raw_decoder (sess p s3))) s3))"

subsection \<open>WebSocket\<close>

fun ws_loop :: "'app Handlers \<Rightarrow> nat \<Rightarrow> nat \<Rightarrow> 'app Server \<Rightarrow> loop_exit \<times> 'app Server" where
  "ws_loop hs 0 p s = (FunctionReturned, fail OutOfFuel s)"
| "ws_loop hs (Suc fuel) p s =
    (if se_disconnect_started (sess p s) \<or> se_state (sess p s) \<noteq> Open then (LoopEnded, s)
     else (case ws_Next (se_websocket_decoder (sess p s)) of (status, event, error, d) \<Rightarrow>
       let s1 = set_sess p (\<lambda>c. c\<lparr>se_websocket_decoder := d\<rparr>) s
       in if status = WsNeedMoreData then (LoopEnded, s1)
          else if status = MessageTooLarge \<or> status = WsBufferLimitExceeded
            then (FunctionReturned, CloseWith hs p 1009 error s1)
          else if status = ProtocolError
            then (FunctionReturned, CloseWith hs p 1002 error (RecordMalformed p s1))
          else (case ev_type event of
              BinaryMessage \<Rightarrow>
                (case DeliverMessage hs p (ev_payload event) s1 of
                   (False, s2) \<Rightarrow> (FunctionReturned, s2)
                 | (True, s2) \<Rightarrow> ws_loop hs fuel p s2)
            | PingEvent \<Rightarrow>
                ws_loop hs fuel p (SendControl (on_disconnect hs) p Pong (ev_payload event) False s1)
            | PongEvent \<Rightarrow>
                (case MonotonicMilliseconds (set_sess p (\<lambda>c. c\<lparr>se_awaiting_pong := False\<rparr>) s1) of (now, s2) \<Rightarrow>
                   ws_loop hs fuel p (set_sess p (\<lambda>c. c\<lparr>se_last_pong_ms := now\<rparr>) s2))
            | CloseEvent \<Rightarrow>
                (FunctionReturned, SendControl (on_disconnect hs) p Close (ev_payload event) True s1))))"

definition ProcessWebSocket :: "'app Handlers \<Rightarrow> nat \<Rightarrow> byte list \<Rightarrow> 'app Server \<Rightarrow> 'app Server" where
  "ProcessWebSocket hs p bytes s =
    (if se_state (sess p s) = Closing then s
     else (case ws_Append bytes (se_websocket_decoder (sess p s)) of (ok, d) \<Rightarrow>
       let s1 = set_sess p (\<lambda>c. c\<lparr>se_websocket_decoder := d\<rparr>) s
       in if \<not> ok then CloseWith hs p 1009 ''receive buffer limit exceeded'' s1
          else
            let s2 = UpdateInboundAccounting (on_disconnect hs) p (ws_BufferedBytes d) s1
            in (case ws_loop hs (Suc (ws_BufferedBytes d)) p s2 of
                  (FunctionReturned, s3) \<Rightarrow> s3
                | (LoopEnded, s3) \<Rightarrow>
                    UpdateInboundAccounting (on_disconnect hs) p
                      (ws_BufferedBytes (se_websocket_decoder (sess p s3))) s3)))"

subsection \<open>Detection\<close>

definition GetPrefix :: "byte list" where
  "GetPrefix = bytes_of_string ''GET ''"

definition possible_http :: "byte list \<Rightarrow> bool" where
  "possible_http buffer =
    (let compare_length = min (length buffer) (length GetPrefix)
     in take compare_length buffer = take compare_length GetPrefix)"

definition ProcessDetection :: "'app Handlers \<Rightarrow> nat \<Rightarrow> byte list \<Rightarrow> 'app Server \<Rightarrow> 'app Server" where
  "ProcessDetection hs p bytes s =
    (let limit = unat (cfg_max_session_inbound_bytes (srv_config s));
         old = se_detection_buffer (sess p s);
         od = on_disconnect hs
     in if length old > limit \<or> length bytes > limit - length old then Disconnect od p s
        else
          let buffer = old @ bytes;
              s1 = UpdateInboundAccounting od p (length buffer)
                     (set_sess p (\<lambda>c. c\<lparr>se_detection_buffer := buffer\<rparr>) s)
          in if \<not> possible_http buffer then
               ProcessRaw hs p buffer
                 (UpdateInboundAccounting od p 0
                   (set_sess p (\<lambda>c. c\<lparr>se_transport := RawTcp, se_state := Open, se_detection_buffer := []\<rparr>) s1))
             else if length buffer < length GetPrefix then s1
             else
               let result = ParseHandshake buffer (cfg_max_handshake_bytes (srv_config s))
                              (cfg_origin_validator (srv_config s))
               in (case hs_status result of
                     HsNeedMoreData \<Rightarrow> s1
                   | HsRejected \<Rightarrow> SendRaw od p (hs_response result) True s1
                   | HsAccepted \<Rightarrow>
                       let s2 = SendRaw od p (hs_response result) False s1;
                           remaining = (if hs_consumed result < length buffer
                                        then drop (hs_consumed result) buffer else []);
                           s3 = UpdateInboundAccounting od p 0
                                  (set_sess p (\<lambda>c. c\<lparr>se_transport := WebSocket, se_state := Open,
                                     se_detection_buffer := []\<rparr>) s2)
                       in if remaining \<noteq> [] then ProcessWebSocket hs p remaining s3 else s3))"

definition ProcessIncoming :: "'app Handlers \<Rightarrow> nat \<Rightarrow> byte list \<Rightarrow> 'app Server \<Rightarrow> 'app Server" where
  "ProcessIncoming hs p bytes s =
    (case se_transport (sess p s) of
       Detecting \<Rightarrow> ProcessDetection hs p bytes s
     | RawTcp \<Rightarrow> ProcessRaw hs p bytes s
     | WebSocket \<Rightarrow> ProcessWebSocket hs p bytes s)"

subsection \<open>Read operations\<close>

definition PostReadOp :: "nat \<Rightarrow> 'app Server \<Rightarrow> bool \<times> 'app Server" where
  "PostReadOp a s =
    (case srv_reads s ! a of
       None \<Rightarrow> (False, s)
     | Some p \<Rightarrow> (case se_socket (sess p s) of None \<Rightarrow> (False, s) | Some socket \<Rightarrow> draw s))"

definition DeleteRead :: "nat \<Rightarrow> 'app Server \<Rightarrow> 'app Server" where
  "DeleteRead a s = CompleteOperation (s\<lparr>srv_reads := (srv_reads s)[a := None]\<rparr>)"

definition PostRead :: "nat \<Rightarrow> 'app Server \<Rightarrow> bool \<times> 'app Server" where
  "PostRead p s =
    (case draw s of (allocated, s1) \<Rightarrow>
       if \<not> allocated then (False, s1)
       else
         let a = length (srv_reads s1)
         in case PostReadOp a (TrackOperation (s1\<lparr>srv_reads := srv_reads s1 @ [Some p]\<rparr>)) of
              (True, s2) \<Rightarrow> (True, s2)
            | (False, s2) \<Rightarrow> (False, DeleteRead a s2))"

definition HandleRead :: "'app Handlers \<Rightarrow> nat \<Rightarrow> bool \<Rightarrow> byte list \<Rightarrow> 'app Server \<Rightarrow> 'app Server" where
  "HandleRead hs a succeeded bytes s =
    (case srv_reads s ! a of
       None \<Rightarrow> s
     | Some p \<Rightarrow>
         if \<not> succeeded \<or> bytes = [] \<or> se_disconnect_started (sess p s)
         then DeleteRead a (Disconnect (on_disconnect hs) p s)
         else (case MonotonicMilliseconds s of (now, s1) \<Rightarrow>
           let s2 = ProcessIncoming hs p bytes (set_sess p (\<lambda>c. c\<lparr>se_last_activity_ms := now\<rparr>) s1)
           in if \<not> se_disconnect_started (sess p s2) \<and> srv_running s2 then
                (case PostReadOp a s2 of
                   (True, s3) \<Rightarrow> s3
                 | (False, s3) \<Rightarrow> DeleteRead a (Disconnect (on_disconnect hs) p s3))
              else DeleteRead a (Disconnect (on_disconnect hs) p s2)))"

end
