(* ===== verification/Server_Lifecycle.thy ===== *)
theory Server_Lifecycle
  imports Server_Read
begin

text \<open>
  The rest of \<open>IocpServer::Impl\<close> (\<open>src/core/iocp_server.cpp\<close>): construction, \<open>Initialize\<close>,
  \<open>Start\<close> and \<open>Stop\<close>, accepting connections, the timer, and the dispatch of completions in
  \<open>WorkerLoop\<close>. \<open>slot\<close> is the index of an \<open>AcceptOperation\<close> in the accept pool, which owns
  it. A socket that the program has opened and not closed is in \<open>srv_open_sockets\<close>.
\<close>

subsection \<open>Construction\<close>

definition normalized_config :: "size_t \<Rightarrow> ServerConfig \<Rightarrow> ServerConfig" where
  "normalized_config hardware_concurrency config =
    (let c1 = (if cfg_worker_count config = 0
               then config\<lparr>cfg_worker_count := max 1 hardware_concurrency\<rparr> else config)
     in c1\<lparr>cfg_accept_depth := max 1 (cfg_accept_depth c1),
           cfg_receive_buffer_bytes := max 1024 (cfg_receive_buffer_bytes c1)\<rparr>)"

definition srv_new :: "size_t \<Rightarrow> ServerConfig \<Rightarrow> (nat \<Rightarrow> bool) \<Rightarrow> (nat \<Rightarrow> int) \<Rightarrow> 'app \<Rightarrow> 'app Server" where
  "srv_new hardware_concurrency config oracle clock app =
    \<lparr>srv_config = normalized_config hardware_concurrency config, srv_sessions = sr_new, srv_store = [],
     srv_metrics = zero_metrics, srv_running = False, srv_stopping = False, srv_initialized = False,
     srv_winsock_started = False, srv_completion_port = False, srv_listen_socket = None,
     srv_accept_pool = None, srv_next_session_id = 1, srv_next_generation = 1, srv_outstanding = 0,
     srv_reads = [], srv_writes = [], srv_open_sockets = [], srv_next_socket = 0, srv_oracle = oracle,
     srv_clock = clock, srv_ticks = 0, srv_app = app, srv_fault = None, srv_accepted_log = [],
     srv_wire_log = []\<rparr>"

subsection \<open>Sockets\<close>

definition OpenSocket :: "'app Server \<Rightarrow> nat option \<times> 'app Server" where
  "OpenSocket s =
    (case draw s of (ok, s1) \<Rightarrow>
       if \<not> ok then (None, s1)
       else (Some (srv_next_socket s1),
             s1\<lparr>srv_open_sockets := srv_next_socket s1 # srv_open_sockets s1,
                srv_next_socket := Suc (srv_next_socket s1)\<rparr>))"

definition closesocket :: "nat \<Rightarrow> 'app Server \<Rightarrow> 'app Server" where
  "closesocket socket s = s\<lparr>srv_open_sockets := removeAll socket (srv_open_sockets s)\<rparr>"

subsection \<open>Accepting\<close>

definition PostAccept :: "nat \<Rightarrow> 'app Server \<Rightarrow> bool \<times> 'app Server" where
  "PostAccept slot s = draw s"

text \<open>\<open>accept_pool->Destroy(operation)\<close>; an exception would leave the worker thread.\<close>

definition DestroyAccept :: "nat \<Rightarrow> 'app Server \<Rightarrow> 'app Server" where
  "DestroyAccept slot s =
    (case srv_accept_pool s of
       None \<Rightarrow> fail NullPointer s
     | Some pool \<Rightarrow>
         (case pool_Destroy (Some (int (slot * pool_slot_size pool))) pool of
            (Inl e, pool1) \<Rightarrow> fail (Uncaught e) (s\<lparr>srv_accept_pool := Some pool1\<rparr>)
          | (Inr _, pool1) \<Rightarrow> s\<lparr>srv_accept_pool := Some pool1\<rparr>))"

definition count_rejected :: "'app Server \<Rightarrow> 'app Server" where
  "count_rejected s = count (\<lambda>m. m\<lparr>m_rejected_connections := m_rejected_connections m + 1\<rparr>) s"

definition PostNewAccept :: "'app Server \<Rightarrow> bool \<times> 'app Server" where
  "PostNewAccept s =
    (if \<not> srv_running s \<or> srv_listen_socket s = None then (False, s)
     else (case OpenSocket s of
         (None, s1) \<Rightarrow> (False, s1)
       | (Some socket, s1) \<Rightarrow>
           (case srv_accept_pool s1 of
              None \<Rightarrow> (False, fail NullPointer s1)
            | Some pool \<Rightarrow>
                (case pool_Create (Some (Some socket)) pool of
                   (Inl e, pool1) \<Rightarrow> (False, fail (Uncaught e) (s1\<lparr>srv_accept_pool := Some pool1\<rparr>))
                 | (Inr None, pool1) \<Rightarrow> (False, count_rejected (s1\<lparr>srv_accept_pool := Some pool1\<rparr>))
                 | (Inr (Some slot), pool1) \<Rightarrow>
                     (case PostAccept slot (TrackOperation (s1\<lparr>srv_accept_pool := Some pool1\<rparr>)) of
                        (True, s2) \<Rightarrow> (True, s2)
                      | (False, s2) \<Rightarrow> (False, CompleteOperation (DestroyAccept slot s2)))))))"

text \<open>A new session: its handle takes the next id and the next generation.\<close>

definition InsertSession :: "'app Handlers \<Rightarrow> nat \<Rightarrow> 'app Server \<Rightarrow> 'app Server" where
  "InsertSession hs socket s =
    (let handle = \<lparr>sh_id = srv_next_session_id s, sh_generation = srv_next_generation s\<rparr>;
         p = length (srv_store s)
     in case MonotonicMilliseconds (s\<lparr>srv_next_session_id := srv_next_session_id s + 1,
               srv_next_generation := srv_next_generation s + 1\<rparr>) of (now, s1) \<Rightarrow>
          let session = (new_session handle socket (srv_config s1) now)\<lparr>se_state := Handshaking\<rparr>;
              s2 = s1\<lparr>srv_store := srv_store s1 @ [session], srv_sessions := sr_Insert handle p (srv_sessions s1)\<rparr>;
              s3 = count (\<lambda>m. m\<lparr>m_accepted_connections := m_accepted_connections m + 1,
                     m_active_connections := m_active_connections m + 1\<rparr>) s2
          in InvokeSession (on_connect hs) handle s3)"

text \<open>The result tells whether the session took over the socket.\<close>

definition AcceptSession :: "'app Handlers \<Rightarrow> nat \<Rightarrow> 'app Server \<Rightarrow> bool \<times> 'app Server" where
  "AcceptSession hs socket s =
    (if m_active_connections (srv_metrics s) \<ge> cfg_max_connections (srv_config s) then (False, count_rejected s)
     else (case draw s of (context_updated, s1) \<Rightarrow>
       if \<not> context_updated then (False, count_rejected s1)
       else (case draw s1 of (associated, s2) \<Rightarrow>
         if \<not> associated then (False, count_rejected s2)
         else
           let p = length (srv_store s2)
           in case PostRead p (InsertSession hs socket s2) of
                (True, s3) \<Rightarrow> (True, s3)
              | (False, s3) \<Rightarrow> (True, Disconnect (on_disconnect hs) p s3))))"

text \<open>\<open>operation->socket = value\<close>.\<close>

definition set_accept_socket :: "nat \<Rightarrow> nat option \<Rightarrow> 'app Server \<Rightarrow> 'app Server" where
  "set_accept_socket slot socket s =
    (case srv_accept_pool s of
       None \<Rightarrow> fail NullPointer s
     | Some pool \<Rightarrow>
         s\<lparr>srv_accept_pool := Some (pool\<lparr>pool_slots := (pool_slots pool)[slot := Storage socket]\<rparr>)\<rparr>)"

definition accept_socket :: "nat \<Rightarrow> 'app Server \<Rightarrow> nat option" where
  "accept_socket slot s =
    (case srv_accept_pool s of
       None \<Rightarrow> None
     | Some pool \<Rightarrow> (case pool_slots pool ! slot of Storage socket \<Rightarrow> socket | _ \<Rightarrow> None))"

text \<open>The operation is posted again with a fresh socket; the result tells whether it is in flight.\<close>

definition RepostAccept :: "nat \<Rightarrow> 'app Server \<Rightarrow> bool \<times> 'app Server" where
  "RepostAccept slot s =
    (if \<not> srv_running s then (False, s)
     else (case OpenSocket s of
         (None, s1) \<Rightarrow> (False, s1)
       | (Some socket, s1) \<Rightarrow>
           (case PostAccept slot (set_accept_socket slot (Some socket) s1) of
              (True, s2) \<Rightarrow> (True, s2)
            | (False, s2) \<Rightarrow> (False, set_accept_socket slot None (closesocket socket s2)))))"

text \<open>\<open>UniqueSocket accepted\<close> closes the socket at the end unless the session took it.\<close>

definition HandleAccept :: "'app Handlers \<Rightarrow> nat \<Rightarrow> bool \<Rightarrow> 'app Server \<Rightarrow> 'app Server" where
  "HandleAccept hs slot succeeded s =
    (let accepted = accept_socket slot s;
         s1 = set_accept_socket slot None s;
         (released, s2) =
           (if succeeded \<and> srv_running s1
            then (case accepted of None \<Rightarrow> (False, count_rejected s1) | Some socket \<Rightarrow> AcceptSession hs socket s1)
            else (False, s1));
         (posted, s3) = RepostAccept slot s2;
         s4 = (if posted then s3 else CompleteOperation (DestroyAccept slot s3))
     in if released then s4 else (case accepted of None \<Rightarrow> s4 | Some socket \<Rightarrow> closesocket socket s4))"

subsection \<open>Completions\<close>

datatype completion =
    AcceptDone nat bool
  | ReadDone nat bool "byte list"
  | WriteDone nat bool nat

fun WorkerDispatch :: "'app Handlers \<Rightarrow> completion \<Rightarrow> 'app Server \<Rightarrow> 'app Server" where
  "WorkerDispatch hs (AcceptDone slot succeeded) s = HandleAccept hs slot succeeded s"
| "WorkerDispatch hs (ReadDone a succeeded bytes) s = HandleRead hs a succeeded bytes s"
| "WorkerDispatch hs (WriteDone a succeeded bytes) s = HandleWrite (on_disconnect hs) a succeeded bytes s"

subsection \<open>Timer\<close>

definition TimerCheck :: "'app session_handler \<Rightarrow> int \<Rightarrow> nat \<Rightarrow> 'app Server \<Rightarrow> 'app Server" where
  "TimerCheck od now p s =
    (let c = sess p s; config = srv_config s
     in if se_disconnect_started c then s
        else if se_state c = Handshaking \<and> now - se_connected_at_ms c > cfg_handshake_timeout config
          then Disconnect od p s
        else if se_state c = Closing \<and> now - se_close_started_ms c > cfg_close_timeout config
          then Disconnect od p s
        else if se_state c \<noteq> Open then s
        else if now - se_last_activity_ms c > cfg_idle_timeout config then Disconnect od p s
        else if se_transport c = WebSocket then
          if se_awaiting_pong c then
            if now - se_last_pong_ms c > cfg_websocket_pong_timeout config then Disconnect od p s else s
          else if now - se_last_pong_ms c > cfg_websocket_ping_interval config then
            SendControl od p Ping [] False
              (set_sess p (\<lambda>c. c\<lparr>se_awaiting_pong := True, se_last_pong_ms := now\<rparr>) s)
          else s
        else s)"

definition TimerPass :: "'app session_handler \<Rightarrow> 'app Server \<Rightarrow> 'app Server" where
  "TimerPass od s =
    (if \<not> srv_running s then s
     else (case MonotonicMilliseconds s of (now, s1) \<Rightarrow> fold (TimerCheck od now) (sr_Snapshot (srv_sessions s1)) s1))"

subsection \<open>Start and stop\<close>

definition WinsockStart :: "'app Server \<Rightarrow> bool \<times> 'app Server" where
  "WinsockStart s =
    (if srv_winsock_started s then (True, s)
     else (case draw s of (ok, s1) \<Rightarrow> (ok, s1\<lparr>srv_winsock_started := ok\<rparr>)))"

text \<open>A sequence of calls each of which may fail; the first failure ends it.\<close>

fun draws :: "nat \<Rightarrow> 'app Server \<Rightarrow> bool \<times> 'app Server" where
  "draws 0 s = (True, s)"
| "draws (Suc n) s = (case draw s of (False, s1) \<Rightarrow> (False, s1) | (True, s1) \<Rightarrow> draws n s1)"

text \<open>After the listening socket exists: \<open>setsockopt\<close>, \<open>bind\<close>, \<open>listen\<close>, the association with
  the port and the two \<open>WSAIoctl\<close> calls. On a failure the port and the socket are released.
  \<open>debug\<close> and \<open>slot_size\<close> are the build's \<open>NDEBUG\<close> setting and the size of a pool slot.\<close>

definition Initialize :: "bool \<Rightarrow> nat \<Rightarrow> 'app Server \<Rightarrow> bool \<times> 'app Server" where
  "Initialize debug slot_size s =
    (if srv_initialized s then (True, s)
     else (case WinsockStart s of
         (False, s1) \<Rightarrow> (False, s1)
       | (True, s1) \<Rightarrow>
           (case draw s1 of
              (False, s2) \<Rightarrow> (False, s2)
            | (True, s2) \<Rightarrow>
                (case OpenSocket s2 of
                   (None, s3) \<Rightarrow> (False, s3)
                 | (Some socket, s3) \<Rightarrow>
                     (case draws 6 s3 of
                        (False, s4) \<Rightarrow> (False, closesocket socket s4)
                      | (True, s4) \<Rightarrow>
                          (case pool_new debug slot_size (unat (cfg_accept_depth (srv_config s4))) of
                             Inl e \<Rightarrow> (False, fail (Uncaught e) (closesocket socket s4))
                           | Inr pool \<Rightarrow>
                               (True, s4\<lparr>srv_accept_pool := Some pool, srv_completion_port := True,
                                  srv_listen_socket := Some socket, srv_initialized := True\<rparr>)))))))"

text \<open>\<open>Stop\<close> up to its wait: no new work is accepted and every session is disconnected.\<close>

definition StopBegin :: "'app session_handler \<Rightarrow> 'app Server \<Rightarrow> 'app Server" where
  "StopBegin od s =
    (let s1 = s\<lparr>srv_running := False, srv_stopping := True\<rparr>;
         s2 = (case srv_listen_socket s1 of
                 None \<Rightarrow> s1
               | Some socket \<Rightarrow> closesocket socket (s1\<lparr>srv_listen_socket := None\<rparr>))
     in fold (Disconnect od) (sr_Snapshot (srv_sessions s2)) s2)"

text \<open>\<open>Stop\<close> after its wait for \<open>outstanding_operations == 0\<close>.\<close>

definition StopEnd :: "'app Server \<Rightarrow> 'app Server" where
  "StopEnd s = s\<lparr>srv_completion_port := False, srv_accept_pool := None, srv_initialized := False\<rparr>"

text \<open>When operations are outstanding, \<open>Stop\<close> waits and \<open>StopEnd\<close> runs as a step of its own, once
  the last of them has completed.\<close>

definition Stop :: "'app session_handler \<Rightarrow> 'app Server \<Rightarrow> 'app Server" where
  "Stop od s =
    (if \<not> srv_running s then s
     else
       let s1 = StopBegin od s
       in if srv_outstanding s1 = 0 then StopEnd s1 else s1)"

text \<open>A thread is inside that wait. \<open>Stop\<close> has closed the listening socket and not yet cleared
  \<open>initialized\<close>; a later \<open>Initialize\<close> opens a new one.\<close>

definition StopWaiting :: "'app Server \<Rightarrow> bool" where
  "StopWaiting s \<longleftrightarrow> srv_stopping s \<and> \<not> srv_running s \<and> srv_initialized s \<and> srv_listen_socket s = None"

fun PostAccepts :: "nat \<Rightarrow> 'app Server \<Rightarrow> nat \<times> 'app Server" where
  "PostAccepts 0 s = (0, s)"
| "PostAccepts (Suc n) s =
    (case PostNewAccept s of (ok, s1) \<Rightarrow>
       case PostAccepts n s1 of (posted, s2) \<Rightarrow> (if ok then Suc posted else posted, s2))"

text \<open>When a thread cannot be created or no accept could be posted, \<open>Start\<close> stops the server
  again.\<close>

definition Start :: "'app session_handler \<Rightarrow> 'app Server \<Rightarrow> bool \<times> 'app Server" where
  "Start od s =
    (if \<not> srv_initialized s \<or> srv_running s then (srv_running s, s)
     else (case draw (s\<lparr>srv_running := True, srv_stopping := False\<rparr>) of
         (False, s1) \<Rightarrow> (False, Stop od s1)
       | (True, s1) \<Rightarrow>
           (case PostAccepts (unat (cfg_accept_depth (srv_config s1))) s1 of (posted, s2) \<Rightarrow>
              if posted = 0 then (False, Stop od s2) else (True, s2))))"

end
