(* ===== verification/Server_Invariant.thy ===== *)
theory Server_Invariant
  imports Server_Lifecycle "HOL-Library.Sublist"
begin

text \<open>
  The invariant of the server and its preservation by every operation.

  \<open>queue_inv\<close> is the byte accounting of the write path, \<open>directory_inv\<close> the registry, the handles
  and the connection count, \<open>inbound_inv\<close> the accounting of buffered input, \<open>ops_inv\<close> the
  overlapped operations and \<open>log_inv\<close> the order of the bytes sent. \<open>srv_inv\<close> is all of them, and that
  nothing has gone wrong. Two parameters name the sessions in transit: \<open>st\<close> a session whose next
  write is about to start, with a flag that it has lost a message and will be disconnected, and
  \<open>sk\<close> a session whose first read is about to be posted.
\<close>

text \<open>Results \<open>(flag, state)\<close> of operations, taken apart by projections.\<close>

lemma case_bool_if: "(case b of True \<Rightarrow> x | False \<Rightarrow> y) = (if b then x else y)"
  by (cases b) simp_all

lemmas result_simps = case_prod_unfold case_bool_if Let_def

subsection \<open>Sums over the heap of operations\<close>

definition osum :: "('a \<Rightarrow> nat) \<Rightarrow> 'a option list \<Rightarrow> nat" where
  "osum f xs = sum_list (map (case_option 0 f) xs)"

lemma osum_append [simp]: "osum f (xs @ [x]) = osum f xs + case_option 0 f x"
  by (simp add: osum_def)

lemma osum_Nil [simp]: "osum f [] = 0"
  by (simp add: osum_def)

lemma osum_update:
  "i < length xs \<Longrightarrow> osum f (xs[i := y]) + case_option 0 f (xs ! i) = osum f xs + case_option 0 f y"
  unfolding osum_def by (rule sum_list_map_update)

lemma osum_update_diff:
  "i < length xs \<Longrightarrow> osum f (xs[i := y]) = osum f xs + case_option 0 f y - case_option 0 f (xs ! i)"
  using osum_update [of i xs f y] by simp

lemma osum_delete: "i < length xs \<Longrightarrow> xs ! i = Some x \<Longrightarrow> osum f (xs[i := None]) + f x = osum f xs"
  using osum_update [of i xs f None] by simp

lemma osum_member: "i < length xs \<Longrightarrow> xs ! i = Some x \<Longrightarrow> f x \<le> osum f xs"
  unfolding osum_def using elem_le_sum_list_map [of "Some x" xs "case_option 0 f"] by (metis nth_mem option.simps(5))

definition flying :: "nat \<Rightarrow> WriteOperation option list \<Rightarrow> nat" where
  "flying p ws = osum (\<lambda>w. if wo_session w = p then sc_TotalSize (wo_cursor w) else 0) ws"

definition writes_of :: "nat \<Rightarrow> WriteOperation option list \<Rightarrow> nat" where
  "writes_of p ws = osum (\<lambda>w. if wo_session w = p then 1 else 0) ws"

definition reads_of :: "nat \<Rightarrow> nat option list \<Rightarrow> nat" where
  "reads_of p rs = osum (\<lambda>q. if q = p then 1 else 0) rs"

subsection \<open>The parts of the invariant\<close>

definition sess_queue_inv :: "bool \<Rightarrow> ServerConfig \<Rightarrow> WriteOperation option list \<Rightarrow> nat \<Rightarrow> ClientSession \<Rightarrow> bool" where
  "sess_queue_inv starting config ws p c \<longleftrightarrow>
     (\<forall>item \<in> set (se_send_queue c). length (oi_header item) \<le> send_header_capacity) \<and>
     unat (se_queued_bytes c) = sum_list (map item_bytes (se_send_queue c)) + flying p ws \<and>
     unat (se_queued_bytes c) \<le> unat (cfg_max_session_queued_bytes config) \<and>
     writes_of p ws \<le> 1 \<and>
     (writes_of p ws = 1 \<longrightarrow> se_write_active c) \<and> (starting \<longrightarrow> writes_of p ws = 0) \<and>
     (if se_disconnect_started c then se_send_queue c = []
      else if starting then se_write_active c \<and> writes_of p ws = 0
      else (se_write_active c \<longleftrightarrow> writes_of p ws = 1) \<and> (se_send_queue c \<noteq> [] \<longrightarrow> se_write_active c))"

definition queue_inv :: "nat option \<Rightarrow> 'app Server \<Rightarrow> bool" where
  "queue_inv st s \<longleftrightarrow>
     (\<forall>p < length (srv_store s). sess_queue_inv (st = Some p) (srv_config s) (srv_writes s) p (srv_store s ! p)) \<and>
     unat (m_queued_bytes (srv_metrics s)) = sum_list (map (\<lambda>c. unat (se_queued_bytes c)) (srv_store s)) \<and>
     unat (m_queued_bytes (srv_metrics s)) \<le> unat (cfg_max_global_queued_bytes (srv_config s)) \<and>
     (\<forall>w. Some w \<in> set (srv_writes s) \<longrightarrow> wo_session w < length (srv_store s) \<and> sc_inv (wo_cursor w))"

definition alive :: "ClientSession \<Rightarrow> bool" where
  "alive c \<longleftrightarrow> \<not> se_disconnect_started c"

definition active :: "'app Server \<Rightarrow> nat" where
  "active s = length (filter alive (srv_store s))"

definition nth_handle :: "nat \<Rightarrow> SessionHandle" where
  "nth_handle p = \<lparr>sh_id = of_nat (Suc p), sh_generation = of_nat (Suc p)\<rparr>"

definition directory_inv :: "'app Server \<Rightarrow> bool" where
  "directory_inv s \<longleftrightarrow>
     sr_wf (srv_sessions s) \<and>
     (\<forall>key p. sr_entries (srv_sessions s) key = Some p \<longleftrightarrow>
        p < length (srv_store s) \<and> alive (srv_store s ! p) \<and> sh_id (nth_handle p) = key) \<and>
     (\<forall>p < length (srv_store s). se_handle (srv_store s ! p) = nth_handle p \<and>
        (se_socket (srv_store s ! p) = None \<longleftrightarrow> \<not> alive (srv_store s ! p))) \<and>
     srv_next_session_id s = of_nat (Suc (length (srv_store s))) \<and>
     srv_next_generation s = of_nat (Suc (length (srv_store s))) \<and>
     length (srv_store s) < 2 ^ 62 \<and>
     m_active_connections (srv_metrics s) = of_nat (active s) \<and>
     active s \<le> unat (cfg_max_connections (srv_config s))"

definition inbound_inv :: "'app Server \<Rightarrow> bool" where
  "inbound_inv s \<longleftrightarrow> m_inbound_bytes (srv_metrics s) = sum_list (map se_inbound_accounted (srv_store s))"

text \<open>The operations in flight: accepts in the pool, reads and writes on the heap.\<close>

definition accepts :: "'app Server \<Rightarrow> nat" where
  "accepts s = (case srv_accept_pool s of None \<Rightarrow> 0 | Some pool \<Rightarrow> card (live pool))"

definition in_flight :: "'app Server \<Rightarrow> nat" where
  "in_flight s = accepts s + osum (\<lambda>_. 1) (srv_reads s) + osum (\<lambda>_. 1) (srv_writes s)"

definition ops_inv :: "nat option \<Rightarrow> 'app Server \<Rightarrow> bool" where
  "ops_inv sk s \<longleftrightarrow>
     srv_outstanding s = of_nat (in_flight s) \<and>
     (case srv_accept_pool s of None \<Rightarrow> True | Some pool \<Rightarrow> pool_inv pool \<and> pool_capacity pool < 2 ^ 62) \<and>
     (\<forall>p. Some p \<in> set (srv_reads s) \<longrightarrow> p < length (srv_store s)) \<and>
     (\<forall>p < length (srv_store s). reads_of p (srv_reads s) \<le> 1 \<and>
        (if sk = Some p then reads_of p (srv_reads s) = 0
         else alive (srv_store s ! p) \<longrightarrow> reads_of p (srv_reads s) = 1))"

text \<open>The accept pool exists from \<open>Initialize\<close> to the end of \<open>Stop\<close>.\<close>

definition life_inv :: "'app Server \<Rightarrow> bool" where
  "life_inv s \<longleftrightarrow> (srv_running s \<longrightarrow> srv_initialized s) \<and> (srv_initialized s \<longleftrightarrow> srv_accept_pool s \<noteq> None)"

text \<open>What was accepted for a session is what went out, then what the write in flight still has to
  send, then what is queued. A disconnected session may have lost the end.\<close>

definition log_of :: "nat \<Rightarrow> (nat \<times> byte list) list \<Rightarrow> byte list" where
  "log_of p l = concat (map snd (filter (\<lambda>x. fst x = p) l))"

definition pending :: "nat \<Rightarrow> WriteOperation option list \<Rightarrow> byte list" where
  "pending p ws = concat (map (case_option [] (\<lambda>w. if wo_session w = p then write_buffers w else [])) ws)"

definition queue_wire :: "ClientSession \<Rightarrow> byte list" where
  "queue_wire c = concat (map item_wire (se_send_queue c))"

definition log_inv :: "(nat \<times> bool) option \<Rightarrow> 'app Server \<Rightarrow> bool" where
  "log_inv st s \<longleftrightarrow> (\<forall>p.
     (if p < length (srv_store s) \<and> alive (srv_store s ! p) \<and> st \<noteq> Some (p, True)
      then log_of p (srv_wire_log s) @ pending p (srv_writes s) @ queue_wire (srv_store s ! p) = log_of p (srv_accepted_log s)
      else prefix (log_of p (srv_wire_log s) @ pending p (srv_writes s)) (log_of p (srv_accepted_log s))) \<and>
     (length (srv_store s) \<le> p \<longrightarrow> log_of p (srv_accepted_log s) = []))"

text \<open>The length prefix of a raw frame has 32 bits, and the accept pool must fit into memory.\<close>

definition config_ok :: "ServerConfig \<Rightarrow> bool" where
  "config_ok config \<longleftrightarrow> unat (cfg_max_message_bytes config) < 2 ^ 32 \<and>
     0 < unat (cfg_accept_depth config) \<and> unat (cfg_accept_depth config) < 2 ^ 32"

definition srv_inv :: "(nat \<times> bool) option \<Rightarrow> nat option \<Rightarrow> 'app Server \<Rightarrow> bool" where
  "srv_inv st sk s \<longleftrightarrow> queue_inv (map_option fst st) s \<and> directory_inv s \<and> inbound_inv s \<and> ops_inv sk s \<and> log_inv st s \<and>
     life_inv s \<and> srv_fault s = None \<and> config_ok (srv_config s)"

subsection \<open>What the invariant does not look at\<close>

lemma map_update_same: "p < length xs \<Longrightarrow> g y = g (xs ! p) \<Longrightarrow> map g (xs[p := y]) = map g xs"
  by (metis list_update_id map_update)

lemma map_modify: "(\<And>x. g (f x) = g x) \<Longrightarrow> map g (xs[p := f (xs ! p)]) = map g xs"
  by (cases "p < length xs") (simp_all add: map_update_same list_update_beyond)

lemma length_filter_cong: "map P xs = map P ys \<Longrightarrow> length (filter P xs) = length (filter P ys)"
  by (drule arg_cong [where f = "\<lambda>bs. length (filter id bs)"]) (simp add: filter_map o_def)

lemma length_filter_modify:
  "(\<And>x. P (f x) = P x) \<Longrightarrow> length (filter P (xs[p := f (xs ! p)])) = length (filter P xs)"
proof -
  assume "\<And>x. P (f x) = P x"
  then show ?thesis by (intro length_filter_cong map_modify)
qed

lemma nth_modify: "q < length xs \<Longrightarrow> (xs[p := f (xs ! p)]) ! q = (if q = p then f (xs ! q) else xs ! q)"
  by (simp add: nth_list_update)

definition se_view where
  "se_view c = (se_handle c, se_disconnect_started c, se_socket c, se_send_queue c, se_queued_bytes c,
     se_write_active c, se_inbound_accounted c)"

lemma srv_inv_set_sess:
  assumes "\<And>c. se_view (f c) = se_view c"
  shows "srv_inv st sk (set_sess p f s) = srv_inv st sk s"
proof -
  have f: "se_handle (f c) = se_handle c" "se_disconnect_started (f c) = se_disconnect_started c"
    "se_socket (f c) = se_socket c" "se_send_queue (f c) = se_send_queue c"
    "se_queued_bytes (f c) = se_queued_bytes c" "se_write_active (f c) = se_write_active c"
    "se_inbound_accounted (f c) = se_inbound_accounted c" "alive (f c) = alive c" "queue_wire (f c) = queue_wire c" for c
    using assms [of c] by (simp_all add: se_view_def alive_def queue_wire_def)
  have sq: "sess_queue_inv b cfg ws q (f c) = sess_queue_inv b cfg ws q c" for b cfg ws q c
    by (simp add: sess_queue_inv_def f)
  let ?xs = "srv_store s" and ?ys = "(srv_store s)[p := f (srv_store s ! p)]"
  have at: "sess_queue_inv b cfg ws q (?ys ! q) = sess_queue_inv b cfg ws q (?xs ! q)"
    "alive (?ys ! q) = alive (?xs ! q)" "se_handle (?ys ! q) = se_handle (?xs ! q)"
    "se_socket (?ys ! q) = se_socket (?xs ! q)" "queue_wire (?ys ! q) = queue_wire (?xs ! q)" if "q < length ?xs" for q b cfg ws
    using that by (simp_all add: nth_modify f sq)
  have all: "map (\<lambda>c. unat (se_queued_bytes c)) ?ys = map (\<lambda>c. unat (se_queued_bytes c)) ?xs"
    "map se_inbound_accounted ?ys = map se_inbound_accounted ?xs"
    "length (filter alive ?ys) = length (filter alive ?xs)"
    by (rule map_modify, simp add: f)+ (rule length_filter_modify, simp add: f)
  show ?thesis
    unfolding srv_inv_def queue_inv_def directory_inv_def inbound_inv_def ops_inv_def life_inv_def set_sess_def
      active_def accepts_def in_flight_def
      log_inv_def
    by (simp add: at all cong: conj_cong if_cong)
qed

lemma srv_inv_count:
  assumes "\<And>m. m_queued_bytes (g m) = m_queued_bytes m" and "\<And>m. m_inbound_bytes (g m) = m_inbound_bytes m"
    and "\<And>m. m_active_connections (g m) = m_active_connections m"
  shows "srv_inv st sk (count g s) = srv_inv st sk s"
  by (simp add: srv_inv_def queue_inv_def directory_inv_def inbound_inv_def ops_inv_def life_inv_def log_inv_def count_def
      active_def accepts_def in_flight_def assms)

lemma srv_inv_fields [simp]:
  "srv_inv st sk (s\<lparr>srv_ticks := n\<rparr>) = srv_inv st sk s"
  "srv_inv st sk (s\<lparr>srv_app := x\<rparr>) = srv_inv st sk s"
  "srv_inv st sk (s\<lparr>srv_open_sockets := ks\<rparr>) = srv_inv st sk s"
  "srv_inv st sk (s\<lparr>srv_next_socket := n\<rparr>) = srv_inv st sk s"
  "srv_inv st sk (s\<lparr>srv_stopping := b\<rparr>) = srv_inv st sk s"
  "srv_inv st sk (s\<lparr>srv_winsock_started := b\<rparr>) = srv_inv st sk s"
  "srv_inv st sk (s\<lparr>srv_completion_port := b\<rparr>) = srv_inv st sk s"
  "srv_inv st sk (s\<lparr>srv_listen_socket := l2\<rparr>) = srv_inv st sk s"
  by (simp_all add: srv_inv_def queue_inv_def directory_inv_def inbound_inv_def ops_inv_def life_inv_def log_inv_def
      active_def accepts_def in_flight_def)

subsection \<open>What Disconnect does\<close>

lemma set_sess_fields [simp]:
  "srv_config (set_sess p f s) = srv_config s"
  "srv_sessions (set_sess p f s) = srv_sessions s"
  "srv_metrics (set_sess p f s) = srv_metrics s"
  "srv_running (set_sess p f s) = srv_running s"
  "srv_stopping (set_sess p f s) = srv_stopping s"
  "srv_initialized (set_sess p f s) = srv_initialized s"
  "srv_winsock_started (set_sess p f s) = srv_winsock_started s"
  "srv_completion_port (set_sess p f s) = srv_completion_port s"
  "srv_listen_socket (set_sess p f s) = srv_listen_socket s"
  "srv_accept_pool (set_sess p f s) = srv_accept_pool s"
  "srv_next_session_id (set_sess p f s) = srv_next_session_id s"
  "srv_next_generation (set_sess p f s) = srv_next_generation s"
  "srv_outstanding (set_sess p f s) = srv_outstanding s"
  "srv_reads (set_sess p f s) = srv_reads s"
  "srv_writes (set_sess p f s) = srv_writes s"
  "srv_open_sockets (set_sess p f s) = srv_open_sockets s"
  "srv_next_socket (set_sess p f s) = srv_next_socket s"
  "srv_oracle (set_sess p f s) = srv_oracle s"
  "srv_clock (set_sess p f s) = srv_clock s"
  "srv_ticks (set_sess p f s) = srv_ticks s"
  "srv_app (set_sess p f s) = srv_app s"
  "srv_fault (set_sess p f s) = srv_fault s"
  "srv_accepted_log (set_sess p f s) = srv_accepted_log s"
  "srv_wire_log (set_sess p f s) = srv_wire_log s"
  "srv_store (set_sess p f s) = (srv_store s)[p := f (srv_store s ! p)]"
  by (simp_all add: set_sess_def)

lemma count_fields [simp]:
  "srv_config (count f s) = srv_config s"
  "srv_sessions (count f s) = srv_sessions s"
  "srv_store (count f s) = srv_store s"
  "srv_running (count f s) = srv_running s"
  "srv_stopping (count f s) = srv_stopping s"
  "srv_initialized (count f s) = srv_initialized s"
  "srv_winsock_started (count f s) = srv_winsock_started s"
  "srv_completion_port (count f s) = srv_completion_port s"
  "srv_listen_socket (count f s) = srv_listen_socket s"
  "srv_accept_pool (count f s) = srv_accept_pool s"
  "srv_next_session_id (count f s) = srv_next_session_id s"
  "srv_next_generation (count f s) = srv_next_generation s"
  "srv_outstanding (count f s) = srv_outstanding s"
  "srv_reads (count f s) = srv_reads s"
  "srv_writes (count f s) = srv_writes s"
  "srv_open_sockets (count f s) = srv_open_sockets s"
  "srv_next_socket (count f s) = srv_next_socket s"
  "srv_oracle (count f s) = srv_oracle s"
  "srv_clock (count f s) = srv_clock s"
  "srv_ticks (count f s) = srv_ticks s"
  "srv_app (count f s) = srv_app s"
  "srv_fault (count f s) = srv_fault s"
  "srv_accepted_log (count f s) = srv_accepted_log s"
  "srv_wire_log (count f s) = srv_wire_log s"
  "srv_metrics (count f s) = f (srv_metrics s)"
  by (simp_all add: count_def)

lemma sess_count [simp]: "sess p (count f s) = sess p s"
  by (simp add: sess_def)

lemma sess_set_sess: "p < length (srv_store s) \<Longrightarrow> sess q (set_sess p f s) = (if q = p then f (sess p s) else sess q s)"
  by (simp add: sess_def nth_list_update)

text \<open>The pieces of \<open>Disconnect\<close>, on the parts of the state they change.\<close>

lemma no_socket: "se_socket c = None \<Longrightarrow> c\<lparr>se_socket := None\<rparr> = c"
  by simp

lemma CloseSocket_fields [simp]:
  "srv_config (CloseSocket p s) = srv_config s"
  "srv_sessions (CloseSocket p s) = srv_sessions s"
  "srv_metrics (CloseSocket p s) = srv_metrics s"
  "srv_running (CloseSocket p s) = srv_running s"
  "srv_stopping (CloseSocket p s) = srv_stopping s"
  "srv_initialized (CloseSocket p s) = srv_initialized s"
  "srv_winsock_started (CloseSocket p s) = srv_winsock_started s"
  "srv_completion_port (CloseSocket p s) = srv_completion_port s"
  "srv_listen_socket (CloseSocket p s) = srv_listen_socket s"
  "srv_accept_pool (CloseSocket p s) = srv_accept_pool s"
  "srv_next_session_id (CloseSocket p s) = srv_next_session_id s"
  "srv_next_generation (CloseSocket p s) = srv_next_generation s"
  "srv_outstanding (CloseSocket p s) = srv_outstanding s"
  "srv_reads (CloseSocket p s) = srv_reads s"
  "srv_writes (CloseSocket p s) = srv_writes s"
  "srv_next_socket (CloseSocket p s) = srv_next_socket s"
  "srv_oracle (CloseSocket p s) = srv_oracle s"
  "srv_clock (CloseSocket p s) = srv_clock s"
  "srv_ticks (CloseSocket p s) = srv_ticks s"
  "srv_app (CloseSocket p s) = srv_app s"
  "srv_fault (CloseSocket p s) = srv_fault s"
  "srv_accepted_log (CloseSocket p s) = srv_accepted_log s"
  "srv_wire_log (CloseSocket p s) = srv_wire_log s"
  "srv_store (CloseSocket p s) = (srv_store s)[p := (srv_store s ! p)\<lparr>se_socket := None\<rparr>]"
  by (simp_all add: CloseSocket_def sess_def no_socket split: option.split)

lemma no_accounted: "se_inbound_accounted c = 0 \<Longrightarrow> c\<lparr>se_inbound_accounted := 0\<rparr> = c"
  by simp

lemma ReleaseInbound_fields [simp]:
  "srv_config (ReleaseInbound p s) = srv_config s"
  "srv_sessions (ReleaseInbound p s) = srv_sessions s"
  "srv_running (ReleaseInbound p s) = srv_running s"
  "srv_stopping (ReleaseInbound p s) = srv_stopping s"
  "srv_initialized (ReleaseInbound p s) = srv_initialized s"
  "srv_winsock_started (ReleaseInbound p s) = srv_winsock_started s"
  "srv_completion_port (ReleaseInbound p s) = srv_completion_port s"
  "srv_listen_socket (ReleaseInbound p s) = srv_listen_socket s"
  "srv_accept_pool (ReleaseInbound p s) = srv_accept_pool s"
  "srv_next_session_id (ReleaseInbound p s) = srv_next_session_id s"
  "srv_next_generation (ReleaseInbound p s) = srv_next_generation s"
  "srv_outstanding (ReleaseInbound p s) = srv_outstanding s"
  "srv_reads (ReleaseInbound p s) = srv_reads s"
  "srv_writes (ReleaseInbound p s) = srv_writes s"
  "srv_open_sockets (ReleaseInbound p s) = srv_open_sockets s"
  "srv_next_socket (ReleaseInbound p s) = srv_next_socket s"
  "srv_oracle (ReleaseInbound p s) = srv_oracle s"
  "srv_clock (ReleaseInbound p s) = srv_clock s"
  "srv_ticks (ReleaseInbound p s) = srv_ticks s"
  "srv_app (ReleaseInbound p s) = srv_app s"
  "srv_fault (ReleaseInbound p s) = srv_fault s"
  "srv_accepted_log (ReleaseInbound p s) = srv_accepted_log s"
  "srv_wire_log (ReleaseInbound p s) = srv_wire_log s"
  "srv_store (ReleaseInbound p s) = (srv_store s)[p := (srv_store s ! p)\<lparr>se_inbound_accounted := 0\<rparr>]"
  "srv_metrics (ReleaseInbound p s) = (srv_metrics s)\<lparr>m_inbound_bytes := m_inbound_bytes (srv_metrics s) - se_inbound_accounted (sess p s)\<rparr>"
  by (simp_all add: ReleaseInbound_def Let_def sess_def no_accounted word_gt_0)

lemma InvokeSession_fields [simp]:
  "srv_config (InvokeSession od h s) = srv_config s"
  "srv_sessions (InvokeSession od h s) = srv_sessions s"
  "srv_store (InvokeSession od h s) = srv_store s"
  "srv_metrics (InvokeSession od h s) = srv_metrics s"
  "srv_running (InvokeSession od h s) = srv_running s"
  "srv_stopping (InvokeSession od h s) = srv_stopping s"
  "srv_initialized (InvokeSession od h s) = srv_initialized s"
  "srv_winsock_started (InvokeSession od h s) = srv_winsock_started s"
  "srv_completion_port (InvokeSession od h s) = srv_completion_port s"
  "srv_listen_socket (InvokeSession od h s) = srv_listen_socket s"
  "srv_accept_pool (InvokeSession od h s) = srv_accept_pool s"
  "srv_next_session_id (InvokeSession od h s) = srv_next_session_id s"
  "srv_next_generation (InvokeSession od h s) = srv_next_generation s"
  "srv_outstanding (InvokeSession od h s) = srv_outstanding s"
  "srv_reads (InvokeSession od h s) = srv_reads s"
  "srv_writes (InvokeSession od h s) = srv_writes s"
  "srv_open_sockets (InvokeSession od h s) = srv_open_sockets s"
  "srv_next_socket (InvokeSession od h s) = srv_next_socket s"
  "srv_oracle (InvokeSession od h s) = srv_oracle s"
  "srv_clock (InvokeSession od h s) = srv_clock s"
  "srv_ticks (InvokeSession od h s) = srv_ticks s"
  "srv_fault (InvokeSession od h s) = srv_fault s"
  "srv_accepted_log (InvokeSession od h s) = srv_accepted_log s"
  "srv_wire_log (InvokeSession od h s) = srv_wire_log s"
  by (simp_all add: InvokeSession_def split: option.split)

lemma set_sess_set_sess: "set_sess p f (set_sess p g s) = set_sess p (\<lambda>c. f (g c)) s"
  by (cases "p < length (srv_store s)") (simp_all add: set_sess_def list_update_beyond)

lemma set_sess_count: "set_sess p f (count g s) = count g (set_sess p f s)"
  by (simp add: set_sess_def count_def)

lemma count_count: "count f (count g s) = count (\<lambda>m. f (g m)) s"
  by (simp add: count_def)

lemma DropQueue_fold:
  "fold (\<lambda>item s.
      set_sess p (\<lambda>c. c\<lparr>se_queued_bytes := se_queued_bytes c - of_nat (item_bytes item)\<rparr>)
        (count (\<lambda>m. m\<lparr>m_queued_bytes := m_queued_bytes m - of_nat (item_bytes item)\<rparr>) s)) items s =
    set_sess p (\<lambda>c. c\<lparr>se_queued_bytes := se_queued_bytes c - of_nat (sum_list (map item_bytes items))\<rparr>)
      (count (\<lambda>m. m\<lparr>m_queued_bytes := m_queued_bytes m - of_nat (sum_list (map item_bytes items))\<rparr>) s)"
proof (induction items arbitrary: s)
  case Nil
  have "set_sess p (\<lambda>c. c) s = s" "count (\<lambda>m. m) s = s" for s :: "'a Server"
    by (simp_all add: set_sess_def count_def)
  then show ?case by simp
next
  case (Cons item items)
  show ?case
    unfolding fold_Cons o_apply Cons.IH by (simp add: set_sess_count count_count set_sess_set_sess diff_diff_eq)
qed

definition queue_total :: "ClientSession \<Rightarrow> nat" where
  "queue_total c = sum_list (map item_bytes (se_send_queue c))"

lemma DropQueue_eq:
  "DropQueue p s = set_sess p (\<lambda>c. c\<lparr>se_queued_bytes := se_queued_bytes c - of_nat (queue_total (sess p s)), se_send_queue := []\<rparr>)
     (count (\<lambda>m. m\<lparr>m_queued_bytes := m_queued_bytes m - of_nat (queue_total (sess p s))\<rparr>) s)"
  unfolding DropQueue_def DropQueue_fold Let_def queue_total_def by (simp add: set_sess_set_sess)

definition closed_session :: "ClientSession \<Rightarrow> ClientSession" where
  "closed_session c = c\<lparr>se_disconnect_started := True, se_state := ClosedState, se_socket := None,
     se_queued_bytes := se_queued_bytes c - of_nat (queue_total c), se_send_queue := [], se_inbound_accounted := 0\<rparr>"

lemma Disconnect_dead [simp]: "\<not> alive (sess p s) \<Longrightarrow> Disconnect od p s = s"
  by (simp add: Disconnect_def alive_def)

lemma Disconnect_alive:
  assumes "p < length (srv_store s)" and "alive (sess p s)"
  shows "srv_store (Disconnect od p s) = (srv_store s)[p := closed_session (srv_store s ! p)]"
    and "srv_metrics (Disconnect od p s) = (srv_metrics s)
      \<lparr>m_queued_bytes := m_queued_bytes (srv_metrics s) - of_nat (queue_total (sess p s)),
       m_inbound_bytes := m_inbound_bytes (srv_metrics s) - se_inbound_accounted (sess p s),
       m_active_connections := m_active_connections (srv_metrics s) - 1\<rparr>"
    and "srv_sessions (Disconnect od p s) =
      sr_Remove (deref (set_sess p (\<lambda>c. c\<lparr>se_disconnect_started := True, se_state := ClosedState\<rparr>) s))
        (se_handle (sess p s)) (srv_sessions s)"
proof -
  have live: "\<not> se_disconnect_started (sess p s)" using assms(2) by (simp add: alive_def)
  show "srv_store (Disconnect od p s) = (srv_store s)[p := closed_session (srv_store s ! p)]"
    using assms(1) live by (simp add: Disconnect_def Let_def DropQueue_eq closed_session_def queue_total_def sess_def)
  show "srv_metrics (Disconnect od p s) = (srv_metrics s)
      \<lparr>m_queued_bytes := m_queued_bytes (srv_metrics s) - of_nat (queue_total (sess p s)),
       m_inbound_bytes := m_inbound_bytes (srv_metrics s) - se_inbound_accounted (sess p s),
       m_active_connections := m_active_connections (srv_metrics s) - 1\<rparr>"
    using assms(1) live by (simp add: Disconnect_def Let_def DropQueue_eq queue_total_def sess_def)
  show "srv_sessions (Disconnect od p s) =
      sr_Remove (deref (set_sess p (\<lambda>c. c\<lparr>se_disconnect_started := True, se_state := ClosedState\<rparr>) s))
        (se_handle (sess p s)) (srv_sessions s)"
    using live by (simp add: Disconnect_def Let_def DropQueue_eq)
qed

lemma Disconnect_frame [simp]:
  "srv_config (Disconnect od p s) = srv_config s"
  "srv_writes (Disconnect od p s) = srv_writes s"
  "srv_reads (Disconnect od p s) = srv_reads s"
  "srv_outstanding (Disconnect od p s) = srv_outstanding s"
  "srv_accept_pool (Disconnect od p s) = srv_accept_pool s"
  "srv_next_session_id (Disconnect od p s) = srv_next_session_id s"
  "srv_next_generation (Disconnect od p s) = srv_next_generation s"
  "srv_fault (Disconnect od p s) = srv_fault s"
  "srv_running (Disconnect od p s) = srv_running s"
  "srv_initialized (Disconnect od p s) = srv_initialized s"
  "srv_accepted_log (Disconnect od p s) = srv_accepted_log s"
  "srv_wire_log (Disconnect od p s) = srv_wire_log s"
  "length (srv_store (Disconnect od p s)) = length (srv_store s)"
  by (simp_all add: Disconnect_def Let_def DropQueue_eq)

subsection \<open>Disconnect keeps the invariant\<close>

lemma unat_u64_less: "unat (x :: u64) < 2 ^ 64"
proof -
  have "unat x < 2 ^ LENGTH(64)" by (rule unsigned_less)
  then show ?thesis by simp
qed

lemma unat_sub_of_nat: "n \<le> unat x \<Longrightarrow> unat (x - of_nat n :: u64) = unat x - n"
proof -
  assume le: "n \<le> unat x"
  from le unat_u64_less [of x] have n: "unat (of_nat n :: u64) = n" by (simp add: unat_of_nat)
  from le n have "(of_nat n :: u64) \<le> x" by (simp add: word_le_nat_alt)
  with n show ?thesis by (simp add: unat_sub)
qed

lemma unat_add_of_nat: "unat x + n \<le> unat (y :: u64) \<Longrightarrow> unat (x + of_nat n :: u64) = unat x + n"
  using unat_add_fits [of "of_nat n" x y] unat_u64_less [of y] by (simp add: fits_iff unat_of_nat)

lemma sum_list_word_update:
  fixes f :: "'a \<Rightarrow> 'b::ab_group_add"
  assumes "i < length xs"
  shows "sum_list (map f (xs[i := y])) = sum_list (map f xs) - f (xs ! i) + f y"
  using assms
proof (induction xs arbitrary: i)
  case (Cons x xs)
  then show ?case by (cases i) (simp_all add: algebra_simps)
qed simp

lemma length_filter_sum: "length (filter P xs) = sum_list (map (\<lambda>x. if P x then 1 else 0) xs)"
  by (induction xs) simp_all

lemma length_filter_update:
  "i < length xs \<Longrightarrow> length (filter P (xs[i := y])) + (if P (xs ! i) then 1 else 0) =
     length (filter P xs) + (if P y then 1 else 0)"
  unfolding length_filter_sum using sum_list_map_update [of i xs "\<lambda>x. if P x then 1 else 0" y] by simp

lemma nth_handle_inj: "p < 2 ^ 62 \<Longrightarrow> q < 2 ^ 62 \<Longrightarrow> sh_id (nth_handle p) = sh_id (nth_handle q) \<Longrightarrow> p = q"
  by (simp add: nth_handle_def word_unat_eq_iff unat_of_nat del: of_nat_Suc)

lemma queue_inv_store:
  assumes "queue_inv st s" and "p < length (srv_store s)"
  shows "unat (se_queued_bytes (srv_store s ! p)) \<le> unat (m_queued_bytes (srv_metrics s))"
  using assms elem_le_sum_list_map [of "srv_store s ! p" "srv_store s" "\<lambda>c. unat (se_queued_bytes c)"]
  by (simp add: queue_inv_def)

lemma queue_inv_Disconnect:
  assumes inv: "queue_inv st s" and p: "p < length (srv_store s)" and st: "st = None \<or> st = Some p"
    and live: "alive (sess p s)"
  shows "queue_inv None (Disconnect od p s)"
proof -
  let ?c = "srv_store s ! p" and ?t = "queue_total (srv_store s ! p)"
  note D = Disconnect_alive [OF p live, of od]
  have sq: "sess_queue_inv (st = Some p) (srv_config s) (srv_writes s) p ?c" using inv p by (simp add: queue_inv_def)
  then have q: "unat (se_queued_bytes ?c) = ?t + flying p (srv_writes s)"
    by (simp add: sess_queue_inv_def queue_total_def)
  then have q': "unat (se_queued_bytes ?c - of_nat ?t) = flying p (srv_writes s)"
    by (simp add: unat_sub_of_nat)
  have m: "unat (m_queued_bytes (srv_metrics s) - of_nat ?t) = unat (m_queued_bytes (srv_metrics s)) - ?t"
    using queue_inv_store [OF inv p] q by (simp add: unat_sub_of_nat)
  have "sess_queue_inv False (srv_config s) (srv_writes s) p (closed_session ?c)"
    using sq q q' by (auto simp: sess_queue_inv_def closed_session_def queue_total_def)
  moreover have "sess_queue_inv False (srv_config s) (srv_writes s) r (srv_store s ! r)"
    if "r < length (srv_store s)" "r \<noteq> p" for r
    using inv st that by (auto simp: queue_inv_def)
  moreover have "unat (m_queued_bytes (srv_metrics s)) - ?t =
      sum_list (map (\<lambda>c. unat (se_queued_bytes c)) ((srv_store s)[p := closed_session ?c]))"
    using sum_list_map_update [OF p, of "\<lambda>c. unat (se_queued_bytes c)" "closed_session ?c"] inv q q'
    by (simp add: queue_inv_def closed_session_def)
  ultimately show ?thesis
    using inv m p unfolding queue_inv_def by (auto simp: D sess_def nth_list_update)
qed

lemma directory_inv_Disconnect:
  assumes inv: "directory_inv s" and p: "p < length (srv_store s)" and live: "alive (sess p s)"
  shows "directory_inv (Disconnect od p s)"
proof -
  note D = Disconnect_alive [OF p live, of od]
  let ?d = "deref (set_sess p (\<lambda>c. c\<lparr>se_disconnect_started := True, se_state := ClosedState\<rparr>) s)"
  have wf: "sr_wf (srv_sessions s)" and h: "se_handle (sess p s) = nth_handle p" "alive (srv_store s ! p)"
    and e: "sr_entries (srv_sessions s) (sh_id (nth_handle p)) = Some p"
    using inv p live by (auto simp: directory_inv_def sess_def)
  have "?d p = nth_handle p" using h p by (simp add: deref_def sess_def)
  then have "sr_Find ?d (nth_handle p) (srv_sessions s) = Some p"
    using e by (simp add: sr.find_eq [OF wf])
  then have ent: "sr_entries (srv_sessions (Disconnect od p s)) = (sr_entries (srv_sessions s))(sh_id (nth_handle p) := None)"
    by (simp add: D(3) h sr.remove_entries [OF wf])
  have wf': "sr_wf (srv_sessions (Disconnect od p s))"
    by (simp add: D(3) sr.remove_wf [OF wf])
  have bound: "length (srv_store s) < 2 ^ 62" using inv by (simp add: directory_inv_def)
  have inj: "sh_id (nth_handle r) = sh_id (nth_handle p) \<longleftrightarrow> r = p" if "r < length (srv_store s)" for r
    using nth_handle_inj [of r p] that p bound by auto
  have act: "Suc (active (Disconnect od p s)) = active s"
    using length_filter_update [OF p, of alive "closed_session (srv_store s ! p)"] h
    by (simp add: active_def D(1) closed_session_def alive_def)
  then have act': "m_active_connections (srv_metrics (Disconnect od p s)) = of_nat (active (Disconnect od p s))"
    using inv by (simp add: directory_inv_def D(2) flip: act)
  have entries: "sr_entries (srv_sessions (Disconnect od p s)) key = Some r \<longleftrightarrow>
      r < length (srv_store s) \<and> alive (srv_store (Disconnect od p s) ! r) \<and> sh_id (nth_handle r) = key" for key r
    using inv inj p unfolding directory_inv_def
    by (auto simp: ent D(1) nth_list_update closed_session_def alive_def)
  have "se_handle (srv_store (Disconnect od p s) ! r) = nth_handle r \<and>
      (se_socket (srv_store (Disconnect od p s) ! r) = None \<longleftrightarrow> \<not> alive (srv_store (Disconnect od p s) ! r))"
    if "r < length (srv_store s)" for r
    using inv that p h unfolding directory_inv_def
    by (auto simp: D(1) nth_list_update closed_session_def alive_def sess_def)
  then show ?thesis
    using inv wf' entries act act' unfolding directory_inv_def by simp
qed

lemma log_inv_Disconnect:
  assumes "log_inv st s" and p: "p < length (srv_store s)" and "map_option fst st = None \<or> map_option fst st = Some p" and "alive (sess p s)"
  shows "log_inv None (Disconnect od p s)"
  unfolding log_inv_def
proof (intro allI)
  fix q
  have q: "(if q < length (srv_store s) \<and> alive (srv_store s ! q) \<and> st \<noteq> Some (q, True)
      then log_of q (srv_wire_log s) @ pending q (srv_writes s) @ queue_wire (srv_store s ! q) = log_of q (srv_accepted_log s)
      else prefix (log_of q (srv_wire_log s) @ pending q (srv_writes s)) (log_of q (srv_accepted_log s))) \<and>
     (length (srv_store s) \<le> q \<longrightarrow> log_of q (srv_accepted_log s) = [])"
    using assms(1) by (simp add: log_inv_def)
  then have pre: "prefix (log_of q (srv_wire_log s) @ pending q (srv_writes s)) (log_of q (srv_accepted_log s))"
    by (auto simp: prefix_def split: if_splits) metis
  have "alive (srv_store (Disconnect od p s) ! q) \<Longrightarrow> q \<noteq> p \<and> srv_store (Disconnect od p s) ! q = srv_store s ! q"
    using Disconnect_alive(1) [OF p assms(4), of od] p
    by (auto simp: nth_list_update closed_session_def alive_def split: if_splits)
  with q pre assms(3) show "(if q < length (srv_store (Disconnect od p s)) \<and> alive (srv_store (Disconnect od p s) ! q) \<and> None \<noteq> Some (q, True)
      then log_of q (srv_wire_log (Disconnect od p s)) @ pending q (srv_writes (Disconnect od p s)) @
        queue_wire (srv_store (Disconnect od p s) ! q) = log_of q (srv_accepted_log (Disconnect od p s))
      else prefix (log_of q (srv_wire_log (Disconnect od p s)) @ pending q (srv_writes (Disconnect od p s)))
        (log_of q (srv_accepted_log (Disconnect od p s)))) \<and>
     (length (srv_store (Disconnect od p s)) \<le> q \<longrightarrow> log_of q (srv_accepted_log (Disconnect od p s)) = [])"
    by (auto split: if_splits)
qed

lemma Disconnect_inv [inv_intros]:
  assumes "srv_inv st sk s" and "p < length (srv_store s)" and "map_option fst st = None \<or> map_option fst st = Some p"
  shows "srv_inv None sk (Disconnect od p s)"
proof (cases "alive (sess p s)")
  case True
  note D = Disconnect_alive [OF assms(2) True, of od]
  have "inbound_inv (Disconnect od p s)"
    using assms(1,2) by (simp add: srv_inv_def inbound_inv_def D(1,2) sum_list_word_update closed_session_def sess_def)
  moreover have "life_inv (Disconnect od p s) = life_inv s" by (simp add: life_inv_def)
  moreover have "ops_inv sk (Disconnect od p s)"
    using assms(1,2) by (auto simp: srv_inv_def ops_inv_def in_flight_def accepts_def D(1) nth_list_update closed_session_def alive_def)
  ultimately show ?thesis
    using assms queue_inv_Disconnect [OF _ assms(2,3) True] directory_inv_Disconnect [OF _ assms(2) True]
      log_inv_Disconnect [OF _ assms(2,3) True]
    by (simp add: srv_inv_def)
next
  case False
  have "sess_queue_inv (map_option fst st = Some q) cfg ws q (srv_store s ! q) \<Longrightarrow> sess_queue_inv False cfg ws q (srv_store s ! q)"
    if "q < length (srv_store s)" for q cfg ws
    using False assms(3) by (auto simp: sess_queue_inv_def alive_def sess_def split: if_splits)
  then have "queue_inv None s" using assms(1) by (simp add: srv_inv_def queue_inv_def)
  moreover have "st \<noteq> Some (q, True)" if "alive (srv_store s ! q)" for q
    using False assms(3) that by (auto simp: sess_def)
  then have "log_inv st s = log_inv None s" unfolding log_inv_def by (intro iff_allI) auto
  ultimately show ?thesis using False assms(1) by (simp add: srv_inv_def)
qed

subsection \<open>Changes of one session\<close>

text \<open>The parts of the invariant other than \<open>queue_inv\<close> look only at a few fields of a session.\<close>

lemma directory_inv_cong:
  fixes s s' :: "'app Server"
  assumes "map (\<lambda>c. (se_handle c, alive c, se_socket c)) (srv_store s') = map (\<lambda>c. (se_handle c, alive c, se_socket c)) (srv_store s)"
    and "srv_sessions s' = srv_sessions s" and "srv_next_session_id s' = srv_next_session_id s"
    and "srv_next_generation s' = srv_next_generation s" and "srv_config s' = srv_config s"
    and "m_active_connections (srv_metrics s') = m_active_connections (srv_metrics s)"
  shows "directory_inv s' = directory_inv s"
proof -
  have len: "length (srv_store s') = length (srv_store s)" using arg_cong [OF assms(1), of length] by simp
  have at: "se_handle (srv_store s' ! q) = se_handle (srv_store s ! q)" "alive (srv_store s' ! q) = alive (srv_store s ! q)"
    "se_socket (srv_store s' ! q) = se_socket (srv_store s ! q)" if "q < length (srv_store s)" for q
    using arg_cong [OF assms(1), of "\<lambda>xs. xs ! q"] that len by auto
  have "map alive (srv_store s') = map alive (srv_store s)"
    using arg_cong [OF assms(1), of "map (fst \<circ> snd)"] by (simp add: o_def)
  then have act: "active s' = active s"
    unfolding active_def by (rule length_filter_cong)
  show ?thesis
    unfolding directory_inv_def act len assms(2-) by (simp add: at cong: conj_cong)
qed

lemma ops_inv_cong:
  fixes s s' :: "'app Server"
  assumes "map alive (srv_store s') = map alive (srv_store s)" and "srv_accept_pool s' = srv_accept_pool s"
    and "srv_reads s' = srv_reads s"
    and "srv_outstanding s' - of_nat (osum (\<lambda>_. 1) (srv_writes s')) = srv_outstanding s - of_nat (osum (\<lambda>_. 1) (srv_writes s))"
  shows "ops_inv sk s' = ops_inv sk s"
proof -
  have len: "length (srv_store s') = length (srv_store s)" using arg_cong [OF assms(1), of length] by simp
  have at: "alive (srv_store s' ! q) = alive (srv_store s ! q)" if "q < length (srv_store s)" for q
    using arg_cong [OF assms(1), of "\<lambda>xs. xs ! q"] that len by auto
  have out: "srv_outstanding t = of_nat (in_flight t) \<longleftrightarrow>
      srv_outstanding t - of_nat (osum (\<lambda>_. 1) (srv_writes t)) = of_nat (accepts t + osum (\<lambda>_. 1) (srv_reads t))" for t :: "'app Server"
    by (simp add: in_flight_def diff_eq_eq)
  have "accepts s' = accepts s" using assms(2) by (simp add: accepts_def)
  then have "srv_outstanding s' = of_nat (in_flight s') \<longleftrightarrow> srv_outstanding s = of_nat (in_flight s)"
    unfolding out [of s'] out [of s] using assms(3,4) by simp
  then show ?thesis unfolding ops_inv_def by (simp add: at len assms(2,3) cong: conj_cong)
qed

text \<open>One step of the write path: session \<open>p\<close> changes its queue, the global count follows, and the
  operations of the other sessions stay as they are.\<close>

lemma sess_queue_inv_cong:
  "flying p ws' = flying p ws \<Longrightarrow> writes_of p ws' = writes_of p ws \<Longrightarrow>
     sess_queue_inv b cfg ws' p c = sess_queue_inv b cfg ws p c"
  by (simp add: sess_queue_inv_def)

lemma srv_inv_queue_change:
  fixes s s' :: "'app Server"
  assumes inv: "srv_inv st sk s" and p: "p < length (srv_store s)"
    and st: "map_option fst st = None \<or> map_option fst st = Some p" "map_option fst st' = None \<or> map_option fst st' = Some p"
    and store: "srv_store s' = (srv_store s)[p := c']"
    and c': "se_handle c' = se_handle (srv_store s ! p)" "alive c' = alive (srv_store s ! p)"
      "se_socket c' = se_socket (srv_store s ! p)"
    and same: "srv_config s' = srv_config s" "srv_sessions s' = srv_sessions s" "srv_next_session_id s' = srv_next_session_id s"
      "srv_next_generation s' = srv_next_generation s" "srv_accept_pool s' = srv_accept_pool s" "srv_reads s' = srv_reads s"
      "srv_fault s' = srv_fault s" "srv_running s' = srv_running s" "srv_initialized s' = srv_initialized s" "m_active_connections (srv_metrics s') = m_active_connections (srv_metrics s)"
    and inbound: "m_inbound_bytes (srv_metrics s') - se_inbound_accounted c' =
        m_inbound_bytes (srv_metrics s) - se_inbound_accounted (srv_store s ! p)"
    and out: "srv_outstanding s' - of_nat (osum (\<lambda>_. 1) (srv_writes s')) = srv_outstanding s - of_nat (osum (\<lambda>_. 1) (srv_writes s))"
    and bytes: "unat (m_queued_bytes (srv_metrics s')) + unat (se_queued_bytes (srv_store s ! p)) =
        unat (m_queued_bytes (srv_metrics s)) + unat (se_queued_bytes c')"
      "unat (m_queued_bytes (srv_metrics s')) \<le> unat (cfg_max_global_queued_bytes (srv_config s))"
    and own: "sess_queue_inv (map_option fst st' = Some p) (srv_config s) (srv_writes s') p c'"
    and others: "\<And>q. q \<noteq> p \<Longrightarrow> flying q (srv_writes s') = flying q (srv_writes s) \<and> writes_of q (srv_writes s') = writes_of q (srv_writes s)"
    and ops: "\<And>w. Some w \<in> set (srv_writes s') \<Longrightarrow> wo_session w < length (srv_store s) \<and> sc_inv (wo_cursor w)"
    and logs: "log_inv st' s'"
  shows "srv_inv st' sk s'"
proof -
  have q: "queue_inv (map_option fst st) s" using inv by (simp add: srv_inv_def)
  have "sess_queue_inv (map_option fst st' = Some r) (srv_config s) (srv_writes s') r (srv_store s ! r)"
    if "r < length (srv_store s)" "r \<noteq> p" for r
    using q st that others [of r] sess_queue_inv_cong [of r "srv_writes s'" "srv_writes s"] by (auto simp: queue_inv_def)
  then have each: "\<forall>r < length (srv_store s'). sess_queue_inv (map_option fst st' = Some r) (srv_config s') (srv_writes s') r (srv_store s' ! r)"
    using own p by (auto simp: store same nth_list_update)
  have "unat (m_queued_bytes (srv_metrics s')) = sum_list (map (\<lambda>c. unat (se_queued_bytes c)) (srv_store s'))"
    using q bytes(1) sum_list_map_update [OF p, of "\<lambda>c. unat (se_queued_bytes c)" c'] by (simp add: queue_inv_def store)
  with each bytes(2) ops have "queue_inv (map_option fst st') s'" by (simp add: queue_inv_def same(1) store)
  moreover have m: "map (\<lambda>c. (se_handle c, alive c, se_socket c)) (srv_store s') = map (\<lambda>c. (se_handle c, alive c, se_socket c)) (srv_store s)"
    "map alive (srv_store s') = map alive (srv_store s)"
    unfolding store by (rule map_update_same [OF p], simp add: c')+
  moreover have "inbound_inv s'"
    using inv inbound by (simp add: srv_inv_def inbound_inv_def store sum_list_word_update [OF p] algebra_simps)
  moreover have "directory_inv s'" using inv directory_inv_cong [OF m(1)] same by (simp add: srv_inv_def)
  moreover have "ops_inv sk s'" using inv ops_inv_cong [OF m(2) _ _ out] same by (simp add: srv_inv_def)
  moreover have "life_inv s' = life_inv s" using same by (simp add: life_inv_def)
  ultimately show ?thesis using inv same logs by (simp add: srv_inv_def)
qed

end
