(* ===== verification/Write_Invariant.thy ===== *)
theory Write_Invariant
  imports Server_Invariant
begin

text \<open>The write path keeps the server invariant: every operation of \<open>Server_Write\<close>, on every branch.\<close>

subsection \<open>Ticks and counters\<close>

lemma tick_fields [simp]:
  "srv_config (snd (draw s)) = srv_config s"
  "srv_sessions (snd (draw s)) = srv_sessions s"
  "srv_store (snd (draw s)) = srv_store s"
  "srv_metrics (snd (draw s)) = srv_metrics s"
  "srv_running (snd (draw s)) = srv_running s"
  "srv_stopping (snd (draw s)) = srv_stopping s"
  "srv_initialized (snd (draw s)) = srv_initialized s"
  "srv_winsock_started (snd (draw s)) = srv_winsock_started s"
  "srv_completion_port (snd (draw s)) = srv_completion_port s"
  "srv_listen_socket (snd (draw s)) = srv_listen_socket s"
  "srv_accept_pool (snd (draw s)) = srv_accept_pool s"
  "srv_next_session_id (snd (draw s)) = srv_next_session_id s"
  "srv_next_generation (snd (draw s)) = srv_next_generation s"
  "srv_reads (snd (draw s)) = srv_reads s"
  "srv_writes (snd (draw s)) = srv_writes s"
  "srv_outstanding (snd (draw s)) = srv_outstanding s"
  "srv_open_sockets (snd (draw s)) = srv_open_sockets s"
  "srv_next_socket (snd (draw s)) = srv_next_socket s"
  "srv_oracle (snd (draw s)) = srv_oracle s"
  "srv_clock (snd (draw s)) = srv_clock s"
  "srv_app (snd (draw s)) = srv_app s"
  "srv_fault (snd (draw s)) = srv_fault s"
  "srv_accepted_log (snd (draw s)) = srv_accepted_log s"
  "srv_wire_log (snd (draw s)) = srv_wire_log s"
  "srv_config (snd (MonotonicMilliseconds s)) = srv_config s"
  "srv_sessions (snd (MonotonicMilliseconds s)) = srv_sessions s"
  "srv_store (snd (MonotonicMilliseconds s)) = srv_store s"
  "srv_metrics (snd (MonotonicMilliseconds s)) = srv_metrics s"
  "srv_running (snd (MonotonicMilliseconds s)) = srv_running s"
  "srv_stopping (snd (MonotonicMilliseconds s)) = srv_stopping s"
  "srv_initialized (snd (MonotonicMilliseconds s)) = srv_initialized s"
  "srv_winsock_started (snd (MonotonicMilliseconds s)) = srv_winsock_started s"
  "srv_completion_port (snd (MonotonicMilliseconds s)) = srv_completion_port s"
  "srv_listen_socket (snd (MonotonicMilliseconds s)) = srv_listen_socket s"
  "srv_accept_pool (snd (MonotonicMilliseconds s)) = srv_accept_pool s"
  "srv_next_session_id (snd (MonotonicMilliseconds s)) = srv_next_session_id s"
  "srv_next_generation (snd (MonotonicMilliseconds s)) = srv_next_generation s"
  "srv_reads (snd (MonotonicMilliseconds s)) = srv_reads s"
  "srv_writes (snd (MonotonicMilliseconds s)) = srv_writes s"
  "srv_outstanding (snd (MonotonicMilliseconds s)) = srv_outstanding s"
  "srv_open_sockets (snd (MonotonicMilliseconds s)) = srv_open_sockets s"
  "srv_next_socket (snd (MonotonicMilliseconds s)) = srv_next_socket s"
  "srv_oracle (snd (MonotonicMilliseconds s)) = srv_oracle s"
  "srv_clock (snd (MonotonicMilliseconds s)) = srv_clock s"
  "srv_app (snd (MonotonicMilliseconds s)) = srv_app s"
  "srv_fault (snd (MonotonicMilliseconds s)) = srv_fault s"
  "srv_accepted_log (snd (MonotonicMilliseconds s)) = srv_accepted_log s"
  "srv_wire_log (snd (MonotonicMilliseconds s)) = srv_wire_log s"
  by (simp_all add: draw_def MonotonicMilliseconds_def)

lemma tick_inv [simp]:
  "srv_inv st sk (snd (draw s)) = srv_inv st sk s"
  "srv_inv st sk (snd (MonotonicMilliseconds s)) = srv_inv st sk s"
  by (simp_all add: draw_def MonotonicMilliseconds_def)

lemma sess_tick [simp]: "sess p (snd (draw s)) = sess p s" "sess p (snd (MonotonicMilliseconds s)) = sess p s"
  by (simp_all add: sess_def)

lemma send_failure_inv [simp]: "srv_inv st sk (send_failure s) = srv_inv st sk s"
  unfolding send_failure_def by (rule srv_inv_count) simp_all

lemma count_store [simp]:
  "srv_store (send_failure s) = srv_store s" "srv_store (ReleaseGlobalQueued n s) = srv_store s"
  by (simp_all add: send_failure_def ReleaseGlobalQueued_def)

subsection \<open>What the write path leaves alone\<close>

text \<open>No operation of the write path touches the decoders, the handle or the transport of any session,
  creates a session or revives one.\<close>

definition in_view where
  "in_view c = (se_handle c, se_raw_decoder c, se_websocket_decoder c, se_detection_buffer c, se_transport c)"

definition keeps :: "'app Server \<Rightarrow> 'app Server \<Rightarrow> bool" where
  "keeps s s' \<longleftrightarrow> list_all2 (\<lambda>c c'. in_view c' = in_view c \<and> (alive c' \<longrightarrow> alive c)) (srv_store s) (srv_store s') \<and>
     srv_config s' = srv_config s \<and> srv_running s' = srv_running s \<and> srv_reads s' = srv_reads s"

named_theorems keeps_intros \<open>operations that keep the input side of every session\<close>

lemma keeps_refl [simp]: "keeps s s"
  by (simp add: keeps_def list_all2_conv_all_nth)

lemma keeps_trans [trans]: "keeps s t \<Longrightarrow> keeps t u \<Longrightarrow> keeps s u"
  by (auto simp: keeps_def list_all2_conv_all_nth)

lemma keepsD:
  assumes "keeps s t"
  shows "length (srv_store t) = length (srv_store s)" and "srv_config t = srv_config s" and "srv_running t = srv_running s"
    and "srv_reads t = srv_reads s" and "p < length (srv_store s) \<Longrightarrow> in_view (sess p t) = in_view (sess p s)"
    and "p < length (srv_store s) \<Longrightarrow> alive (sess p t) \<Longrightarrow> alive (sess p s)"
  using assms by (auto simp: keeps_def list_all2_conv_all_nth sess_def)

lemma keeps_same:
  "keeps s t \<Longrightarrow> srv_store u = srv_store t \<Longrightarrow> srv_config u = srv_config t \<Longrightarrow> srv_running u = srv_running t \<Longrightarrow>
     srv_reads u = srv_reads t \<Longrightarrow> keeps s u"
  by (simp add: keeps_def)

lemma keeps_set_sess:
  assumes "keeps s t" and "\<And>c. in_view (f c) = in_view c" and "\<And>c. alive (f c) \<Longrightarrow> alive c"
  shows "keeps s (set_sess p f t)"
proof (rule keeps_trans [OF assms(1)])
  show "keeps t (set_sess p f t)" using assms(2,3) by (auto simp: keeps_def list_all2_conv_all_nth nth_modify)
qed

lemma keeps_basic [keeps_intros]:
  "keeps s t \<Longrightarrow> keeps s (count g t)" "keeps s t \<Longrightarrow> keeps s (send_failure t)" "keeps s t \<Longrightarrow> keeps s (ReleaseGlobalQueued n t)"
  "keeps s t \<Longrightarrow> keeps s (snd (draw t))" "keeps s t \<Longrightarrow> keeps s (snd (MonotonicMilliseconds t))"
  "keeps s t \<Longrightarrow> keeps s (TrackOperation t)" "keeps s t \<Longrightarrow> keeps s (CompleteOperation t)" "keeps s t \<Longrightarrow> keeps s (fail e t)"
  "keeps s t \<Longrightarrow> keeps s (t\<lparr>srv_writes := ws\<rparr>)" "keeps s t \<Longrightarrow> keeps s (t\<lparr>srv_accepted_log := l\<rparr>)"
  "keeps s t \<Longrightarrow> keeps s (t\<lparr>srv_wire_log := l\<rparr>)"
  "keeps s t \<Longrightarrow> keeps s (snd (ReserveGlobalQueued n t))" "keeps s t \<Longrightarrow> keeps s (snd (PostWrite a t))"
  by (erule keeps_same;
      simp add: send_failure_def ReleaseGlobalQueued_def TrackOperation_def CompleteOperation_def fail_def
        ReserveGlobalQueued_def PostWrite_def Let_def split: option.split)+

lemma keeps_Disconnect [keeps_intros]: "keeps s t \<Longrightarrow> keeps s (Disconnect od p t)"
proof (erule keeps_trans)
  have "list_all2 (\<lambda>c c'. in_view c' = in_view c \<and> (alive c' \<longrightarrow> alive c)) (srv_store t) (srv_store (Disconnect od p t))"
  proof (cases "p < length (srv_store t) \<and> alive (sess p t)")
    case True
    then show ?thesis
      by (simp add: Disconnect_alive list_all2_conv_all_nth nth_list_update closed_session_def in_view_def alive_def)
  next
    case False
    have "srv_store (Disconnect od p t) = srv_store t" if "length (srv_store t) \<le> p"
      using that by (simp add: Disconnect_def Let_def DropQueue_eq list_update_beyond)
    with False have "srv_store (Disconnect od p t) = srv_store t" by (cases "alive (sess p t)") (simp_all add: not_less)
    then show ?thesis by (simp add: list_all2_conv_all_nth)
  qed
  then show "keeps t (Disconnect od p t)" by (simp add: keeps_def)
qed

lemma keeps_SettleWrite [keeps_intros]: "keeps s t \<Longrightarrow> keeps s (SettleWrite a ok t)"
  by (auto simp: SettleWrite_def Let_def in_view_def alive_def split: option.split intro!: keeps_intros keeps_set_sess)

lemma keeps_StartNextWrite [keeps_intros]: "keeps s t \<Longrightarrow> keeps s (StartNextWrite od p t)"
  by (auto simp: StartNextWrite_def result_simps in_view_def alive_def split: list.split sum.split intro!: keeps_intros keeps_set_sess)

lemma keeps_FinishWrite [keeps_intros]: "keeps s t \<Longrightarrow> keeps s (FinishWrite od a ok t)"
  by (auto simp: FinishWrite_def Let_def split: option.split intro!: keeps_intros)

lemma keeps_HandleWrite [keeps_intros]: "keeps s t \<Longrightarrow> keeps s (HandleWrite od a ok n t)"
  by (auto simp: HandleWrite_def result_simps split: option.split intro!: keeps_intros)

lemma keeps_Enqueue [keeps_intros]: "keeps s t \<Longrightarrow> keeps s (snd (Enqueue od p item t))"
  by (auto simp: Enqueue_def result_simps in_view_def alive_def intro!: keeps_intros keeps_set_sess)

lemma keeps_enqueue_or_close [keeps_intros]: "keeps s t \<Longrightarrow> keeps s (enqueue_or_close od p item t)"
  by (auto simp: enqueue_or_close_def result_simps intro!: keeps_intros)

lemma keeps_SendControl [keeps_intros]: "keeps s t \<Longrightarrow> keeps s (SendControl od p opcode payload k t)"
  by (auto simp: SendControl_def result_simps in_view_def alive_def intro!: keeps_intros keeps_set_sess)

lemma keeps_SendRaw [keeps_intros]: "keeps s t \<Longrightarrow> keeps s (SendRaw od p response k t)"
  by (auto simp: SendRaw_def intro!: keeps_intros)

lemma keeps_ServerSend [keeps_intros]: "keeps s t \<Longrightarrow> keeps s (snd (ServerSend od h b t))"
  by (auto simp: ServerSend_def split: option.split TransportKind.split sum.split intro!: keeps_intros)

lemma keeps_ServerClose [keeps_intros]: "keeps s t \<Longrightarrow> keeps s (ServerClose od h code reason t)"
  by (auto simp: ServerClose_def Let_def split: option.split intro!: keeps_intros)

lemmas keeps_length [simp] =
  keepsD(1) [OF keeps_SettleWrite [OF keeps_refl]] keepsD(1) [OF keeps_StartNextWrite [OF keeps_refl]]
  keepsD(1) [OF keeps_FinishWrite [OF keeps_refl]] keepsD(1) [OF keeps_HandleWrite [OF keeps_refl]]
  keepsD(1) [OF keeps_Enqueue [OF keeps_refl]] keepsD(1) [OF keeps_enqueue_or_close [OF keeps_refl]]
  keepsD(1) [OF keeps_SendControl [OF keeps_refl]] keepsD(1) [OF keeps_SendRaw [OF keeps_refl]]
  keepsD(1) [OF keeps_ServerSend [OF keeps_refl]] keepsD(1) [OF keeps_ServerClose [OF keeps_refl]]

subsection \<open>Settling a write\<close>

lemma SettleWrite_fields [simp]:
  "srv_config (SettleWrite a ok s) = srv_config s"
  "srv_sessions (SettleWrite a ok s) = srv_sessions s"
  "srv_running (SettleWrite a ok s) = srv_running s"
  "srv_stopping (SettleWrite a ok s) = srv_stopping s"
  "srv_initialized (SettleWrite a ok s) = srv_initialized s"
  "srv_winsock_started (SettleWrite a ok s) = srv_winsock_started s"
  "srv_completion_port (SettleWrite a ok s) = srv_completion_port s"
  "srv_listen_socket (SettleWrite a ok s) = srv_listen_socket s"
  "srv_accept_pool (SettleWrite a ok s) = srv_accept_pool s"
  "srv_next_session_id (SettleWrite a ok s) = srv_next_session_id s"
  "srv_next_generation (SettleWrite a ok s) = srv_next_generation s"
  "srv_reads (SettleWrite a ok s) = srv_reads s"
  "srv_open_sockets (SettleWrite a ok s) = srv_open_sockets s"
  "srv_next_socket (SettleWrite a ok s) = srv_next_socket s"
  "srv_oracle (SettleWrite a ok s) = srv_oracle s"
  "srv_clock (SettleWrite a ok s) = srv_clock s"
  "srv_ticks (SettleWrite a ok s) = srv_ticks s"
  "srv_app (SettleWrite a ok s) = srv_app s"
  "srv_fault (SettleWrite a ok s) = srv_fault s"
  "srv_accepted_log (SettleWrite a ok s) = srv_accepted_log s"
  "srv_wire_log (SettleWrite a ok s) = srv_wire_log s"
  by (simp_all add: SettleWrite_def ReleaseGlobalQueued_def send_failure_def CompleteOperation_def Let_def split: option.split)

lemma SettleWrite_changes:
  assumes "srv_writes s ! a = Some w"
  shows "srv_writes (SettleWrite a ok s) = (srv_writes s)[a := None]"
    and "srv_outstanding (SettleWrite a ok s) = srv_outstanding s - 1"
    and "m_inbound_bytes (srv_metrics (SettleWrite a ok s)) = m_inbound_bytes (srv_metrics s)"
    and "m_active_connections (srv_metrics (SettleWrite a ok s)) = m_active_connections (srv_metrics s)"
    and "m_queued_bytes (srv_metrics (SettleWrite a ok s)) = m_queued_bytes (srv_metrics s) - of_nat (sc_TotalSize (wo_cursor w))"
    and "srv_store (SettleWrite a ok s) = (srv_store s)[wo_session w := (srv_store s ! wo_session w)
      \<lparr>se_queued_bytes := (if sc_TotalSize (wo_cursor w) > unat (se_queued_bytes (srv_store s ! wo_session w)) then 0
         else se_queued_bytes (srv_store s ! wo_session w) - of_nat (sc_TotalSize (wo_cursor w)))\<rparr>]"
  using assms
  by (simp_all add: SettleWrite_def ReleaseGlobalQueued_def send_failure_def CompleteOperation_def Let_def)

lemma flight_update:
  assumes "a < length ws" and "ws ! a = Some w"
  shows "flying (wo_session w) (ws[a := None]) + sc_TotalSize (wo_cursor w) = flying (wo_session w) ws"
    and "Suc (writes_of (wo_session w) (ws[a := None])) = writes_of (wo_session w) ws"
    and "Suc (osum (\<lambda>_. 1) (ws[a := None])) = osum (\<lambda>_. 1) ws"
    and "q \<noteq> wo_session w \<Longrightarrow> flying q (ws[a := None]) = flying q ws"
    and "q \<noteq> wo_session w \<Longrightarrow> writes_of q (ws[a := None]) = writes_of q ws"
proof -
  note del = osum_delete [OF assms]
  show "flying (wo_session w) (ws[a := None]) + sc_TotalSize (wo_cursor w) = flying (wo_session w) ws"
    using del [of "\<lambda>v. if wo_session v = wo_session w then sc_TotalSize (wo_cursor v) else 0"] by (simp add: flying_def)
  show "Suc (writes_of (wo_session w) (ws[a := None])) = writes_of (wo_session w) ws"
    using del [of "\<lambda>v. if wo_session v = wo_session w then 1 else 0"] by (simp add: writes_of_def)
  show "Suc (osum (\<lambda>_. 1) (ws[a := None])) = osum (\<lambda>_. 1) ws" using del [of "\<lambda>_. 1"] by simp
  show "flying q (ws[a := None]) = flying q ws" if "q \<noteq> wo_session w"
    using del [of "\<lambda>v. if wo_session v = q then sc_TotalSize (wo_cursor v) else 0"] that by (simp add: flying_def)
  show "writes_of q (ws[a := None]) = writes_of q ws" if "q \<noteq> wo_session w"
    using del [of "\<lambda>v. if wo_session v = q then 1 else 0"] that by (simp add: writes_of_def)
qed

text \<open>The bytes a session still has in flight.\<close>

lemma pending_append [simp]: "pending p (ws @ vs) = pending p ws @ pending p vs"
  by (simp add: pending_def)

lemma pending_Cons: "pending p (x # ws) = (case x of None \<Rightarrow> [] | Some w \<Rightarrow> if wo_session w = p then write_buffers w else []) @ pending p ws"
  by (simp add: pending_def)

lemma writes_of_append: "writes_of p (ws @ vs) = writes_of p ws + writes_of p vs"
  by (simp add: writes_of_def osum_def)

lemma writes_of_Cons: "writes_of p (x # ws) = (case x of None \<Rightarrow> 0 | Some w \<Rightarrow> if wo_session w = p then 1 else 0) + writes_of p ws"
  by (simp add: writes_of_def osum_def)

lemma pending_Nil [simp]: "pending p [] = []"
  by (simp add: pending_def)

lemma pending_zero: "writes_of p ws = 0 \<Longrightarrow> pending p ws = []"
  by (induction ws) (auto simp: pending_Cons writes_of_Cons split: option.splits if_splits)

lemma pending_update:
  assumes a: "a < length ws" "ws ! a = Some w" and "writes_of (wo_session w) ws \<le> 1"
    and y: "case y of None \<Rightarrow> True | Some v \<Rightarrow> wo_session v = wo_session w"
  shows "pending (wo_session w) ws = write_buffers w"
    and "pending (wo_session w) (ws[a := y]) = (case y of None \<Rightarrow> [] | Some v \<Rightarrow> write_buffers v)"
    and "q \<noteq> wo_session w \<Longrightarrow> pending q (ws[a := y]) = pending q ws"
proof -
  have ws: "ws = take a ws @ Some w # drop (Suc a) ws" using a by (metis id_take_nth_drop)
  have "writes_of (wo_session w) ws = writes_of (wo_session w) (take a ws) + Suc (writes_of (wo_session w) (drop (Suc a) ws))"
    using arg_cong [OF ws, of "writes_of (wo_session w)"] by (simp add: writes_of_append writes_of_Cons)
  with assms(3) have "writes_of (wo_session w) (take a ws) = 0 \<and> writes_of (wo_session w) (drop (Suc a) ws) = 0" by simp
  then have zero: "pending (wo_session w) (take a ws) = []" "pending (wo_session w) (drop (Suc a) ws) = []"
    by (simp_all add: pending_zero)
  have upd: "ws[a := y] = take a ws @ y # drop (Suc a) ws" using a(1) by (rule upd_conv_take_nth_drop)
  show "pending (wo_session w) ws = write_buffers w" by (subst ws) (simp add: pending_Cons zero)
  show "pending (wo_session w) (ws[a := y]) = (case y of None \<Rightarrow> [] | Some v \<Rightarrow> write_buffers v)"
    using y by (simp add: upd pending_Cons zero split: option.splits)
  show "pending q (ws[a := y]) = pending q ws" if "q \<noteq> wo_session w"
    using y that arg_cong [OF ws, of "pending q"] by (auto simp: upd pending_Cons split: option.splits)
qed

lemma log_of_append [simp]: "log_of p (l @ [(q, bs)]) = log_of p l @ (if q = p then bs else [])"
  by (simp add: log_of_def)

lemma log_inv_own:
  assumes "log_inv st s" and "p < length (srv_store s)"
  shows "if alive (srv_store s ! p) \<and> st \<noteq> Some (p, True)
    then log_of p (srv_wire_log s) @ pending p (srv_writes s) @ queue_wire (srv_store s ! p) = log_of p (srv_accepted_log s)
    else prefix (log_of p (srv_wire_log s) @ pending p (srv_writes s)) (log_of p (srv_accepted_log s))"
  using assms by (auto simp: log_inv_def)

lemma log_inv_prefix:
  assumes "log_inv st s" and "p < length (srv_store s)"
  shows "prefix (log_of p (srv_wire_log s) @ pending p (srv_writes s)) (log_of p (srv_accepted_log s))"
proof (cases "alive (srv_store s ! p) \<and> st \<noteq> Some (p, True)")
  case True
  with log_inv_own [OF assms] have "log_of p (srv_accepted_log s) =
      (log_of p (srv_wire_log s) @ pending p (srv_writes s)) @ queue_wire (srv_store s ! p)" by simp
  then show ?thesis by (rule prefixI)
next
  case False
  then show ?thesis using log_inv_own [OF assms] by (simp add: if_not_P)
qed

lemma log_inv_change:
  assumes inv: "log_inv st s" and p: "p < length (srv_store s)"
    and st: "map_option fst st = None \<or> map_option fst st = Some p" "map_option fst st' = None \<or> map_option fst st' = Some p"
    and store: "srv_store s' = (srv_store s)[p := c']" and live: "alive c' = alive (srv_store s ! p)"
    and others: "\<And>q. q \<noteq> p \<Longrightarrow> log_of q (srv_wire_log s') = log_of q (srv_wire_log s) \<and>
        log_of q (srv_accepted_log s') = log_of q (srv_accepted_log s) \<and> pending q (srv_writes s') = pending q (srv_writes s)"
    and own: "if alive (srv_store s ! p) \<and> st' \<noteq> Some (p, True)
      then log_of p (srv_wire_log s') @ pending p (srv_writes s') @ queue_wire c' = log_of p (srv_accepted_log s')
      else prefix (log_of p (srv_wire_log s') @ pending p (srv_writes s')) (log_of p (srv_accepted_log s'))"
  shows "log_inv st' s'"
  unfolding log_inv_def
proof (intro allI)
  fix q
  have "(st \<noteq> Some (q, True)) = (st' \<noteq> Some (q, True))" if "q \<noteq> p" using st that by auto
  then show "(if q < length (srv_store s') \<and> alive (srv_store s' ! q) \<and> st' \<noteq> Some (q, True)
      then log_of q (srv_wire_log s') @ pending q (srv_writes s') @ queue_wire (srv_store s' ! q) = log_of q (srv_accepted_log s')
      else prefix (log_of q (srv_wire_log s') @ pending q (srv_writes s')) (log_of q (srv_accepted_log s'))) \<and>
     (length (srv_store s') \<le> q \<longrightarrow> log_of q (srv_accepted_log s') = [])"
    using inv [unfolded log_inv_def, rule_format, of q] p own live others [of q]
    by (cases "q = p") (simp_all add: store nth_list_update split: if_splits)
qed

lemma srv_inv_session:
  assumes "srv_inv st sk s" and "p < length (srv_store s)"
  shows "sess_queue_inv (map_option fst st = Some p) (srv_config s) (srv_writes s) p (srv_store s ! p)"
    and "unat (se_queued_bytes (srv_store s ! p)) \<le> unat (m_queued_bytes (srv_metrics s))"
    and "unat (m_queued_bytes (srv_metrics s)) \<le> unat (cfg_max_global_queued_bytes (srv_config s))"
    and "log_inv st s"
  using assms queue_inv_store [of "map_option fst st" s p] by (simp_all add: srv_inv_def) (simp_all add: queue_inv_def)

lemma srv_inv_write:
  assumes "srv_inv st sk s" and "Some w \<in> set (srv_writes s)"
  shows "wo_session w < length (srv_store s)" and "sc_inv (wo_cursor w)"
  using assms by (auto simp: srv_inv_def queue_inv_def)

lemma SettleWrite_inv:
  assumes inv: "srv_inv None sk s" and a: "a < length (srv_writes s)" "srv_writes s ! a = Some w"
  shows "srv_inv (Some (wo_session w, write_buffers w \<noteq> [])) sk (SettleWrite a ok s)"
proof -
  let ?p = "wo_session w" and ?T = "sc_TotalSize (wo_cursor w)" and ?ws = "(srv_writes s)[a := None]"
  let ?c = "srv_store s ! ?p"
  note S = SettleWrite_changes [OF a(2), of ok] and f = flight_update [OF a]
  have "Some w \<in> set (srv_writes s)" using a by (metis nth_mem)
  then have p: "?p < length (srv_store s)" by (rule srv_inv_write [OF inv])
  note sq = srv_inv_session [OF inv p]
  then have T: "?T \<le> unat (se_queued_bytes ?c)" using f(1) by (simp add: sess_queue_inv_def)
  then have q: "unat (se_queued_bytes ?c - of_nat ?T) = unat (se_queued_bytes ?c) - ?T" by (rule unat_sub_of_nat)
  have m: "unat (m_queued_bytes (srv_metrics s) - of_nat ?T) = unat (m_queued_bytes (srv_metrics s)) - ?T"
    using sq T by (simp add: unat_sub_of_nat)
  let ?c' = "?c\<lparr>se_queued_bytes := se_queued_bytes ?c - of_nat ?T\<rparr>"
  show ?thesis
  proof (rule srv_inv_queue_change [OF inv p, where c' = ?c'])
    show "srv_store (SettleWrite a ok s) = (srv_store s)[?p := ?c']" using T by (simp add: S)
    show "log_inv (Some (?p, write_buffers w \<noteq> [])) (SettleWrite a ok s)"
    proof (rule log_inv_change [OF sq(4) p, where c' = ?c'])
      have "writes_of ?p (srv_writes s) \<le> 1" using sq(1) by (simp add: sess_queue_inv_def)
      note pend = pending_update [OF a this, of None, simplified]
      show "if alive ?c \<and> Some (?p, write_buffers w \<noteq> []) \<noteq> Some (?p, True)
        then log_of ?p (srv_wire_log (SettleWrite a ok s)) @ pending ?p (srv_writes (SettleWrite a ok s)) @ queue_wire ?c' =
          log_of ?p (srv_accepted_log (SettleWrite a ok s))
        else prefix (log_of ?p (srv_wire_log (SettleWrite a ok s)) @ pending ?p (srv_writes (SettleWrite a ok s)))
          (log_of ?p (srv_accepted_log (SettleWrite a ok s)))"
        using log_inv_own [OF sq(4) p] append_prefixD [OF log_inv_prefix [OF sq(4) p]] pend(1,2)
        by (auto simp: S queue_wire_def split: if_splits)
      show "log_of q (srv_wire_log (SettleWrite a ok s)) = log_of q (srv_wire_log s) \<and>
          log_of q (srv_accepted_log (SettleWrite a ok s)) = log_of q (srv_accepted_log s) \<and>
          pending q (srv_writes (SettleWrite a ok s)) = pending q (srv_writes s)" if "q \<noteq> ?p" for q
        using pend(3) that by (simp add: S)
    qed (use T in \<open>simp_all add: S alive_def\<close>)
    show "sess_queue_inv (map_option fst (Some (?p, write_buffers w \<noteq> [])) = Some ?p) (srv_config s)
        (srv_writes (SettleWrite a ok s)) ?p ?c'"
      using sq f(1,2) q by (auto simp: S sess_queue_inv_def split: if_splits)
    show "wo_session v < length (srv_store s) \<and> sc_inv (wo_cursor v)" if "Some v \<in> set (srv_writes (SettleWrite a ok s))" for v
      using that srv_inv_write [OF inv, of v] set_update_subset_insert [of "srv_writes s" a None] by (auto simp: S)
    show "flying r (srv_writes (SettleWrite a ok s)) = flying r (srv_writes s) \<and>
        writes_of r (srv_writes (SettleWrite a ok s)) = writes_of r (srv_writes s)" if "r \<noteq> ?p" for r
      using f(4,5) that by (simp add: S)
    show "srv_outstanding (SettleWrite a ok s) - of_nat (osum (\<lambda>_. 1) (srv_writes (SettleWrite a ok s))) =
        srv_outstanding s - of_nat (osum (\<lambda>_. 1) (srv_writes s))"
      using arg_cong [OF f(3), of "of_nat :: nat \<Rightarrow> size_t"] by (simp add: S algebra_simps)
  qed (use sq T q m in \<open>simp_all add: S alive_def\<close>)
qed

subsection \<open>Starting the next write\<close>

lemma PostWrite_inv [simp]: "srv_inv st sk (snd (PostWrite a s)) = srv_inv st sk s"
  by (simp add: PostWrite_def split: option.split)

lemma PostWrite_fields [simp]:
  "srv_store (snd (PostWrite a s)) = srv_store s" "srv_writes (snd (PostWrite a s)) = srv_writes s"
  "srv_config (snd (PostWrite a s)) = srv_config s"
  by (simp_all add: PostWrite_def split: option.split)

lemma sc_new_item:
  assumes "sc_new (oi_header item) (Some (oi_payload item)) = Inr cur"
  shows "sc_inv cur" and "sc_TotalSize cur = item_bytes item" and "sc_sent cur = 0" and "sc_wire cur = item_wire item"
proof -
  show i: "sc_inv cur" and "sc_sent cur = 0" and w: "sc_wire cur = item_wire item"
    using sc_new_inv [OF assms] by (simp_all add: item_wire_def)
  then show "sc_TotalSize cur = item_bytes item"
    using length_sc_wire [OF i] by (simp add: item_wire_def item_bytes_def)
qed

lemma post_write_inv:
  assumes inv: "srv_inv (Some (p, False)) sk s" and p: "p < length (srv_store s)"
    and items: "se_send_queue (srv_store s ! p) = item # rest"
    and cur: "sc_new (oi_header item) (Some (oi_payload item)) = Inr cur"
  shows "srv_inv None sk (TrackOperation ((snd (draw (set_sess p (\<lambda>c. c\<lparr>se_send_queue := rest\<rparr>) s)))
    \<lparr>srv_writes := srv_writes s @ [Some \<lparr>wo_session = p, wo_cursor = cur, wo_close_after = k\<rparr>]\<rparr>))" (is "srv_inv None sk ?s")
proof (rule srv_inv_queue_change [OF inv p, where c' = "(srv_store s ! p)\<lparr>se_send_queue := rest\<rparr>"])
  note i = sc_new_item [OF cur] and sq = srv_inv_session [OF inv p]
  show "log_inv None ?s"
  proof (rule log_inv_change [OF sq(4) p, where c' = "(srv_store s ! p)\<lparr>se_send_queue := rest\<rparr>"])
    have "alive (srv_store s ! p)" "writes_of p (srv_writes s) = 0"
      using sq(1) items by (auto simp: sess_queue_inv_def alive_def split: if_splits)
    moreover have "write_buffers \<lparr>wo_session = p, wo_cursor = cur, wo_close_after = k\<rparr> = item_wire item"
      using sc_remainders [OF i(1)] i(3,4) by (simp add: write_buffers_def)
    ultimately show "if alive (srv_store s ! p) \<and> None \<noteq> Some (p, True)
      then log_of p (srv_wire_log ?s) @ pending p (srv_writes ?s) @ queue_wire ((srv_store s ! p)\<lparr>se_send_queue := rest\<rparr>) =
        log_of p (srv_accepted_log ?s)
      else prefix (log_of p (srv_wire_log ?s) @ pending p (srv_writes ?s)) (log_of p (srv_accepted_log ?s))"
      using log_inv_own [OF sq(4) p] items pending_zero [of p "srv_writes s"]
      by (simp add: TrackOperation_def queue_wire_def pending_Cons)
  qed (simp_all add: TrackOperation_def alive_def pending_Cons)
  show "sess_queue_inv (map_option fst None = Some p) (srv_config s) (srv_writes ?s) p ((srv_store s ! p)\<lparr>se_send_queue := rest\<rparr>)"
    using sq(1) items i(2) by (auto simp: sess_queue_inv_def flying_def writes_of_def TrackOperation_def)
  show "wo_session v < length (srv_store s) \<and> sc_inv (wo_cursor v)" if "Some v \<in> set (srv_writes ?s)" for v
    using that srv_inv_write [OF inv, of v] p i(1) by (auto simp: TrackOperation_def)
  show "flying r (srv_writes ?s) = flying r (srv_writes s) \<and> writes_of r (srv_writes ?s) = writes_of r (srv_writes s)"
    if "r \<noteq> p" for r
    using that by (simp add: flying_def writes_of_def TrackOperation_def)
  show "unat (m_queued_bytes (srv_metrics ?s)) \<le> unat (cfg_max_global_queued_bytes (srv_config s))"
    using sq(3) by (simp add: TrackOperation_def)
qed (simp_all add: TrackOperation_def alive_def)

text \<open>Without memory for the operation the item is given up, with its bytes.\<close>

lemma drop_item_inv:
  assumes inv: "srv_inv (Some (p, False)) sk s" and p: "p < length (srv_store s)"
    and items: "se_send_queue (srv_store s ! p) = item # rest"
  shows "srv_inv (Some (p, True)) sk (ReleaseGlobalQueued (item_bytes item)
    (set_sess p (\<lambda>c. c\<lparr>se_queued_bytes := se_queued_bytes c - of_nat (item_bytes item)\<rparr>)
      (snd (draw (set_sess p (\<lambda>c. c\<lparr>se_send_queue := rest\<rparr>) s)))))" (is "srv_inv _ sk ?s")
proof -
  let ?c = "srv_store s ! p" and ?n = "item_bytes item"
  let ?c' = "?c\<lparr>se_send_queue := rest, se_queued_bytes := se_queued_bytes ?c - of_nat ?n\<rparr>"
  note sq = srv_inv_session [OF inv p]
  have n: "?n \<le> unat (se_queued_bytes ?c)" using sq(1) items by (simp add: sess_queue_inv_def)
  then have q: "unat (se_queued_bytes ?c - of_nat ?n) = unat (se_queued_bytes ?c) - ?n"
    "unat (m_queued_bytes (srv_metrics s) - of_nat ?n) = unat (m_queued_bytes (srv_metrics s)) - ?n"
    using sq(2) by (simp_all add: unat_sub_of_nat)
  show ?thesis
  proof (rule srv_inv_queue_change [OF inv p, where c' = ?c'])
    show "log_inv (Some (p, True)) ?s"
      by (rule log_inv_change [OF sq(4) p, where c' = ?c'])
        (use log_inv_prefix [OF sq(4) p] p in \<open>simp_all add: ReleaseGlobalQueued_def alive_def\<close>)
    show "sess_queue_inv (map_option fst (Some (p, True)) = Some p) (srv_config s) (srv_writes ?s) p ?c'"
      using sq(1) items q(1) by (auto simp: sess_queue_inv_def ReleaseGlobalQueued_def)
    show "wo_session v < length (srv_store s) \<and> sc_inv (wo_cursor v)" if "Some v \<in> set (srv_writes ?s)" for v
      using that srv_inv_write [OF inv, of v] by (simp add: ReleaseGlobalQueued_def)
  qed (use sq n q p in \<open>simp_all add: ReleaseGlobalQueued_def alive_def\<close>)
qed

lemma StartNextWrite_inv:
  assumes inv: "srv_inv (Some (p, False)) sk s" and p: "p < length (srv_store s)"
  shows "srv_inv None sk (StartNextWrite od p s)"
proof (cases "se_send_queue (srv_store s ! p)")
  case Nil
  have "srv_inv None sk (set_sess p (\<lambda>c. c\<lparr>se_write_active := False\<rparr>) s)" (is "srv_inv None sk ?s")
  proof (rule srv_inv_queue_change [OF inv p, where c' = "(srv_store s ! p)\<lparr>se_write_active := False\<rparr>"])
    show "log_inv None ?s"
      by (rule log_inv_change [OF srv_inv_session(4) [OF inv p] p, where c' = "(srv_store s ! p)\<lparr>se_write_active := False\<rparr>"])
        (use log_inv_own [OF srv_inv_session(4) [OF inv p] p] in \<open>simp_all add: alive_def queue_wire_def split: if_splits\<close>)
    show "sess_queue_inv (map_option fst None = Some p) (srv_config s) (srv_writes ?s) p ((srv_store s ! p)\<lparr>se_write_active := False\<rparr>)"
      using srv_inv_session(1) [OF inv p] Nil by (auto simp: sess_queue_inv_def split: if_splits)
  qed (use srv_inv_session [OF inv p] srv_inv_write [OF inv] in \<open>simp_all add: alive_def\<close>)
  with Nil show ?thesis by (simp add: StartNextWrite_def sess_def)
next
  case (Cons item rest)
  let ?s2 = "snd (draw (set_sess p (\<lambda>c. c\<lparr>se_send_queue := rest\<rparr>) s))"
  have "length (oi_header item) \<le> send_header_capacity"
    using srv_inv_session(1) [OF inv p] Cons by (simp add: sess_queue_inv_def)
  then obtain cur where cur: "sc_new (oi_header item) (Some (oi_payload item)) = Inr cur"
    by (auto simp: sc_new_def not_less)
  let ?a = "length (srv_writes s)" and ?w = "\<lparr>wo_session = p, wo_cursor = cur, wo_close_after = oi_close_after item\<rparr>"
  let ?t = "TrackOperation (?s2\<lparr>srv_writes := srv_writes s @ [Some ?w]\<rparr>)"
  note posted = post_write_inv [OF inv p Cons cur, of "oi_close_after item"]
  have "srv_inv (Some (wo_session ?w, write_buffers ?w \<noteq> [])) sk (SettleWrite ?a False (snd (PostWrite ?a ?t)))"
    by (rule SettleWrite_inv) (use posted in \<open>simp_all add: TrackOperation_def nth_append\<close>)
  then have settled: "srv_inv None sk (Disconnect od p (SettleWrite ?a False (snd (PostWrite ?a ?t))))"
    by (rule Disconnect_inv) (use p in \<open>simp_all add: SettleWrite_def Let_def TrackOperation_def nth_append
        ReleaseGlobalQueued_def send_failure_def CompleteOperation_def\<close>)
  have dropped: "srv_inv None sk (Disconnect od p (send_failure (ReleaseGlobalQueued (item_bytes item)
      (set_sess p (\<lambda>c. c\<lparr>se_queued_bytes := se_queued_bytes c - of_nat (item_bytes item)\<rparr>) ?s2))))"
    by (rule Disconnect_inv [where st = "Some (p, True)"])
      (use drop_item_inv [OF inv p Cons] p in simp_all)
  have "StartNextWrite od p s =
      (if \<not> fst (draw (set_sess p (\<lambda>c. c\<lparr>se_send_queue := rest\<rparr>) s)) then Disconnect od p (send_failure (ReleaseGlobalQueued (item_bytes item)
         (set_sess p (\<lambda>c. c\<lparr>se_queued_bytes := se_queued_bytes c - of_nat (item_bytes item)\<rparr>) ?s2)))
       else if fst (PostWrite ?a ?t) then snd (PostWrite ?a ?t) else Disconnect od p (SettleWrite ?a False (snd (PostWrite ?a ?t))))"
    using Cons cur by (simp add: StartNextWrite_def sess_def result_simps)
  then show ?thesis using posted settled dropped by simp
qed

subsection \<open>Completions and queueing\<close>

lemma FinishWrite_inv:
  assumes inv: "srv_inv None sk s" and a: "a < length (srv_writes s)"
    and complete: "\<And>w. ok \<Longrightarrow> srv_writes s ! a = Some w \<Longrightarrow> write_buffers w = []"
  shows "srv_inv None sk (FinishWrite od a ok s)"
proof (cases "srv_writes s ! a")
  case None
  with inv show ?thesis by (simp add: FinishWrite_def)
next
  case (Some w)
  have "Some w \<in> set (srv_writes s)" using a Some by (metis nth_mem)
  then have p: "wo_session w < length (srv_store s)" by (rule srv_inv_write [OF inv])
  note S = SettleWrite_inv [OF inv a Some, of ok]
  show ?thesis
    using Disconnect_inv [OF S] StartNextWrite_inv [of "wo_session w" sk "SettleWrite a ok s" od] S complete [OF _ Some] p
    by (cases ok) (simp_all add: FinishWrite_def Some Let_def)
qed

text \<open>Consuming what was sent leaves the rest of the two buffers.\<close>

lemma write_buffers_Consume:
  assumes "sc_inv (wo_cursor w)"
  shows "take n (write_buffers w) @ write_buffers (w\<lparr>wo_cursor := sc_Consume n (wo_cursor w)\<rparr>) = write_buffers w"
    and "sc_Complete (sc_Consume n (wo_cursor w)) \<Longrightarrow> write_buffers (w\<lparr>wo_cursor := sc_Consume n (wo_cursor w)\<rparr>) = []"
proof -
  let ?c = "wo_cursor w"
  note len = length_sc_wire [OF assms] and le = assms [unfolded sc_inv_def, THEN conjunct2]
  have w: "write_buffers w = drop (sc_sent ?c) (sc_wire ?c)"
    using sc_remainders [OF assms] by (simp add: write_buffers_def)
  have w': "write_buffers (w\<lparr>wo_cursor := sc_Consume n ?c\<rparr>) = drop (min (sc_sent ?c + n) (sc_TotalSize ?c)) (sc_wire ?c)"
    using sc_remainders [OF sc_Consume_inv [OF assms]] sc_Consume_sent [OF assms, of n] by (simp add: write_buffers_def)
  have "drop (min (sc_sent ?c + n) (sc_TotalSize ?c)) (sc_wire ?c) = drop n (write_buffers w)"
    using len by (simp add: w min_def add.commute)
  then show "take n (write_buffers w) @ write_buffers (w\<lparr>wo_cursor := sc_Consume n ?c\<rparr>) = write_buffers w"
    by (simp add: w')
  show "write_buffers (w\<lparr>wo_cursor := sc_Consume n ?c\<rparr>) = []" if "sc_Complete (sc_Consume n ?c)"
    using that len sc_Consume_sent [OF assms, of n] by (simp add: w' sc_Complete_def sc_Remaining_def)
qed

lemma HandleWrite_inv:
  assumes inv: "srv_inv None sk s" and a: "a < length (srv_writes s)"
  shows "srv_inv None sk (HandleWrite od a ok n s)"
proof (cases "srv_writes s ! a")
  case None
  with inv show ?thesis by (simp add: HandleWrite_def)
next
  case (Some w)
  let ?cur = "sc_Consume n (wo_cursor w)"
  let ?ws = "(srv_writes s)[a := Some (w\<lparr>wo_cursor := ?cur\<rparr>)]"
  let ?s = "s\<lparr>srv_writes := ?ws, srv_wire_log := srv_wire_log s @ [(wo_session w, take n (write_buffers w))]\<rparr>"
  have w: "Some w \<in> set (srv_writes s)" using a Some by (metis nth_mem)
  note p = srv_inv_write [OF inv w]
  have sent: "take n (write_buffers w) @ write_buffers (w\<lparr>wo_cursor := ?cur\<rparr>) = write_buffers w"
    "sc_Complete ?cur \<Longrightarrow> write_buffers (w\<lparr>wo_cursor := ?cur\<rparr>) = []"
    using write_buffers_Consume [OF p(2), of n] by simp_all
  have same: "flying q ?ws = flying q (srv_writes s)" "writes_of q ?ws = writes_of q (srv_writes s)"
    "osum (\<lambda>_. 1) ?ws = osum (\<lambda>_. 1) (srv_writes s)" for q
    unfolding flying_def writes_of_def using a Some by (simp_all add: osum_update_diff)
  have "srv_inv None sk ?s"
  proof (rule srv_inv_queue_change [OF inv p(1), where c' = "srv_store s ! wo_session w"])
    note sq = srv_inv_session [OF inv p(1)]
    show "log_inv None ?s"
    proof (rule log_inv_change [OF sq(4) p(1), where c' = "srv_store s ! wo_session w"])
      have "writes_of (wo_session w) (srv_writes s) \<le> 1" using sq(1) by (simp add: sess_queue_inv_def)
      note pend = pending_update [OF a Some this, of "Some (w\<lparr>wo_cursor := ?cur\<rparr>)", simplified]
      have joined: "(l @ take n (write_buffers w)) @ write_buffers (w\<lparr>wo_cursor := ?cur\<rparr>) = l @ write_buffers w" for l
        using sent(1) by simp
      show "if alive (srv_store s ! wo_session w) \<and> None \<noteq> Some (wo_session w, True)
        then log_of (wo_session w) (srv_wire_log ?s) @ pending (wo_session w) (srv_writes ?s) @ queue_wire (srv_store s ! wo_session w) =
          log_of (wo_session w) (srv_accepted_log ?s)
        else prefix (log_of (wo_session w) (srv_wire_log ?s) @ pending (wo_session w) (srv_writes ?s)) (log_of (wo_session w) (srv_accepted_log ?s))"
        using log_inv_own [OF sq(4) p(1)] pend(1,2) joined by (simp add: append_assoc [symmetric] del: append_assoc split: if_splits)
      show "log_of q (srv_wire_log ?s) = log_of q (srv_wire_log s) \<and> log_of q (srv_accepted_log ?s) = log_of q (srv_accepted_log s) \<and>
          pending q (srv_writes ?s) = pending q (srv_writes s)" if "q \<noteq> wo_session w" for q
        using pend(3) that by simp
    qed (simp_all add: alive_def)
    show "sess_queue_inv (map_option fst None = Some (wo_session w)) (srv_config s) (srv_writes ?s) (wo_session w) (srv_store s ! wo_session w)"
      using srv_inv_session(1) [OF inv p(1)] sess_queue_inv_cong [OF same(1,2)] by simp
    show "wo_session v < length (srv_store s) \<and> sc_inv (wo_cursor v)" if "Some v \<in> set (srv_writes ?s)" for v
      using that srv_inv_write [OF inv, of v] p sc_Consume_inv
        set_update_subset_insert [of "srv_writes s" a "Some (w\<lparr>wo_cursor := ?cur\<rparr>)"] by auto
  qed (use srv_inv_session [OF inv p(1)] same in simp_all)
  then have s: "srv_inv None sk ?s" "a < length (srv_writes ?s)" "srv_inv None sk (snd (PostWrite a ?s))"
    "a < length (srv_writes (snd (PostWrite a ?s)))"
    using a by simp_all
  have "srv_inv None sk (FinishWrite od a True ?s)" if "sc_Complete ?cur"
    by (rule FinishWrite_inv [OF s(1,2)]) (use sent(2) that a in simp)
  moreover have "srv_inv None sk (FinishWrite od a False (snd (PostWrite a ?s)))" "srv_inv None sk (FinishWrite od a False s)"
    by (rule FinishWrite_inv [OF s(3,4)], simp) (rule FinishWrite_inv [OF inv a], simp)
  ultimately show ?thesis using s(3) by (simp add: HandleWrite_def Some result_simps)
qed

lemma Enqueue_inv:
  assumes inv: "srv_inv None sk s" and p: "p < length (srv_store s)" and h: "length (oi_header item) \<le> send_header_capacity"
  shows "srv_inv None sk (snd (Enqueue od p item s))"
proof -
  let ?n = "item_bytes item" and ?c = "srv_store s ! p"
  let ?c' = "?c\<lparr>se_queued_bytes := se_queued_bytes ?c + of_nat ?n, se_send_queue := se_send_queue ?c @ [item], se_write_active := True\<rparr>"
  let ?s = "(set_sess p (\<lambda>c. c\<lparr>se_queued_bytes := se_queued_bytes c + of_nat ?n, se_send_queue := se_send_queue c @ [item],
      se_write_active := True\<rparr>) (count (\<lambda>m. m\<lparr>m_queued_bytes := m_queued_bytes m + of_nat ?n\<rparr>) s))
      \<lparr>srv_accepted_log := srv_accepted_log s @ [(p, item_wire item)]\<rparr>"
  note sq = srv_inv_session [OF inv p]
  have ex_not: "Ex Not" by (rule exI [of _ False]) simp
  have "srv_inv (if se_write_active ?c then None else Some (p, False)) sk ?s"
    if live: "\<not> se_disconnect_started ?c"
      and fits: "unat (se_queued_bytes ?c) + ?n \<le> unat (cfg_max_session_queued_bytes (srv_config s))"
        "unat (m_queued_bytes (srv_metrics s)) + ?n \<le> unat (cfg_max_global_queued_bytes (srv_config s))"
  proof (rule srv_inv_queue_change [OF inv p, where c' = ?c'])
    note q = unat_add_of_nat [OF fits(1)] unat_add_of_nat [OF fits(2)]
    show "log_inv (if se_write_active ?c then None else Some (p, False)) ?s"
      by (rule log_inv_change [OF sq(4) p, where c' = ?c'])
        (use log_inv_own [OF sq(4) p] live in \<open>auto simp: alive_def queue_wire_def ex_not\<close>)
    show "sess_queue_inv (map_option fst (if se_write_active ?c then None else Some (p, False)) = Some p) (srv_config s) (srv_writes ?s) p ?c'"
      using sq(1) q(1) live h fits(1) by (auto simp: sess_queue_inv_def)
    show "wo_session v < length (srv_store s) \<and> sc_inv (wo_cursor v)" if "Some v \<in> set (srv_writes ?s)" for v
      using that srv_inv_write [OF inv, of v] by simp
  qed (use fits unat_add_of_nat [OF fits(1)] unat_add_of_nat [OF fits(2)] p in \<open>simp_all add: alive_def ex_not\<close>)
  then show ?thesis
    using inv p StartNextWrite_inv [of p sk ?s od]
    by (auto simp: Enqueue_def ReserveGlobalQueued_def Let_def sess_def split: if_splits)
qed

subsection \<open>Control frames, Send and Close\<close>

lemma websocket_item_header: "length (oi_header (websocket_item opcode payload k)) \<le> send_header_capacity"
proof -
  let ?k = "snd (BuildFrameHeader opcode (of_nat (length payload)))"
  have "?k \<le> 10" by (simp add: BuildFrameHeader_def Let_def)
  moreover have "length (take ?k xs) \<le> ?k" for xs :: "byte list" by simp
  ultimately have "length (take ?k xs) \<le> send_header_capacity" for xs :: "byte list"
    unfolding send_header_capacity_def using le_trans [of "length (take ?k xs)" ?k 16 for xs :: "byte list"] by auto
  then show ?thesis by (simp add: websocket_item_def WebSocketHeader_def case_prod_unfold del: length_take length_append take_append)
qed

lemma enqueue_or_close_inv:
  assumes "srv_inv None sk s" and "p < length (srv_store s)" and "length (oi_header item) \<le> send_header_capacity"
  shows "srv_inv None sk (enqueue_or_close od p item s)"
  using Enqueue_inv [OF assms, of od] assms(2) by (simp add: enqueue_or_close_def result_simps Disconnect_inv)

lemma SendControl_inv [inv_intros]:
  assumes "srv_inv None sk s" and "p < length (srv_store s)"
  shows "srv_inv None sk (SendControl od p opcode payload k s)"
  using assms
  by (auto simp: SendControl_def result_simps srv_inv_set_sess se_view_def websocket_item_header intro!: enqueue_or_close_inv)

lemma SendRaw_inv [inv_intros]:
  "srv_inv None sk s \<Longrightarrow> p < length (srv_store s) \<Longrightarrow> srv_inv None sk (SendRaw od p response k s)"
  by (simp add: SendRaw_def enqueue_or_close_inv)

text \<open>A session found by its handle exists, is alive and has that handle.\<close>

lemma FindSession_iff:
  assumes "srv_inv st sk s"
  shows "FindSession h s = Some p \<longleftrightarrow> p < length (srv_store s) \<and> alive (sess p s) \<and> h = se_handle (sess p s)"
proof -
  have inv: "directory_inv s" using assms by (simp add: srv_inv_def)
  then have wf: "sr_wf (srv_sessions s)" by (simp add: directory_inv_def)
  have "FindSession h s = Some p \<longleftrightarrow>
      sr_entries (srv_sessions s) (sh_id h) = Some p \<and> sh_generation (se_handle (sess p s)) = sh_generation h"
    by (simp add: FindSession_def sr.find_entries [OF wf] deref_def)
  then show ?thesis
    using inv by (auto simp: directory_inv_def sess_def nth_handle_def)
qed

lemma ServerSend_inv [inv_intros]:
  assumes "srv_inv None sk s"
  shows "srv_inv None sk (snd (ServerSend od h payload s))"
proof -
  have raw: "srv_inv None sk (snd (case EncodeLength (length b) of Inl e \<Rightarrow> (False, fail (Uncaught e) s)
      | Inr header \<Rightarrow> Enqueue od p \<lparr>oi_header = header, oi_payload = b, oi_close_after = False\<rparr> s))"
    if "FindSession h s = Some p" "length b \<le> unat (cfg_max_message_bytes (srv_config s))" for p b
  proof -
    have "length b < 2 ^ 32" using that assms by (simp add: srv_inv_def config_ok_def)
    then obtain b0 b1 b2 b3 where "EncodeLength (length b) = Inr [b0, b1, b2, b3]" by (rule EncodeLength_ok)
    with that assms FindSession_iff [OF assms] show ?thesis by (simp add: Enqueue_inv send_header_capacity_def)
  qed
  show ?thesis
    using assms FindSession_iff [OF assms] raw
    by (auto simp: ServerSend_def not_less Enqueue_inv websocket_item_header split: option.split TransportKind.split)
qed

lemma ServerClose_inv [inv_intros]:
  assumes "srv_inv None sk s"
  shows "srv_inv None sk (ServerClose od h code reason s)"
  using assms FindSession_iff [OF assms]
  by (auto simp: ServerClose_def Let_def split: option.split intro: Disconnect_inv SendControl_inv)

end
