(* ===== verification/Read_Invariant.thy ===== *)
theory Read_Invariant
  imports Write_Invariant
begin

text \<open>
  The read path keeps the server invariant, and its loops end. The application's message handler is
  only assumed to satisfy the contract \<open>message_application\<close>: it keeps the invariant and, since it
  acts through \<open>Send\<close> and \<open>Close\<close>, leaves the decoders alone.
\<close>

subsection \<open>What the read path leaves alone\<close>

definition steady :: "'app Server \<Rightarrow> 'app Server \<Rightarrow> bool" where
  "steady s t \<longleftrightarrow> length (srv_store t) = length (srv_store s) \<and> srv_config t = srv_config s \<and>
     srv_running t = srv_running s \<and> srv_reads t = srv_reads s"

lemma steady_refl [simp]: "steady s s"
  by (simp add: steady_def)

lemma steady_trans: "steady s t \<Longrightarrow> steady t u \<Longrightarrow> steady s u"
  by (simp add: steady_def)

lemma keeps_steady: "keeps s t \<Longrightarrow> steady s t"
  by (simp add: steady_def keepsD)

lemma steady_set_sess [simp]: "steady s (set_sess p f t) = steady s t" "steady (set_sess p f s) t = steady s t"
  by (simp_all add: steady_def)

lemma steadyD: "steady s t \<Longrightarrow> length (srv_store t) = length (srv_store s)"
  by (simp add: steady_def)

subsection \<open>Accounting\<close>

lemma RecordMalformed_inv [simp]: "srv_inv st sk (RecordMalformed p s) = srv_inv st sk s"
  by (simp add: RecordMalformed_def srv_inv_count srv_inv_set_sess se_view_def)

lemma keeps_RecordMalformed [keeps_intros]: "keeps s t \<Longrightarrow> keeps s (RecordMalformed p t)"
  by (auto simp: RecordMalformed_def in_view_def alive_def intro!: keeps_intros keeps_set_sess)

lemma keeps_UpdateInboundAccounting [keeps_intros]: "keeps s t \<Longrightarrow> keeps s (UpdateInboundAccounting od p n t)"
  by (auto simp: UpdateInboundAccounting_def Let_def in_view_def alive_def intro!: keeps_intros keeps_set_sess)

lemma UpdateInboundAccounting_inv [inv_intros]:
  assumes inv: "srv_inv None sk s" and p: "p < length (srv_store s)"
  shows "srv_inv None sk (UpdateInboundAccounting od p n s)"
proof -
  let ?c = "srv_store s ! p"
  let ?s = "\<lambda>m. set_sess p (\<lambda>c. c\<lparr>se_inbound_accounted := of_nat n\<rparr>) (count (\<lambda>x. x\<lparr>m_inbound_bytes := m x\<rparr>) s)"
  have step: "srv_inv None sk (?s m)"
    if "m (srv_metrics s) - of_nat n = m_inbound_bytes (srv_metrics s) - se_inbound_accounted ?c" for m
  proof (rule srv_inv_queue_change [OF inv p, where c' = "?c\<lparr>se_inbound_accounted := of_nat n\<rparr>"])
    show "log_inv None (?s m)"
      by (rule log_inv_change [OF srv_inv_session(4) [OF inv p] p, where c' = "?c\<lparr>se_inbound_accounted := of_nat n\<rparr>"])
        (use log_inv_own [OF srv_inv_session(4) [OF inv p] p] in \<open>simp_all add: alive_def queue_wire_def split: if_splits\<close>)
    show "sess_queue_inv (map_option fst None = Some p) (srv_config s) (srv_writes (?s m)) p (?c\<lparr>se_inbound_accounted := of_nat n\<rparr>)"
      using srv_inv_session(1) [OF inv p] by (auto simp: sess_queue_inv_def)
  qed (use that srv_inv_session [OF inv p] srv_inv_write [OF inv] in \<open>simp_all add: alive_def\<close>)
  have up: "srv_inv None sk (?s (\<lambda>x. m_inbound_bytes x + of_nat (n - unat (se_inbound_accounted ?c))))"
    if "unat (se_inbound_accounted ?c) < n"
    using that by (intro step) (simp add: of_nat_diff)
  have down: "srv_inv None sk (?s (\<lambda>x. m_inbound_bytes x - of_nat (unat (se_inbound_accounted ?c) - n)))"
    if "n < unat (se_inbound_accounted ?c)"
    using that by (intro step) (simp add: of_nat_diff)
  show ?thesis
    using inv p up down by (auto simp: UpdateInboundAccounting_def Let_def sess_def intro!: Disconnect_inv)
qed

lemmas keeps_read_length [simp] =
  keepsD(1) [OF keeps_RecordMalformed [OF keeps_refl]] keepsD(1) [OF keeps_UpdateInboundAccounting [OF keeps_refl]]

lemma CloseWith_inv [inv_intros]: "srv_inv None sk s \<Longrightarrow> srv_inv None sk (CloseWith hs p code reason s)"
  by (simp add: CloseWith_def ServerClose_inv)

lemma keeps_CloseWith [keeps_intros]: "keeps s t \<Longrightarrow> keeps s (CloseWith hs p code reason t)"
  by (simp add: CloseWith_def keeps_intros)

lemma rate_tick_view [simp]: "se_view (rate_tick now c) = se_view c" "in_view (rate_tick now c) = in_view c"
  "alive (rate_tick now c) = alive c"
  by (simp_all add: rate_tick_def se_view_def in_view_def alive_def Let_def)

lemma steady_keeps: "steady s t \<Longrightarrow> keeps t u \<Longrightarrow> steady s u"
  using steady_trans keeps_steady by blast

lemmas steady_intros =
  steady_keeps [OF _ keeps_Disconnect [OF keeps_refl]] steady_keeps [OF _ keeps_UpdateInboundAccounting [OF keeps_refl]]
  steady_keeps [OF _ keeps_SendControl [OF keeps_refl]] steady_keeps [OF _ keeps_SendRaw [OF keeps_refl]]
  steady_keeps [OF _ keeps_CloseWith [OF keeps_refl]] steady_keeps [OF _ keeps_RecordMalformed [OF keeps_refl]]
  steady_keeps [OF _ keeps_basic(4) [OF keeps_refl]] steady_keeps [OF _ keeps_basic(5) [OF keeps_refl]]

subsection \<open>Progress of the decoders\<close>

lemma lpa_Next_progress:
  "lpa_Next d = (MessageReady, msg, d') \<Longrightarrow> lpa_BufferedBytes d' < lpa_BufferedBytes d"
  by (auto simp: lpa_Next_def lpa_BufferedBytes_def HeaderSize_def Let_def split: if_splits)

declare raw_loop.simps [simp del] ws_loop.simps [simp del]

text \<open>A weakness of the accounting. When the global limit is passed, the session is disconnected and its
  bytes are released; but the last line of \<open>ProcessRaw\<close> then counts its buffered bytes again, for a
  session that will never release them.\<close>

lemma ProcessRaw_inbound_leak:
  assumes p: "p < length (srv_store s)" and live: "alive (sess p s)"
    and ap: "lpa_Append bytes (se_raw_decoder (sess p s)) = (True, d)"
    and more: "unat (se_inbound_accounted (sess p s)) < lpa_BufferedBytes d" and "lpa_BufferedBytes d < 2 ^ 64"
    and over: "cfg_max_global_inbound_bytes (srv_config s) <
      m_inbound_bytes (srv_metrics s) + of_nat (lpa_BufferedBytes d - unat (se_inbound_accounted (sess p s)))"
  shows "\<not> alive (sess p (ProcessRaw hs p bytes s)) \<and>
    unat (se_inbound_accounted (sess p (ProcessRaw hs p bytes s))) = lpa_BufferedBytes d"
proof -
  let ?n = "lpa_BufferedBytes d" and ?od = "on_disconnect hs"
  let ?s1 = "set_sess p (\<lambda>c. c\<lparr>se_raw_decoder := d\<rparr>) s"
  let ?s1' = "set_sess p (\<lambda>c. c\<lparr>se_inbound_accounted := of_nat ?n\<rparr>)
    (count (\<lambda>m. m\<lparr>m_inbound_bytes := m_inbound_bytes m + of_nat (?n - unat (se_inbound_accounted (sess p s)))\<rparr>) ?s1)"
  define s2 where "s2 = Disconnect ?od p ?s1'"
  have "p < length (srv_store ?s1')" "alive (sess p ?s1')" using p live by (simp_all add: sess_def alive_def)
  from Disconnect_alive(1) [OF this, of ?od]
  have c: "sess p s2 = closed_session (sess p ?s1')" "length (srv_store s2) = length (srv_store s)"
    using p by (simp_all add: s2_def sess_def)
  have two: "UpdateInboundAccounting ?od p ?n ?s1 = s2"
    using p more over by (simp add: UpdateInboundAccounting_def s2_def sess_def Let_def)
  have dead: "se_disconnect_started (sess p s2)" "se_inbound_accounted (sess p s2) = 0" "se_raw_decoder (sess p s2) = d"
    unfolding c(1) using p by (simp_all add: closed_session_def sess_def)
  have pos: "0 < ?n" using more by simp
  have "ProcessRaw hs p bytes s = UpdateInboundAccounting ?od p ?n s2"
    using dead two by (simp add: ProcessRaw_def ap raw_loop.simps(2) Let_def)
  moreover have "sess p (UpdateInboundAccounting ?od p ?n s2) = (sess p s2)\<lparr>se_inbound_accounted := of_nat ?n\<rparr>"
    using dead pos p c(2) by (simp add: UpdateInboundAccounting_def Disconnect_def sess_def Let_def)
  ultimately show ?thesis using dead assms(5) by (simp add: alive_def unat_of_nat)
qed

subsection \<open>The contract of the application\<close>

locale message_application =
  fixes hs :: "'app Handlers"
  assumes handler_inv: "on_message hs = Some f \<Longrightarrow> srv_inv None sk s \<Longrightarrow> srv_inv None sk (snd (f h msg s))"
    and handler_keeps: "on_message hs = Some f \<Longrightarrow> srv_inv None sk s \<Longrightarrow> keeps s (snd (f h msg s))"
begin

lemma DeliverMessage_ok:
  assumes "srv_inv None sk s" and "p < length (srv_store s)"
  shows "srv_inv None sk (snd (DeliverMessage hs p msg s))" and "keeps s (snd (DeliverMessage hs p msg s))"
proof -
  let ?s2 = "set_sess p (rate_tick (fst (MonotonicMilliseconds s))) (snd (MonotonicMilliseconds s))"
  let ?s3 = "count (\<lambda>m. m\<lparr>m_received_messages := m_received_messages m + 1\<rparr>) ?s2"
  have inv: "srv_inv None sk ?s2" "srv_inv None sk ?s3"
    using assms by (simp_all add: srv_inv_set_sess srv_inv_count)
  have keep: "keeps s ?s2" "keeps s ?s3"
    by (auto intro!: keeps_intros keeps_set_sess)
  have call: "srv_inv None sk (snd (f h msg ?s3))" "keeps s (snd (f h msg ?s3))" if "on_message hs = Some f" for f h
    using handler_inv [OF that inv(2)] keeps_trans [OF keep(2) handler_keeps [OF that inv(2)]] by auto
  show "srv_inv None sk (snd (DeliverMessage hs p msg s))"
    using inv call by (auto simp: DeliverMessage_def result_simps split: option.split intro!: CloseWith_inv)
  show "keeps s (snd (DeliverMessage hs p msg s))"
    using keep call by (auto simp: DeliverMessage_def result_simps split: option.split intro!: keeps_intros)
qed

lemma raw_loop_ok:
  assumes "srv_inv None sk s" and "p < length (srv_store s)" and "lpa_BufferedBytes (se_raw_decoder (sess p s)) < fuel"
  shows "srv_inv None sk (snd (raw_loop hs fuel p s)) \<and> steady s (snd (raw_loop hs fuel p s))"
  using assms
proof (induction fuel arbitrary: s)
  case (Suc fuel)
  obtain status msg d where nx: "lpa_Next (se_raw_decoder (sess p s)) = (status, msg, d)" by (metis prod_cases3)
  let ?s1 = "set_sess p (\<lambda>c. c\<lparr>se_raw_decoder := d\<rparr>) s"
  have s1: "srv_inv None sk ?s1" "p < length (srv_store ?s1)" "steady s ?s1"
    using Suc.prems by (simp_all add: srv_inv_set_sess se_view_def)
  let ?s2 = "snd (DeliverMessage hs p msg ?s1)"
  note dm = DeliverMessage_ok [OF s1(1,2), of msg]
  have len: "p < length (srv_store ?s2)" and s2: "steady s ?s2"
    using keepsD(1) [OF dm(2)] s1(2) steady_trans [OF s1(3) keeps_steady [OF dm(2)]] by simp_all
  have "se_raw_decoder (sess p ?s2) = d"
    using keepsD(5) [OF dm(2) s1(2)] Suc.prems(2) by (simp add: in_view_def sess_set_sess)
  then have IH: "srv_inv None sk (snd (raw_loop hs fuel p ?s2)) \<and> steady ?s2 (snd (raw_loop hs fuel p ?s2))"
    if "status = MessageReady"
    using that Suc.prems(3) lpa_Next_progress nx by (intro Suc.IH dm(1) len) fastforce
  have bad: "srv_inv None sk (Disconnect (on_disconnect hs) p (RecordMalformed p ?s1))"
    "steady s (Disconnect (on_disconnect hs) p (RecordMalformed p ?s1))"
    using s1 Suc.prems(2) by (auto intro!: Disconnect_inv steady_intros)
  show ?case
    using s1 s2 dm(1) IH bad Suc.prems(1) steady_trans [OF s2]
    by (auto simp: raw_loop.simps(2) nx result_simps)
qed simp

lemma ProcessRaw_ok:
  assumes "srv_inv None sk s" and "p < length (srv_store s)"
  shows "srv_inv None sk (ProcessRaw hs p bytes s) \<and> steady s (ProcessRaw hs p bytes s)"
proof -
  obtain ok d where ap: "lpa_Append bytes (se_raw_decoder (sess p s)) = (ok, d)" by fastforce
  let ?s1 = "set_sess p (\<lambda>c. c\<lparr>se_raw_decoder := d\<rparr>) s"
  let ?s2 = "UpdateInboundAccounting (on_disconnect hs) p (lpa_BufferedBytes d) ?s1"
  let ?s3 = "snd (raw_loop hs (Suc (lpa_BufferedBytes d)) p ?s2)"
  have s1: "srv_inv None sk ?s1" "p < length (srv_store ?s1)" using assms by (simp_all add: srv_inv_set_sess se_view_def)
  have k: "keeps ?s1 ?s2" by (simp add: keeps_intros)
  have s2: "srv_inv None sk ?s2" "p < length (srv_store ?s2)" "steady s ?s2"
    using UpdateInboundAccounting_inv [OF s1] keeps_steady [OF k] s1(2) by simp_all
  have "se_raw_decoder (sess p ?s2) = d"
    using keepsD(5) [OF k s1(2)] assms(2) by (simp add: in_view_def sess_set_sess)
  then have s3: "srv_inv None sk ?s3" "steady ?s2 ?s3"
    using raw_loop_ok [OF s2(1,2), of "Suc (lpa_BufferedBytes d)"] by simp_all
  then have s3': "steady s ?s3" "p < length (srv_store ?s3)"
    using steady_trans [OF s2(3)] s2(2) by (auto simp: steady_def)
  have "srv_inv None sk (UpdateInboundAccounting (on_disconnect hs) p n ?s3)"
    "steady s (UpdateInboundAccounting (on_disconnect hs) p n ?s3)" for n
    using UpdateInboundAccounting_inv [OF s3(1) s3'(2)] s3'(1) by (auto intro!: steady_intros)
  moreover have "srv_inv None sk (Disconnect (on_disconnect hs) p ?s1)" "steady s (Disconnect (on_disconnect hs) p ?s1)"
    using Disconnect_inv [OF s1] by (auto intro!: steady_intros)
  ultimately show ?thesis
    using s3(1) s3'(1) by (auto simp: ProcessRaw_def ap result_simps split: loop_exit.split)
qed

lemma ws_loop_ok:
  assumes "srv_inv None sk s" and "p < length (srv_store s)" and "ws_BufferedBytes (se_websocket_decoder (sess p s)) < fuel"
  shows "srv_inv None sk (snd (ws_loop hs fuel p s)) \<and> steady s (snd (ws_loop hs fuel p s))"
  using assms
proof (induction fuel arbitrary: s)
  case (Suc fuel)
  obtain status ev err d where nx: "ws_Next (se_websocket_decoder (sess p s)) = (status, ev, err, d)" by (metis prod_cases4)
  let ?s1 = "set_sess p (\<lambda>c. c\<lparr>se_websocket_decoder := d\<rparr>) s"
  have s1: "srv_inv None sk ?s1" "p < length (srv_store ?s1)" "steady s ?s1"
    using Suc.prems by (simp_all add: srv_inv_set_sess se_view_def)
  have again: "srv_inv None sk (snd (ws_loop hs fuel p t)) \<and> steady s (snd (ws_loop hs fuel p t))"
    if t: "srv_inv None sk t" "keeps ?s1 t" and "status = EventReady" for t
  proof -
    have "se_websocket_decoder (sess p t) = d"
      using keepsD(5) [OF t(2) s1(2)] Suc.prems(2) by (simp add: in_view_def sess_set_sess)
    then have "ws_BufferedBytes (se_websocket_decoder (sess p t)) < fuel"
      using that(3) nx ws_Next_progress [of "se_websocket_decoder (sess p s)" ev err d] Suc.prems(3)
      by (simp add: ws_BufferedBytes_def)
    moreover have "p < length (srv_store t)" using keepsD(1) [OF t(2)] s1(2) by simp
    ultimately have "srv_inv None sk (snd (ws_loop hs fuel p t)) \<and> steady t (snd (ws_loop hs fuel p t))"
      using Suc.IH [OF t(1)] by blast
    then show ?thesis using steady_trans steady_keeps [OF s1(3) t(2)] by blast
  qed
  note dm = DeliverMessage_ok [OF s1(1,2)]
  let ?pong = "\<lambda>x. set_sess p (\<lambda>c. c\<lparr>se_last_pong_ms := x\<rparr>) (snd (MonotonicMilliseconds (set_sess p (\<lambda>c. c\<lparr>se_awaiting_pong := False\<rparr>) ?s1)))"
  have pong: "srv_inv None sk (?pong x)" "keeps ?s1 (?pong x)" for x
    using s1(1) by (simp add: srv_inv_set_sess se_view_def)
      (rule keeps_set_sess [OF keeps_basic(5) [OF keeps_set_sess [OF keeps_refl]]], simp_all add: in_view_def alive_def)
  have stop: "srv_inv None sk (CloseWith hs p code reason (RecordMalformed p ?s1))"
      "srv_inv None sk (CloseWith hs p code reason ?s1)" "srv_inv None sk (SendControl od p opcode payload k ?s1)"
      "steady s (CloseWith hs p code reason (RecordMalformed p ?s1))" "steady s (CloseWith hs p code reason ?s1)"
      "steady s (SendControl od p opcode payload k ?s1)" for code reason od opcode payload k
    using s1 by (auto intro!: CloseWith_inv SendControl_inv steady_intros)
  have deliver: "steady s (snd (DeliverMessage hs p msg ?s1))" for msg by (rule steady_keeps [OF s1(3) dm(2)])
  have ping: "keeps ?s1 (SendControl od p opcode payload k ?s1)" for od opcode payload k by (simp add: keeps_intros)
  show ?case
    using s1 Suc.prems(1) stop deliver dm again [OF dm] again [OF pong] again [OF stop(3) ping]
    by (cases status) (simp_all add: ws_loop.simps(2) nx result_simps split: WsEventType.split)
qed simp

lemma ProcessWebSocket_ok:
  assumes "srv_inv None sk s" and "p < length (srv_store s)"
  shows "srv_inv None sk (ProcessWebSocket hs p bytes s) \<and> steady s (ProcessWebSocket hs p bytes s)"
proof -
  obtain ok d where ap: "ws_Append bytes (se_websocket_decoder (sess p s)) = (ok, d)" by fastforce
  let ?s1 = "set_sess p (\<lambda>c. c\<lparr>se_websocket_decoder := d\<rparr>) s"
  let ?s2 = "UpdateInboundAccounting (on_disconnect hs) p (ws_BufferedBytes d) ?s1"
  let ?s3 = "snd (ws_loop hs (Suc (ws_BufferedBytes d)) p ?s2)"
  have s1: "srv_inv None sk ?s1" "p < length (srv_store ?s1)" using assms by (simp_all add: srv_inv_set_sess se_view_def)
  have k: "keeps ?s1 ?s2" by (simp add: keeps_intros)
  have s2: "srv_inv None sk ?s2" "p < length (srv_store ?s2)" "steady s ?s2"
    using UpdateInboundAccounting_inv [OF s1] keeps_steady [OF k] s1(2) by simp_all
  have "se_websocket_decoder (sess p ?s2) = d"
    using keepsD(5) [OF k s1(2)] assms(2) by (simp add: in_view_def sess_set_sess)
  then have s3: "srv_inv None sk ?s3" "steady ?s2 ?s3"
    using ws_loop_ok [OF s2(1,2), of "Suc (ws_BufferedBytes d)"] by simp_all
  then have s3': "steady s ?s3" "p < length (srv_store ?s3)"
    using steady_trans [OF s2(3)] s2(2) by (auto simp: steady_def)
  have "srv_inv None sk (UpdateInboundAccounting (on_disconnect hs) p n ?s3)"
    "steady s (UpdateInboundAccounting (on_disconnect hs) p n ?s3)" for n
    using UpdateInboundAccounting_inv [OF s3(1) s3'(2)] s3'(1) by (auto intro!: steady_intros)
  moreover have "srv_inv None sk (CloseWith hs p code reason ?s1)" "steady s (CloseWith hs p code reason ?s1)" for code reason
    using CloseWith_inv [OF s1(1)] by (auto intro!: steady_intros)
  ultimately show ?thesis
    using assms(1) s3(1) s3'(1) by (auto simp: ProcessWebSocket_def ap result_simps split: loop_exit.split)
qed

lemma ProcessDetection_ok:
  assumes "srv_inv None sk s" and "p < length (srv_store s)"
  shows "srv_inv None sk (ProcessDetection hs p bytes s) \<and> steady s (ProcessDetection hs p bytes s)"
proof -
  let ?od = "on_disconnect hs" and ?buffer = "se_detection_buffer (sess p s) @ bytes"
  let ?s1 = "UpdateInboundAccounting ?od p (length ?buffer) (set_sess p (\<lambda>c. c\<lparr>se_detection_buffer := ?buffer\<rparr>) s)"
  have s1: "srv_inv None sk ?s1" "p < length (srv_store ?s1)" "steady s ?s1"
    using assms by (auto simp: srv_inv_set_sess se_view_def intro!: UpdateInboundAccounting_inv steady_intros)
  have raw: "srv_inv None sk (SendRaw ?od p r k ?s1)" "steady s (SendRaw ?od p r k ?s1)" "p < length (srv_store (SendRaw ?od p r k ?s1))" for r k
    using s1 by (auto intro!: SendRaw_inv steady_intros)
  have opened: "srv_inv None sk (UpdateInboundAccounting ?od p 0 (set_sess p f t)) \<and>
      p < length (srv_store (UpdateInboundAccounting ?od p 0 (set_sess p f t))) \<and>
      steady s (UpdateInboundAccounting ?od p 0 (set_sess p f t))"
    if "srv_inv None sk t" "p < length (srv_store t)" "steady s t" "\<And>c. se_view (f c) = se_view c" for f t
    using that by (auto simp: srv_inv_set_sess intro!: UpdateInboundAccounting_inv steady_intros)
  let ?raw = "UpdateInboundAccounting ?od p 0 (set_sess p (\<lambda>c. c\<lparr>se_transport := RawTcp, se_state := Open, se_detection_buffer := []\<rparr>) ?s1)"
  have to_raw: "srv_inv None sk (ProcessRaw hs p ?buffer ?raw) \<and> steady s (ProcessRaw hs p ?buffer ?raw)"
    using ProcessRaw_ok [of sk ?raw p ?buffer] opened [OF s1, of "\<lambda>c. c\<lparr>se_transport := RawTcp, se_state := Open, se_detection_buffer := []\<rparr>"]
      steady_trans by (auto simp: se_view_def)
  let ?ws = "\<lambda>r. UpdateInboundAccounting ?od p 0 (set_sess p (\<lambda>c. c\<lparr>se_transport := WebSocket, se_state := Open, se_detection_buffer := []\<rparr>)
      (SendRaw ?od p r False ?s1))"
  have ws: "srv_inv None sk (?ws r) \<and> p < length (srv_store (?ws r)) \<and> steady s (?ws r)" for r
    by (rule opened) (use raw in \<open>simp_all add: se_view_def\<close>)
  have to_ws: "srv_inv None sk (ProcessWebSocket hs p rest (?ws r)) \<and> steady s (ProcessWebSocket hs p rest (?ws r))" for r rest
    using ws [of r] ProcessWebSocket_ok [of sk "?ws r" p rest] steady_trans by blast
  have "srv_inv None sk (Disconnect ?od p s)" "steady s (Disconnect ?od p s)"
    using Disconnect_inv [OF assms] by (auto intro!: steady_intros)
  then show ?thesis
    using s1 raw to_raw ws to_ws by (simp add: ProcessDetection_def Let_def split: HandshakeStatus.split)
qed

lemma ProcessIncoming_ok:
  assumes "srv_inv None sk s" and "p < length (srv_store s)"
  shows "srv_inv None sk (ProcessIncoming hs p bytes s)" and "steady s (ProcessIncoming hs p bytes s)"
  using ProcessDetection_ok [OF assms, of bytes] ProcessRaw_ok [OF assms, of bytes] ProcessWebSocket_ok [OF assms, of bytes]
  by (simp_all add: ProcessIncoming_def split: TransportKind.split)

end

end
