(* ===== verification/Lifecycle_Invariant.thy ===== *)
theory Lifecycle_Invariant
  imports Read_Invariant
begin

text \<open>
  Completions, accepting, the timer, \<open>Start\<close> and \<open>Stop\<close> keep the server invariant. With the
  read path this covers every operation of \<open>IocpServer::Impl\<close>.
\<close>

subsection \<open>Reads\<close>

lemma Disconnect_alive_iff [simp]:
  assumes "p < length (srv_store s)"
  shows "alive (sess p (Disconnect od p s)) \<longleftrightarrow> False"
proof (cases "alive (sess p s)")
  case True
  then show ?thesis
    using assms Disconnect_alive(1) [OF assms True, of od] by (simp add: sess_def closed_session_def alive_def)
qed simp

lemma srv_inv_skip_dead:
  assumes "srv_inv st (Some p) s" and "\<not> alive (sess p s)"
  shows "srv_inv st None s"
  using assms by (auto simp: srv_inv_def ops_inv_def sess_def split: if_splits)

text \<open>Only operations change.\<close>

lemma srv_inv_change_ops:
  assumes "srv_inv st sk s" and "ops_inv sk' s'" and "life_inv s'"
    and "srv_store s' = srv_store s" and "srv_config s' = srv_config s" and "srv_sessions s' = srv_sessions s"
    and "srv_next_session_id s' = srv_next_session_id s" and "srv_next_generation s' = srv_next_generation s"
    and "srv_metrics s' = srv_metrics s" and "srv_writes s' = srv_writes s" and "srv_fault s' = srv_fault s"
    and "srv_accepted_log s' = srv_accepted_log s" and "srv_wire_log s' = srv_wire_log s"
  shows "srv_inv st sk' s'"
proof -
  have "queue_inv (map_option fst st) s' = queue_inv (map_option fst st) s" "directory_inv s' = directory_inv s"
      "inbound_inv s' = inbound_inv s" "log_inv st s' = log_inv st s"
    unfolding queue_inv_def directory_inv_def inbound_inv_def log_inv_def active_def by (simp_all add: assms(4-))
  with assms show ?thesis by (simp add: srv_inv_def)
qed

lemma srv_inv_read:
  assumes "srv_inv st sk s" and "a < length (srv_reads s)" and "srv_reads s ! a = Some p"
  shows "p < length (srv_store s)"
  using assms by (metis nth_mem ops_inv_def srv_inv_def)

lemma DeleteRead_inv:
  assumes inv: "srv_inv None sk s" and a: "a < length (srv_reads s)" "srv_reads s ! a = Some p" and dead: "\<not> alive (sess p s)"
  shows "srv_inv None sk (DeleteRead a s)"
proof -
  have le: "osum f ((srv_reads s)[a := None]) + f p = osum f (srv_reads s)" for f
    by (rule osum_delete [OF a])
  have p: "p < length (srv_store s)" by (rule srv_inv_read [OF inv a])
  have reads: "reads_of q ((srv_reads s)[a := None]) = (if q = p then reads_of q (srv_reads s) - 1 else reads_of q (srv_reads s))" for q
    using le [of "\<lambda>r. if r = q then 1 else 0"] by (auto simp: reads_of_def)
  have "srv_outstanding s - 1 = of_nat (accepts s + osum (\<lambda>_. 1) ((srv_reads s)[a := None]) + osum (\<lambda>_. 1) (srv_writes s))"
    using inv le [of "\<lambda>_. 1"] by (simp add: srv_inv_def ops_inv_def in_flight_def flip: le)
  moreover have "Some q \<in> set ((srv_reads s)[a := None]) \<Longrightarrow> q < length (srv_store s)" for q
    using inv set_update_subset_insert [of "srv_reads s" a None] by (auto simp: srv_inv_def ops_inv_def)
  ultimately have "ops_inv sk (DeleteRead a s)"
    using inv dead p unfolding srv_inv_def ops_inv_def
    by (auto simp: DeleteRead_def CompleteOperation_def in_flight_def accepts_def reads sess_def)
  then show ?thesis
    by (rule srv_inv_change_ops [OF inv]) (use inv in \<open>auto simp: srv_inv_def life_inv_def DeleteRead_def CompleteOperation_def\<close>)
qed

lemma PostReadOp_inv [simp]: "srv_inv st sk (snd (PostReadOp a s)) = srv_inv st sk s"
  by (simp add: PostReadOp_def split: option.split)

lemma PostReadOp_fields [simp]:
  "srv_store (snd (PostReadOp a s)) = srv_store s" "srv_reads (snd (PostReadOp a s)) = srv_reads s"
  "srv_accept_pool (snd (PostReadOp a s)) = srv_accept_pool s" "srv_config (snd (PostReadOp a s)) = srv_config s"
  by (simp_all add: PostReadOp_def split: option.split)

text \<open>A session is disconnected and its read operation deleted.\<close>

lemma end_read_inv:
  assumes "srv_inv None sk s" and "a < length (srv_reads s)" and "srv_reads s ! a = Some p"
  shows "srv_inv None sk (DeleteRead a (Disconnect od p s))"
proof -
  have p: "p < length (srv_store s)" by (rule srv_inv_read [OF assms])
  show ?thesis
    by (rule DeleteRead_inv [where p = p]) (use assms p Disconnect_inv [OF assms(1) p] in simp_all)
qed

context message_application
begin

lemma HandleRead_ok:
  assumes inv: "srv_inv None sk s" and a: "a < length (srv_reads s)"
  shows "srv_inv None sk (HandleRead hs a ok bytes s)"
proof (cases "srv_reads s ! a")
  case None
  with inv show ?thesis by (simp add: HandleRead_def)
next
  case (Some p)
  have p: "p < length (srv_store s)" by (rule srv_inv_read [OF inv a Some])
  let ?s1 = "set_sess p (\<lambda>c. c\<lparr>se_last_activity_ms := fst (MonotonicMilliseconds s)\<rparr>) (snd (MonotonicMilliseconds s))"
  let ?s2 = "ProcessIncoming hs p bytes ?s1"
  have s1: "srv_inv None sk ?s1" "p < length (srv_store ?s1)" "steady s ?s1"
    using inv p by (auto simp: srv_inv_set_sess se_view_def intro!: steady_intros)
  have s2: "srv_inv None sk ?s2" "steady s ?s2"
    using ProcessIncoming_ok [OF s1(1,2), of bytes] steady_trans [OF s1(3)] by simp_all
  then have "srv_reads ?s2 = srv_reads s" by (simp add: steady_def)
  then have "srv_inv None sk (DeleteRead a (Disconnect od p ?s2))" "srv_inv None sk (DeleteRead a (Disconnect od p (snd (PostReadOp a ?s2))))"
    "srv_inv None sk (DeleteRead a (Disconnect od p s))" for od
    using end_read_inv [of sk _ a p od] s2 inv a Some by simp_all
  then show ?thesis
    using s2(1) by (simp add: HandleRead_def Some result_simps)
qed

end

subsection \<open>New sessions\<close>

lemma osum_zero: "(\<And>x. Some x \<in> set xs \<Longrightarrow> f x = 0) \<Longrightarrow> osum f xs = 0"
  unfolding osum_def by (induction xs) (auto split: option.split)

lemma writes_of_pos: "0 < writes_of p ws \<Longrightarrow> \<exists>a < length ws. \<exists>w. ws ! a = Some w \<and> wo_session w = p"
  unfolding writes_of_def using osum_zero [of ws "\<lambda>w. if wo_session w = p then 1 else 0"] by (auto simp: in_set_conv_nth split: if_splits) metis

lemma log_inv_new:
  assumes log: "log_inv None s" and "se_send_queue c = []" and store: "srv_store s' = srv_store s @ [c]"
    and same: "srv_wire_log s' = srv_wire_log s" "srv_accepted_log s' = srv_accepted_log s" "srv_writes s' = srv_writes s"
  shows "log_inv None s'"
  unfolding log_inv_def same
proof (intro allI)
  fix q
  note q = log [unfolded log_inv_def, rule_format, of q]
  have new: "log_of q (srv_accepted_log s) = [] \<and> log_of q (srv_wire_log s) = [] \<and> pending q (srv_writes s) = []"
    if "length (srv_store s) \<le> q"
    using q that by auto
  show "(if q < length (srv_store s') \<and> alive (srv_store s' ! q) \<and> None \<noteq> Some (q, True)
      then log_of q (srv_wire_log s) @ pending q (srv_writes s) @ queue_wire (srv_store s' ! q) = log_of q (srv_accepted_log s)
      else prefix (log_of q (srv_wire_log s) @ pending q (srv_writes s)) (log_of q (srv_accepted_log s))) \<and>
     (length (srv_store s') \<le> q \<longrightarrow> log_of q (srv_accepted_log s) = [])"
    using q new assms(2) by (cases q "length (srv_store s)" rule: linorder_cases) (auto simp: store nth_append queue_wire_def split: if_splits)
qed

lemma InsertSession_inv:
  assumes inv: "srv_inv None None s" and bound: "Suc (length (srv_store s)) < 2 ^ 62"
    and room: "m_active_connections (srv_metrics s) < cfg_max_connections (srv_config s)"
  shows "srv_inv None (Some (length (srv_store s))) (InsertSession hs socket s)"
    and "length (srv_store (InsertSession hs socket s)) = Suc (length (srv_store s))"
    and "alive (sess (length (srv_store s)) (InsertSession hs socket s))"
    and "srv_accept_pool (InsertSession hs socket s) = srv_accept_pool s"
proof -
  let ?p = "length (srv_store s)" and ?t = "InsertSession hs socket s"
  let ?c = "(new_session (nth_handle ?p) socket (srv_config s) (fst (MonotonicMilliseconds
      (s\<lparr>srv_next_session_id := srv_next_session_id s + 1, srv_next_generation := srv_next_generation s + 1\<rparr>))))\<lparr>se_state := Handshaking\<rparr>"
  have dir: "directory_inv s" and q: "queue_inv None s" and ops: "ops_inv None s" using inv by (simp_all add: srv_inv_def)
  have h: "\<lparr>sh_id = srv_next_session_id s, sh_generation = srv_next_generation s\<rparr> = nth_handle ?p"
    using dir by (simp add: directory_inv_def nth_handle_def)
  have t: "srv_store ?t = srv_store s @ [?c]" "srv_sessions ?t = sr_Insert (nth_handle ?p) ?p (srv_sessions s)"
    "srv_next_session_id ?t = srv_next_session_id s + 1" "srv_next_generation ?t = srv_next_generation s + 1"
    "m_active_connections (srv_metrics ?t) = m_active_connections (srv_metrics s) + 1"
    "m_queued_bytes (srv_metrics ?t) = m_queued_bytes (srv_metrics s)" "m_inbound_bytes (srv_metrics ?t) = m_inbound_bytes (srv_metrics s)"
    "srv_config ?t = srv_config s" "srv_writes ?t = srv_writes s" "srv_reads ?t = srv_reads s" "srv_outstanding ?t = srv_outstanding s"
    "srv_accept_pool ?t = srv_accept_pool s" "srv_fault ?t = srv_fault s" "srv_running ?t = srv_running s" "srv_initialized ?t = srv_initialized s"
    "srv_accepted_log ?t = srv_accepted_log s" "srv_wire_log ?t = srv_wire_log s"
    by (simp_all add: InsertSession_def Let_def case_prod_unfold h)
  have none: "flying ?p (srv_writes s) = 0" "writes_of ?p (srv_writes s) = 0" "reads_of ?p (srv_reads s) = 0"
    unfolding flying_def writes_of_def reads_of_def using q ops by (auto intro!: osum_zero simp: queue_inv_def ops_inv_def)
  then have "sess_queue_inv False (srv_config s) (srv_writes s) ?p ?c"
    by (simp add: sess_queue_inv_def new_session_def)
  then have "queue_inv None ?t"
    using q unfolding queue_inv_def by (auto simp: t nth_append less_Suc_eq new_session_def)
  moreover have "inbound_inv ?t"
    using inv by (simp add: srv_inv_def inbound_inv_def t new_session_def)
  moreover have "ops_inv (Some ?p) ?t"
    using ops none(3) unfolding ops_inv_def by (auto simp: t in_flight_def accepts_def nth_append less_Suc_eq split: option.split)
  moreover have "directory_inv ?t"
  proof -
    have wf: "sr_wf (srv_sessions s)" using dir by (simp add: directory_inv_def)
    have act: "active ?t = Suc (active s)" by (simp add: active_def t alive_def new_session_def)
    have "active s < unat (cfg_max_connections (srv_config s))"
      using dir room unat_u64_less [of "cfg_max_connections (srv_config s)"]
      by (simp add: directory_inv_def word_less_nat_alt unat_of_nat)
    moreover have "sr_entries (srv_sessions ?t) key = Some r \<longleftrightarrow>
        r < length (srv_store ?t) \<and> alive (srv_store ?t ! r) \<and> sh_id (nth_handle r) = key" for key r
    proof -
      have "sh_id (nth_handle r) = sh_id (nth_handle ?p) \<longleftrightarrow> r = ?p" if "r < Suc ?p" for r
        using nth_handle_inj [of r ?p] that bound by auto
      with dir show ?thesis
        unfolding directory_inv_def
        by (auto simp: t sr.insert_entries [OF wf] nth_append less_Suc_eq alive_def new_session_def)
    qed
    ultimately show ?thesis
      using dir bound act sr.insert_wf [OF wf] unfolding directory_inv_def
      by (auto simp: t nth_append less_Suc_eq alive_def new_session_def)
  qed
  moreover have "life_inv ?t = life_inv s" by (simp add: life_inv_def t)
  moreover have "log_inv None ?t"
    by (rule log_inv_new [of s ?c]) (use inv in \<open>simp_all add: t srv_inv_def new_session_def\<close>)
  ultimately show "srv_inv None (Some ?p) ?t" using inv by (simp add: srv_inv_def t)
  show "length (srv_store ?t) = Suc ?p" "alive (sess ?p ?t)" "srv_accept_pool ?t = srv_accept_pool s"
    by (simp_all add: t sess_def alive_def new_session_def)
qed

lemma PostRead_inv:
  assumes inv: "srv_inv None (Some p) s" and p: "p < length (srv_store s)"
  shows "fst (PostRead p s) \<Longrightarrow> srv_inv None None (snd (PostRead p s))"
    and "\<not> fst (PostRead p s) \<Longrightarrow> srv_inv None (Some p) (snd (PostRead p s))"
    and "srv_store (snd (PostRead p s)) = srv_store s" and "srv_accept_pool (snd (PostRead p s)) = srv_accept_pool s"
proof -
  let ?a = "length (srv_reads s)"
  let ?t = "TrackOperation ((snd (draw s))\<lparr>srv_reads := srv_reads s @ [Some p]\<rparr>)"
  have eq: "PostRead p s = (if \<not> fst (draw s) then (False, snd (draw s))
      else if fst (PostReadOp ?a ?t) then (True, snd (PostReadOp ?a ?t)) else (False, DeleteRead ?a (snd (PostReadOp ?a ?t))))"
    by (simp add: PostRead_def result_simps)
  have ops: "ops_inv (Some p) s" using inv by (simp add: srv_inv_def)
  then have "ops_inv None ?t"
    using p unfolding ops_inv_def
    by (auto simp: TrackOperation_def in_flight_def accepts_def reads_of_def split: option.split if_splits)
  then have t: "srv_inv None None ?t"
    by (rule srv_inv_change_ops [OF inv]) (use inv in \<open>auto simp: TrackOperation_def srv_inv_def life_inv_def\<close>)
  then show "fst (PostRead p s) \<Longrightarrow> srv_inv None None (snd (PostRead p s))" by (simp add: eq split: if_splits)
  let ?u = "(snd (PostReadOp ?a ?t))\<lparr>srv_reads := srv_reads s @ [None], srv_outstanding := srv_outstanding s\<rparr>"
  have u: "DeleteRead ?a (snd (PostReadOp ?a ?t)) = ?u"
    by (simp add: DeleteRead_def CompleteOperation_def PostReadOp_def TrackOperation_def draw_def split: option.split)
  have ops': "ops_inv (Some p) ?u"
    using ops unfolding ops_inv_def
    by (auto simp: in_flight_def accepts_def reads_of_def PostReadOp_def TrackOperation_def draw_def split: option.split if_splits)
  have t': "srv_inv None None (snd (PostReadOp ?a ?t))" using t by simp
  then have "life_inv ?u" by (auto simp: srv_inv_def life_inv_def)
  with ops' have "srv_inv None (Some p) ?u" by (rule srv_inv_change_ops [OF t']) simp_all
  then have "srv_inv None (Some p) (DeleteRead ?a (snd (PostReadOp ?a ?t)))" by (simp only: u)
  with inv show "\<not> fst (PostRead p s) \<Longrightarrow> srv_inv None (Some p) (snd (PostRead p s))" by (simp add: eq split: if_splits)
  show "srv_store (snd (PostRead p s)) = srv_store s" "srv_accept_pool (snd (PostRead p s)) = srv_accept_pool s"
    by (simp_all add: eq DeleteRead_def CompleteOperation_def TrackOperation_def)
qed

lemma count_rejected_inv [simp]: "srv_inv st sk (count_rejected s) = srv_inv st sk s"
  by (simp add: count_rejected_def srv_inv_count)

lemma count_rejected_fields [simp]:
  "srv_store (count_rejected s) = srv_store s" "srv_accept_pool (count_rejected s) = srv_accept_pool s"
  "srv_running (count_rejected s) = srv_running s" "srv_config (count_rejected s) = srv_config s"
  by (simp_all add: count_rejected_def)

lemma AcceptSession_inv:
  assumes inv: "srv_inv None None s" and bound: "Suc (length (srv_store s)) < 2 ^ 62"
  shows "srv_inv None None (snd (AcceptSession hs socket s))"
    and "srv_accept_pool (snd (AcceptSession hs socket s)) = srv_accept_pool s"
proof -
  let ?p = "length (srv_store s)" and ?s2 = "snd (draw (snd (draw s)))"
  let ?t = "InsertSession hs socket ?s2"
  have post: "srv_inv None None (if fst (PostRead ?p ?t) then snd (PostRead ?p ?t) else Disconnect od ?p (snd (PostRead ?p ?t)))"
    "srv_accept_pool (if fst (PostRead ?p ?t) then snd (PostRead ?p ?t) else Disconnect od ?p (snd (PostRead ?p ?t))) = srv_accept_pool s"
    if "m_active_connections (srv_metrics s) < cfg_max_connections (srv_config s)" for od
  proof -
    have s2: "srv_inv None None ?s2" using inv by simp
    note t = InsertSession_inv [OF s2, of hs socket]
    have t1: "srv_inv None (Some ?p) ?t" "?p < length (srv_store ?t)" using t that bound by simp_all
    note r = PostRead_inv [OF t1]
    have "srv_inv None None (Disconnect od ?p (snd (PostRead ?p ?t)))" if "\<not> fst (PostRead ?p ?t)"
      using srv_inv_skip_dead [OF Disconnect_inv [OF r(2) [OF that], of ?p od]] t1(2) r(3) by simp
    then show "srv_inv None None (if fst (PostRead ?p ?t) then snd (PostRead ?p ?t) else Disconnect od ?p (snd (PostRead ?p ?t)))"
      using r(1) by simp
    show "srv_accept_pool (if fst (PostRead ?p ?t) then snd (PostRead ?p ?t) else Disconnect od ?p (snd (PostRead ?p ?t))) = srv_accept_pool s"
      using r(4) t(4) that bound by simp
  qed
  have eq: "snd (AcceptSession hs socket s) =
      (if m_active_connections (srv_metrics s) \<ge> cfg_max_connections (srv_config s) then count_rejected s
       else if \<not> fst (draw s) then count_rejected (snd (draw s))
       else if \<not> fst (draw (snd (draw s))) then count_rejected ?s2
       else if fst (PostRead ?p ?t) then snd (PostRead ?p ?t) else Disconnect (on_disconnect hs) ?p (snd (PostRead ?p ?t)))"
    by (simp add: AcceptSession_def result_simps)
  show "srv_inv None None (snd (AcceptSession hs socket s))"
    unfolding eq using inv post(1) by (simp add: not_le)
  show "srv_accept_pool (snd (AcceptSession hs socket s)) = srv_accept_pool s"
    unfolding eq using post(2) by (simp add: not_le)
qed

subsection \<open>The accept pool\<close>

lemma srv_inv_pool:
  assumes inv: "srv_inv st sk s" and pool: "srv_accept_pool s = Some pool"
    and new: "pool_inv pool'" "pool_capacity pool' = pool_capacity pool"
    and n: "n = srv_outstanding s + of_nat (card (live pool')) - of_nat (card (live pool))"
  shows "srv_inv st sk (s\<lparr>srv_accept_pool := Some pool', srv_outstanding := n\<rparr>)"
proof (rule srv_inv_change_ops [OF inv])
  show "ops_inv sk (s\<lparr>srv_accept_pool := Some pool', srv_outstanding := n\<rparr>)"
    using inv pool new n unfolding srv_inv_def ops_inv_def by (simp add: in_flight_def accepts_def)
qed (use inv pool in \<open>auto simp: srv_inv_def life_inv_def\<close>)

lemma srv_inv_poolD:
  assumes "srv_inv st sk s" and "srv_accept_pool s = Some pool"
  shows "pool_inv pool"
  using assms by (simp add: srv_inv_def ops_inv_def)

lemma srv_inv_running_pool: "srv_inv st sk s \<Longrightarrow> srv_running s \<Longrightarrow> \<exists>pool. srv_accept_pool s = Some pool"
  by (auto simp: srv_inv_def life_inv_def)

lemma OpenSocket_inv [simp]: "srv_inv st sk (snd (OpenSocket s)) = srv_inv st sk s"
  by (simp add: OpenSocket_def result_simps)

lemma OpenSocket_fields [simp]:
  "srv_accept_pool (snd (OpenSocket s)) = srv_accept_pool s" "srv_outstanding (snd (OpenSocket s)) = srv_outstanding s"
  "srv_store (snd (OpenSocket s)) = srv_store s" "srv_running (snd (OpenSocket s)) = srv_running s"
  "srv_config (snd (OpenSocket s)) = srv_config s" "srv_initialized (snd (OpenSocket s)) = srv_initialized s"
  by (simp_all add: OpenSocket_def result_simps)

lemma closesocket_inv [simp]: "srv_inv st sk (closesocket k s) = srv_inv st sk s"
  by (simp add: closesocket_def)

lemma closesocket_pool [simp]: "srv_accept_pool (closesocket k s) = srv_accept_pool s"
  by (simp add: closesocket_def)

lemma storage_update:
  assumes "pool_inv pool" and "slot \<in> live pool"
  shows "pool_inv (pool\<lparr>pool_slots := (pool_slots pool)[slot := Storage x]\<rparr>)"
    and "live (pool\<lparr>pool_slots := (pool_slots pool)[slot := Storage x]\<rparr>) = live pool"
proof -
  let ?pool = "pool\<lparr>pool_slots := (pool_slots pool)[slot := Storage x]\<rparr>"
  have slot: "slot < length (pool_slots pool)" "is_storage (pool_slots pool ! slot)"
    using assms(2) by (auto simp: live_def pool_capacity_def)
  show live: "live ?pool = live pool"
    using slot by (auto simp: live_def pool_capacity_def nth_list_update)
  obtain fl where fl: "free_list pool fl" using assms(1) by (auto simp: pool_inv_def)
  then have "slot \<notin> set fl" using assms(2) by (auto simp: free_list_def)
  with fl live have "free_list ?pool fl" by (simp add: free_list_def pool_capacity_def)
  moreover have "map is_storage ((pool_slots pool)[slot := Storage x]) = map is_storage (pool_slots pool)"
    using slot by (simp add: map_update_same)
  ultimately show "pool_inv ?pool" using assms(1) by (auto simp: pool_inv_def)
qed

lemma set_accept_socket_inv:
  assumes inv: "srv_inv st sk s" and pool: "srv_accept_pool s = Some pool" and slot: "slot \<in> live pool"
  shows "srv_inv st sk (set_accept_socket slot x s)"
    and "\<exists>pool'. srv_accept_pool (set_accept_socket slot x s) = Some pool' \<and> slot \<in> live pool'"
proof -
  note u = storage_update [OF srv_inv_poolD [OF inv pool] slot, of x]
  show "srv_inv st sk (set_accept_socket slot x s)"
    using srv_inv_pool [OF inv pool u(1) _ refl] by (simp add: set_accept_socket_def pool u(2) pool_capacity_def)
  show "\<exists>pool'. srv_accept_pool (set_accept_socket slot x s) = Some pool' \<and> slot \<in> live pool'"
    using slot u(2) by (simp add: set_accept_socket_def pool)
qed

lemma DestroyAccept_inv:
  assumes inv: "srv_inv st sk s" and pool: "srv_accept_pool s = Some pool" and slot: "slot \<in> live pool"
  shows "srv_inv st sk (CompleteOperation (DestroyAccept slot s))"
proof -
  let ?r = "pool_Destroy (Some (slot_ptr pool slot)) pool"
  note d = pool_Destroy_ok [OF srv_inv_poolD [OF inv pool] slot]
  have "Suc (card (live (snd ?r))) = card (live pool)" using card.remove [OF finite_live slot] by (simp only: d(3))
  then have "of_nat (card (live pool)) = 1 + (of_nat (card (live (snd ?r))) :: size_t)" by (metis of_nat_Suc add.commute)
  then have n: "srv_outstanding s - 1 = srv_outstanding s + of_nat (card (live (snd ?r))) - of_nat (card (live pool))" by simp
  have "CompleteOperation (DestroyAccept slot s) = s\<lparr>srv_accept_pool := Some (snd ?r), srv_outstanding := srv_outstanding s - 1\<rparr>"
    using d(1) by (simp add: DestroyAccept_def pool CompleteOperation_def slot_ptr_def case_prod_unfold)
  then show ?thesis using srv_inv_pool [OF inv pool d(2,5) n] by simp
qed

lemma PostNewAccept_inv:
  assumes inv: "srv_inv st sk s"
  shows "srv_inv st sk (snd (PostNewAccept s))"
proof (cases "srv_running s \<and> srv_listen_socket s \<noteq> None \<and> fst (OpenSocket s) \<noteq> None")
  case True
  then obtain k where k: "OpenSocket s = (Some k, snd (OpenSocket s))" by (metis option.exhaust prod.collapse)
  from True obtain l where on: "srv_running s" "srv_listen_socket s = Some l" by blast
  let ?s1 = "snd (OpenSocket s)"
  obtain pool where pool: "srv_accept_pool s = Some pool" using srv_inv_running_pool [OF inv] True by blast
  have s1: "srv_inv st sk ?s1" "srv_accept_pool ?s1 = Some pool" using inv pool by simp_all
  note pi = srv_inv_poolD [OF inv pool]
  show ?thesis
  proof (cases "pool_free_head pool")
    case None
    then have "snd (PostNewAccept s) = count_rejected (?s1\<lparr>srv_accept_pool := Some pool\<rparr>)"
      using on by (subst PostNewAccept_def, subst k) (simp add: pool pool_Create_def)
    moreover have "?s1\<lparr>srv_accept_pool := Some pool\<rparr> = ?s1" using s1(2) by simp
    ultimately show ?thesis using s1(1) by simp
  next
    case (Some slot)
    let ?r = "pool_Create (Some (Some k)) pool"
    note c = pool_Create_ok(1,2,3,5) [OF pi Some, of "Some k"] and fresh = pool_Create_ok(4) [OF pi Some]
    let ?t = "?s1\<lparr>srv_accept_pool := Some (snd ?r), srv_outstanding := srv_outstanding ?s1 + 1\<rparr>"
    have t: "srv_inv st sk ?t"
      by (rule srv_inv_pool [OF s1 c(2)]) (use c(3,4) fresh in \<open>simp_all add: pool_capacity_def\<close>)
    have "srv_inv st sk (CompleteOperation (DestroyAccept slot (snd (draw ?t))))"
      by (rule DestroyAccept_inv [where pool = "snd ?r"]) (use t c(3) in simp_all)
    moreover have "snd (PostNewAccept s) =
        (if fst (draw ?t) then snd (draw ?t) else CompleteOperation (DestroyAccept slot (snd (draw ?t))))"
      using on c(1) by (subst PostNewAccept_def, subst k)
        (simp add: pool PostAccept_def TrackOperation_def case_prod_unfold case_bool_if)
    ultimately show ?thesis using t by simp
  qed
next
  case False
  then have "snd (PostNewAccept s) = s \<or> snd (PostNewAccept s) = snd (OpenSocket s)"
    by (auto simp: PostNewAccept_def case_prod_unfold split: option.split)
  with inv show ?thesis by auto
qed

lemma RepostAccept_inv:
  assumes inv: "srv_inv st sk s" and pool: "srv_accept_pool s = Some pool" and slot: "slot \<in> live pool"
  shows "srv_inv st sk (snd (RepostAccept slot s))"
    and "\<exists>pool'. srv_accept_pool (snd (RepostAccept slot s)) = Some pool' \<and> slot \<in> live pool'"
proof -
  have "srv_inv st sk (snd (RepostAccept slot s)) \<and>
      (\<exists>pool'. srv_accept_pool (snd (RepostAccept slot s)) = Some pool' \<and> slot \<in> live pool')"
  proof (cases "srv_running s \<and> fst (OpenSocket s) \<noteq> None")
    case True
    then obtain k where k: "OpenSocket s = (Some k, snd (OpenSocket s))" by (metis option.exhaust prod.collapse)
    let ?t = "set_accept_socket slot (Some k) (snd (OpenSocket s))"
    have s1: "srv_inv st sk (snd (OpenSocket s))" "srv_accept_pool (snd (OpenSocket s)) = Some pool" using inv pool by simp_all
    note t = set_accept_socket_inv [OF s1 slot, of "Some k"]
    then obtain pool' where p': "srv_accept_pool ?t = Some pool'" "slot \<in> live pool'" by blast
    have c: "srv_inv st sk (closesocket k (snd (draw ?t)))" "srv_accept_pool (closesocket k (snd (draw ?t))) = Some pool'"
      using t(1) p'(1) by simp_all
    have "snd (RepostAccept slot s) = (if fst (draw ?t) then snd (draw ?t) else set_accept_socket slot None (closesocket k (snd (draw ?t))))"
      using True by (subst RepostAccept_def, subst k) (simp add: PostAccept_def case_prod_unfold case_bool_if)
    then show ?thesis using t(1) p' set_accept_socket_inv [OF c p'(2), of None] by simp
  next
    case False
    then have "snd (RepostAccept slot s) = s \<or> snd (RepostAccept slot s) = snd (OpenSocket s)"
      by (auto simp: RepostAccept_def case_prod_unfold split: option.split)
    with inv pool slot show ?thesis by auto
  qed
  then show "srv_inv st sk (snd (RepostAccept slot s))"
    "\<exists>pool'. srv_accept_pool (snd (RepostAccept slot s)) = Some pool' \<and> slot \<in> live pool'" by simp_all
qed

lemma HandleAccept_inv:
  assumes inv: "srv_inv None None s" and bound: "srv_running s \<Longrightarrow> Suc (length (srv_store s)) < 2 ^ 62"
    and pool: "srv_accept_pool s = Some pool" and slot: "slot \<in> live pool"
  shows "srv_inv None None (HandleAccept hs slot ok s)"
proof -
  let ?s1 = "set_accept_socket slot None s"
  note s1 = set_accept_socket_inv [OF inv pool slot, of None]
  have store: "srv_store ?s1 = srv_store s" "srv_running ?s1 = srv_running s" by (simp_all add: set_accept_socket_def pool)
  define r where "r = (if ok \<and> srv_running ?s1
     then (case accept_socket slot s of None \<Rightarrow> (False, count_rejected ?s1) | Some socket \<Rightarrow> AcceptSession hs socket ?s1)
     else (False, ?s1))"
  have s2: "srv_inv None None (snd r)" "srv_accept_pool (snd r) = srv_accept_pool ?s1"
    using s1(1) AcceptSession_inv [OF s1(1)] bound store by (auto simp: r_def split: option.split)
  with s1(2) obtain pool2 where p2: "srv_accept_pool (snd r) = Some pool2" "slot \<in> live pool2" by auto
  note s3 = RepostAccept_inv [OF s2(1) p2]
  then obtain pool3 where p3: "srv_accept_pool (snd (RepostAccept slot (snd r))) = Some pool3" "slot \<in> live pool3" by blast
  note s4 = DestroyAccept_inv [OF s3(1) p3]
  have "HandleAccept hs slot ok s =
      (let s4 = if fst (RepostAccept slot (snd r)) then snd (RepostAccept slot (snd r))
                else CompleteOperation (DestroyAccept slot (snd (RepostAccept slot (snd r))))
       in if fst r then s4 else (case accept_socket slot s of None \<Rightarrow> s4 | Some socket \<Rightarrow> closesocket socket s4))"
    unfolding r_def by (simp add: HandleAccept_def Let_def case_prod_unfold)
  then show ?thesis using s3(1) s4 by (simp add: Let_def split: option.split)
qed

subsection \<open>The timer\<close>

lemma directory_snapshot:
  assumes "srv_inv st sk s"
  shows "set (sr_Snapshot (srv_sessions s)) = {p. p < length (srv_store s) \<and> alive (srv_store s ! p)}"
proof -
  have inv: "directory_inv s" using assms by (simp add: srv_inv_def)
  then show ?thesis
    by (auto simp: directory_inv_def sr.snapshot_entries ran_def)
qed

lemma TimerCheck_inv:
  "srv_inv None sk s \<Longrightarrow> p < length (srv_store s) \<Longrightarrow> srv_inv None sk (TimerCheck od now p s)"
  by (simp add: TimerCheck_def Let_def Disconnect_inv SendControl_inv srv_inv_set_sess se_view_def)

lemma keeps_TimerCheck [keeps_intros]: "keeps s t \<Longrightarrow> keeps s (TimerCheck od now p t)"
  by (auto simp: TimerCheck_def Let_def in_view_def alive_def intro!: keeps_intros keeps_set_sess)

lemma fold_sessions_inv:
  assumes step: "\<And>p s. srv_inv None sk s \<Longrightarrow> p < length (srv_store s) \<Longrightarrow> srv_inv None sk (f p s) \<and> length (srv_store (f p s)) = length (srv_store s)"
    and "srv_inv None sk s" and "\<forall>p \<in> set ps. p < length (srv_store s)"
  shows "srv_inv None sk (fold f ps s)"
  using assms(2,3) by (induction ps arbitrary: s) (simp_all add: step)

lemma TimerPass_inv:
  assumes "srv_inv None sk s"
  shows "srv_inv None sk (TimerPass od s)"
proof -
  have "srv_inv None sk (fold (TimerCheck od now) (sr_Snapshot (srv_sessions s)) (snd (MonotonicMilliseconds s)))" for now
    by (rule fold_sessions_inv)
      (use assms directory_snapshot [OF assms] in \<open>simp_all add: TimerCheck_inv keepsD(1) [OF keeps_TimerCheck [OF keeps_refl]]\<close>)
  with assms show ?thesis by (simp add: TimerPass_def case_prod_unfold)
qed

subsection \<open>Start and stop\<close>

text \<open>Nothing in flight and a zero counter are the same thing.\<close>

lemma osum_count_bound:
  assumes "\<And>x. Some x \<in> set xs \<Longrightarrow> g x < n" and "\<And>p. p < n \<Longrightarrow> osum (\<lambda>x. if g x = p then 1 else 0) xs \<le> 1"
  shows "osum (\<lambda>_. 1) xs \<le> n"
proof -
  have "osum (\<lambda>_. 1) xs = (\<Sum>p<n. osum (\<lambda>x. if g x = p then 1 else 0) xs)"
    using assms(1)
  proof (induction xs)
    case (Cons x xs)
    have "(\<Sum>p<n. case_option 0 (\<lambda>x. if g x = p then 1 else 0) x) = case_option 0 (\<lambda>_. 1 :: nat) x"
      using Cons.prems by (cases x) auto
    with Cons show ?case by (cases x) (simp_all add: osum_def sum.distrib)
  qed simp
  also have "\<dots> \<le> (\<Sum>p<n. 1)" by (rule sum_mono) (use assms(2) in simp)
  finally show ?thesis by simp
qed

lemma accepts_bound:
  assumes inv: "srv_inv st sk s"
  shows "accepts s < 2 ^ 62"
proof (cases "srv_accept_pool s")
  case (Some pool)
  have "live pool \<subseteq> {..<pool_capacity pool}" by (auto simp: live_def)
  then have "card (live pool) \<le> pool_capacity pool" using card_mono [of "{..<pool_capacity pool}" "live pool"] by simp
  then show ?thesis using inv Some by (simp add: accepts_def srv_inv_def ops_inv_def)
qed (simp add: accepts_def)

lemma in_flight_bound:
  assumes inv: "srv_inv st sk s"
  shows "in_flight s < 2 ^ 64"
proof -
  have n: "length (srv_store s) < 2 ^ 62" using inv by (simp add: srv_inv_def directory_inv_def)
  have "osum (\<lambda>_. 1) (srv_reads s) \<le> length (srv_store s)"
    using inv by (intro osum_count_bound [where g = "\<lambda>p. p"]) (auto simp: srv_inv_def ops_inv_def reads_of_def)
  moreover have "osum (\<lambda>_. 1) (srv_writes s) \<le> length (srv_store s)"
    using inv by (intro osum_count_bound [where g = wo_session]) (auto simp: srv_inv_def queue_inv_def sess_queue_inv_def writes_of_def)
  moreover have "accepts s < 2 ^ 62" by (rule accepts_bound [OF inv])
  ultimately show ?thesis using n by (simp add: in_flight_def)
qed

lemma outstanding_zero: "srv_inv st sk s \<Longrightarrow> srv_outstanding s = 0 \<longleftrightarrow> in_flight s = 0"
  using in_flight_bound [of st sk s] by (auto simp: srv_inv_def ops_inv_def word_unat_eq_iff unat_of_nat)

lemma StopBegin_inv:
  assumes "srv_inv None None s"
  shows "srv_inv None None (StopBegin od s)" and "\<not> srv_running (StopBegin od s)"
proof -
  let ?s2 = "case srv_listen_socket s of None \<Rightarrow> s\<lparr>srv_running := False, srv_stopping := True\<rparr>
    | Some socket \<Rightarrow> closesocket socket (s\<lparr>srv_running := False, srv_stopping := True, srv_listen_socket := None\<rparr>)"
  have "srv_inv None None (s\<lparr>srv_running := False\<rparr>)"
    by (rule srv_inv_change_ops [OF assms]) (use assms in \<open>auto simp: srv_inv_def ops_inv_def in_flight_def accepts_def life_inv_def\<close>)
  then have s2: "srv_inv None None ?s2" by (simp add: split: option.split)
  have "srv_inv None None (fold (Disconnect od) (sr_Snapshot (srv_sessions ?s2)) ?s2)"
    by (rule fold_sessions_inv) (use s2 directory_snapshot [OF s2] in \<open>simp_all add: Disconnect_inv\<close>)
  then show "srv_inv None None (StopBegin od s)" by (simp add: StopBegin_def Let_def split: option.split)
  have "srv_running (fold (Disconnect od) ps t) = srv_running t" for ps and t :: "'a Server"
    by (induction ps arbitrary: t) simp_all
  then show "\<not> srv_running (StopBegin od s)" by (simp add: StopBegin_def Let_def closesocket_def split: option.split)
qed

lemma StopEnd_inv:
  assumes inv: "srv_inv st sk s" and zero: "srv_outstanding s = 0" and off: "\<not> srv_running s"
  shows "srv_inv st sk (StopEnd s)"
proof -
  have "in_flight s = 0" using zero outstanding_zero [OF inv] by simp
  then have "ops_inv sk (StopEnd s)"
    using inv zero by (simp add: srv_inv_def ops_inv_def StopEnd_def in_flight_def accepts_def)
  then show ?thesis
    by (rule srv_inv_change_ops [OF inv]) (use inv off in \<open>auto simp: srv_inv_def life_inv_def StopEnd_def\<close>)
qed

lemma Stop_inv: "srv_inv None None s \<Longrightarrow> srv_inv None None (Stop od s)"
  using StopBegin_inv [of s od] StopEnd_inv [of None None "StopBegin od s"] by (simp add: Stop_def Let_def)

lemma WinsockStart_inv [simp]: "srv_inv st sk (snd (WinsockStart s)) = srv_inv st sk s"
  by (simp add: WinsockStart_def case_prod_unfold)

lemma WinsockStart_fields [simp]:
  "srv_initialized (snd (WinsockStart s)) = srv_initialized s" "srv_config (snd (WinsockStart s)) = srv_config s"
  by (simp_all add: WinsockStart_def case_prod_unfold)

lemma draws_inv [simp]: "srv_inv st sk (snd (draws n s)) = srv_inv st sk s"
  by (induction n arbitrary: s) (simp_all add: result_simps)

lemma draws_fields [simp]:
  "srv_initialized (snd (draws n s)) = srv_initialized s" "srv_config (snd (draws n s)) = srv_config s"
  by (induction n arbitrary: s) (simp_all add: result_simps)

lemma pool_new_ok:
  assumes "4 \<le> slot_size" and "slot_size < 2 ^ 32" and "0 < n" and "n < 2 ^ 32"
  shows "\<exists>pool. pool_new debug slot_size n = Inr pool \<and> pool_inv pool \<and> live pool = {} \<and> pool_capacity pool < 2 ^ 62"
proof -
  have "n * slot_size < 2 ^ 32 * 2 ^ 32" using assms by (intro mult_strict_mono) simp_all
  then have "n * slot_size \<le> size_max" by (simp add: size_max_def)
  then have "n \<le> size_max div slot_size" using assms(1) by (simp add: less_eq_div_iff_mult_less_eq)
  then obtain pool :: "'a TypedObjectPool" where new: "pool_new debug slot_size n = Inr pool"
    using assms(3) by (simp add: pool_new_def not_less)
  with pool_new_inv [OF this] assms show ?thesis by auto
qed

lemma Initialize_inv:
  assumes inv: "srv_inv st sk s" and slot: "4 \<le> slot_size" "slot_size < 2 ^ 32"
  shows "srv_inv st sk (snd (Initialize debug slot_size s))"
proof (cases "srv_initialized s")
  case True
  with inv show ?thesis by (simp add: Initialize_def)
next
  case False
  let ?s3 = "snd (OpenSocket (snd (draw (snd (WinsockStart s)))))"
  let ?s4 = "snd (draws 6 ?s3)"
  have s3: "srv_inv st sk ?s3" and s4: "srv_inv st sk ?s4" "\<not> srv_initialized ?s4" using inv False by simp_all
  then have none: "srv_accept_pool ?s4 = None" "\<not> srv_running ?s4" by (auto simp: srv_inv_def life_inv_def)
  have "config_ok (srv_config s)" using inv by (simp add: srv_inv_def)
  then obtain pool :: "nat option TypedObjectPool" where new: "pool_new debug slot_size (unat (cfg_accept_depth (srv_config s))) = Inr pool"
      "pool_inv pool" "live pool = {}" "pool_capacity pool < 2 ^ 62"
    using pool_new_ok [OF slot, of "unat (cfg_accept_depth (srv_config s))" debug] by (auto simp: config_ok_def)
  have up: "srv_inv st sk (?s4\<lparr>srv_accept_pool := Some pool, srv_completion_port := True,
      srv_listen_socket := Some k, srv_initialized := True\<rparr>)" for k
    by (rule srv_inv_change_ops [OF s4(1)])
      (use s4 none new in \<open>auto simp: srv_inv_def ops_inv_def life_inv_def in_flight_def accepts_def\<close>)
  have "snd (Initialize debug slot_size s) \<in> {snd (WinsockStart s), snd (draw (snd (WinsockStart s))), ?s3} \<union>
      {closesocket k ?s4 | k. True} \<union> {?s4\<lparr>srv_accept_pool := Some pool, srv_completion_port := True,
        srv_listen_socket := Some k, srv_initialized := True\<rparr> | k. True}"
    using False new(1) by (auto simp: Initialize_def case_prod_unfold case_bool_if split: option.split)
  then show ?thesis using inv s3 s4 up by auto
qed

lemma PostAccepts_inv: "srv_inv st sk s \<Longrightarrow> srv_inv st sk (snd (PostAccepts n s))"
  by (induction n arbitrary: s) (simp_all add: case_prod_unfold PostNewAccept_inv)

lemma Start_inv:
  assumes inv: "srv_inv None None s"
  shows "srv_inv None None (snd (Start od s))"
proof (cases "srv_initialized s \<and> \<not> srv_running s")
  case True
  let ?s1 = "snd (draw (s\<lparr>srv_running := True, srv_stopping := False\<rparr>))"
  have "srv_inv None None (s\<lparr>srv_running := True\<rparr>)"
    by (rule srv_inv_change_ops [OF inv])
      (use inv True in \<open>auto simp: srv_inv_def ops_inv_def in_flight_def accepts_def life_inv_def\<close>)
  then have s1: "srv_inv None None ?s1" by simp
  note s2 = PostAccepts_inv [OF s1, of "unat (cfg_accept_depth (srv_config s))"]
  have "snd (Start od s) \<in> {Stop od ?s1, snd (PostAccepts (unat (cfg_accept_depth (srv_config s))) ?s1),
      Stop od (snd (PostAccepts (unat (cfg_accept_depth (srv_config s))) ?s1))}"
    using True by (simp add: Start_def case_prod_unfold case_bool_if)
  then show ?thesis using Stop_inv [OF s1] s2 Stop_inv [OF s2] by auto
next
  case False
  then have "snd (Start od s) = s" by (auto simp: Start_def)
  with inv show ?thesis by simp
qed

lemma srv_new_inv:
  assumes "config_ok config"
  shows "srv_inv None None (srv_new n config oracle clock app)"
proof -
  have "config_ok (normalized_config n config)"
    using assms by (auto simp: config_ok_def normalized_config_def Let_def max_def word_le_nat_alt)
  then show ?thesis
    by (simp add: srv_inv_def queue_inv_def directory_inv_def inbound_inv_def ops_inv_def life_inv_def log_inv_def log_of_def srv_new_def
        zero_metrics_def active_def in_flight_def accepts_def)
qed

end
