(* ===== verification/Session_Reports.thy ===== *)
theory Session_Reports
  imports Lifecycle_Invariant
begin

text \<open>
  What the application sees of the server: every session that ends is reported to the disconnect
  handler, and nothing else of the application's state is touched except by its own message handler.
  The relation \<open>reports\<close> says this of a step, every operation of the server satisfies it, and the
  locale \<open>session_application\<close> turns it into the preservation of an invariant of the application.
\<close>

subsection \<open>Reported sessions\<close>

definition live_handles :: "'app Server \<Rightarrow> SessionHandle set" where
  "live_handles s = set (map se_handle (filter alive (srv_store s)))"

definition report :: "'app session_handler \<Rightarrow> SessionHandle \<Rightarrow> 'app \<Rightarrow> 'app" where
  "report od = (case od of None \<Rightarrow> (\<lambda>_ x. x) | Some f \<Rightarrow> f)"

definition reports :: "'app session_handler \<Rightarrow> 'app Server \<Rightarrow> 'app Server \<Rightarrow> bool" where
  "reports od s t \<longleftrightarrow> (\<exists>gone. srv_app t = fold (report od) gone (srv_app s) \<and> live_handles s - set gone \<subseteq> live_handles t)"

named_theorems reports_intros \<open>operations that report every session they end\<close>

lemma reports_refl [simp]: "reports od s s"
  unfolding reports_def by (rule exI [of _ "[]"]) simp

lemma reports_trans [trans]:
  assumes "reports od s t" and "reports od t u"
  shows "reports od s u"
proof -
  from assms obtain g1 g2 where "srv_app t = fold (report od) g1 (srv_app s)" "live_handles s - set g1 \<subseteq> live_handles t"
      "srv_app u = fold (report od) g2 (srv_app t)" "live_handles t - set g2 \<subseteq> live_handles u"
    by (auto simp: reports_def)
  then show ?thesis unfolding reports_def by (intro exI [of _ "g1 @ g2"]) auto
qed

lemma reports_grow:
  assumes "reports od s t" and "srv_app u = srv_app t" and "live_handles t \<subseteq> live_handles u"
  shows "reports od s u"
proof (rule reports_trans [OF assms(1)])
  show "reports od t u" unfolding reports_def by (rule exI [of _ "[]"]) (use assms(2,3) in auto)
qed

lemma reports_same:
  "reports od s t \<Longrightarrow> srv_app u = srv_app t \<Longrightarrow> srv_store u = srv_store t \<Longrightarrow> reports od s u"
  by (erule reports_grow) (simp_all add: live_handles_def)

lemma live_handles_set_sess:
  assumes "\<And>c. se_handle (f c) = se_handle c" and "\<And>c. alive (f c) = alive c"
  shows "live_handles (set_sess p f s) = live_handles s"
proof -
  have "map (\<lambda>c. (se_handle c, alive c)) ((srv_store s)[p := f (srv_store s ! p)]) = map (\<lambda>c. (se_handle c, alive c)) (srv_store s)"
    by (rule map_modify) (simp add: assms)
  moreover have "live_handles t = set (map fst (filter snd (map (\<lambda>c. (se_handle c, alive c)) (srv_store t))))" for t :: "'a Server"
    by (simp add: live_handles_def filter_map o_def)
  ultimately show ?thesis by (simp only: set_sess_fields)
qed

lemma reports_set_sess:
  "reports od s t \<Longrightarrow> (\<And>c. se_handle (f c) = se_handle c) \<Longrightarrow> (\<And>c. alive (f c) = alive c) \<Longrightarrow> reports od s (set_sess p f t)"
  by (erule reports_grow) (simp_all add: live_handles_set_sess)

lemma reports_basic [reports_intros]:
  "reports od s t \<Longrightarrow> reports od s (count g t)" "reports od s t \<Longrightarrow> reports od s (send_failure t)"
  "reports od s t \<Longrightarrow> reports od s (ReleaseGlobalQueued n t)" "reports od s t \<Longrightarrow> reports od s (snd (draw t))"
  "reports od s t \<Longrightarrow> reports od s (snd (MonotonicMilliseconds t))" "reports od s t \<Longrightarrow> reports od s (TrackOperation t)"
  "reports od s t \<Longrightarrow> reports od s (CompleteOperation t)" "reports od s t \<Longrightarrow> reports od s (fail e t)"
  "reports od s t \<Longrightarrow> reports od s (t\<lparr>srv_writes := ws\<rparr>)" "reports od s t \<Longrightarrow> reports od s (t\<lparr>srv_accepted_log := l\<rparr>)"
  "reports od s t \<Longrightarrow> reports od s (t\<lparr>srv_wire_log := l\<rparr>)" "reports od s t \<Longrightarrow> reports od s (t\<lparr>srv_reads := rs\<rparr>)"
  "reports od s t \<Longrightarrow> reports od s (snd (ReserveGlobalQueued n t))" "reports od s t \<Longrightarrow> reports od s (snd (PostWrite a t))"
  subgoal by (erule reports_same) simp_all
  subgoal by (erule reports_same) (simp_all add: send_failure_def)
  subgoal by (erule reports_same) (simp_all add: ReleaseGlobalQueued_def)
  subgoal by (erule reports_same) simp_all
  subgoal by (erule reports_same) simp_all
  subgoal by (erule reports_same) (simp_all add: TrackOperation_def)
  subgoal by (erule reports_same) (simp_all add: CompleteOperation_def)
  subgoal by (erule reports_same) (simp_all add: fail_def)
  subgoal by (erule reports_same) simp_all
  subgoal by (erule reports_same) simp_all
  subgoal by (erule reports_same) simp_all
  subgoal by (erule reports_same) simp_all
  subgoal by (erule reports_same) (simp_all add: ReserveGlobalQueued_def Let_def)
  subgoal by (erule reports_same) (simp_all add: PostWrite_def split: option.split)
  done

text \<open>The one place where a session ends.\<close>

lemma reports_Disconnect [reports_intros]:
  assumes "reports od s t"
  shows "reports od s (Disconnect od p t)"
proof (rule reports_trans [OF assms], cases "alive (sess p t)")
  case True
  have store: "srv_store (Disconnect od p t) = (srv_store t)[p := closed_session (srv_store t ! p)]"
  proof (cases "p < length (srv_store t)")
    case False
    then show ?thesis by (simp add: Disconnect_def Let_def DropQueue_eq list_update_beyond)
  qed (rule Disconnect_alive(1) [OF _ True])
  have "h \<in> live_handles (Disconnect od p t)" if h: "h \<in> live_handles t" "h \<noteq> se_handle (sess p t)" for h
  proof -
    from h(1) obtain q where q: "q < length (srv_store t)" "alive (srv_store t ! q)" "h = se_handle (srv_store t ! q)"
      by (auto simp: live_handles_def in_set_conv_nth)
    with h(2) have "q \<noteq> p" by (auto simp: sess_def)
    then have "srv_store (Disconnect od p t) ! q = srv_store t ! q" by (simp add: store)
    moreover have "srv_store (Disconnect od p t) ! q \<in> set (srv_store (Disconnect od p t))" using q(1) by (intro nth_mem) (simp add: store)
    ultimately show ?thesis using q by (auto simp: live_handles_def)
  qed
  moreover have "srv_app (Disconnect od p t) = report od (se_handle (sess p t)) (srv_app t)"
    using True by (simp add: Disconnect_def alive_def Let_def InvokeSession_def report_def DropQueue_eq split: option.split)
  ultimately show "reports od t (Disconnect od p t)"
    unfolding reports_def by (intro exI [of _ "[se_handle (sess p t)]"]) auto
next
  case False
  then show "reports od t (Disconnect od p t)" by simp
qed

subsection \<open>Every operation\<close>

lemma reports_SettleWrite [reports_intros]: "reports od s t \<Longrightarrow> reports od s (SettleWrite a ok t)"
  by (auto simp: SettleWrite_def Let_def alive_def split: option.split intro!: reports_intros reports_set_sess)

lemma reports_StartNextWrite [reports_intros]: "reports od s t \<Longrightarrow> reports od s (StartNextWrite od p t)"
  by (auto simp: StartNextWrite_def result_simps alive_def split: list.split sum.split intro!: reports_intros reports_set_sess)

lemma reports_FinishWrite [reports_intros]: "reports od s t \<Longrightarrow> reports od s (FinishWrite od a ok t)"
  by (auto simp: FinishWrite_def Let_def split: option.split intro!: reports_intros)

lemma reports_HandleWrite [reports_intros]: "reports od s t \<Longrightarrow> reports od s (HandleWrite od a ok n t)"
  by (auto simp: HandleWrite_def result_simps split: option.split intro!: reports_intros)

lemma reports_Enqueue [reports_intros]: "reports od s t \<Longrightarrow> reports od s (snd (Enqueue od p item t))"
  by (auto simp: Enqueue_def result_simps alive_def intro!: reports_intros reports_set_sess)

lemma reports_enqueue_or_close [reports_intros]: "reports od s t \<Longrightarrow> reports od s (enqueue_or_close od p item t)"
  by (auto simp: enqueue_or_close_def result_simps intro!: reports_intros)

lemma reports_SendControl [reports_intros]: "reports od s t \<Longrightarrow> reports od s (SendControl od p opcode payload k t)"
  by (auto simp: SendControl_def result_simps alive_def intro!: reports_intros reports_set_sess)

lemma reports_SendRaw [reports_intros]: "reports od s t \<Longrightarrow> reports od s (SendRaw od p response k t)"
  by (auto simp: SendRaw_def intro!: reports_intros)

lemma reports_ServerSend [reports_intros]: "reports od s t \<Longrightarrow> reports od s (snd (ServerSend od h b t))"
  by (auto simp: ServerSend_def split: option.split TransportKind.split sum.split intro!: reports_intros)

lemma reports_ServerClose [reports_intros]: "reports od s t \<Longrightarrow> reports od s (ServerClose od h code reason t)"
  by (auto simp: ServerClose_def Let_def split: option.split intro!: reports_intros)

lemma reports_RecordMalformed [reports_intros]: "reports od s t \<Longrightarrow> reports od s (RecordMalformed p t)"
  by (auto simp: RecordMalformed_def alive_def intro!: reports_intros reports_set_sess)

lemma reports_UpdateInboundAccounting [reports_intros]:
  "reports od s t \<Longrightarrow> reports od s (UpdateInboundAccounting od p n t)"
  by (auto simp: UpdateInboundAccounting_def Let_def alive_def intro!: reports_intros reports_set_sess)

lemma reports_reads [reports_intros]:
  "reports od s t \<Longrightarrow> reports od s (snd (PostReadOp a t))" "reports od s t \<Longrightarrow> reports od s (DeleteRead a t)"
  "reports od s t \<Longrightarrow> reports od s (snd (PostRead p t))"
  by (auto simp: PostReadOp_def DeleteRead_def PostRead_def result_simps split: option.split intro!: reports_intros)

lemma reports_TimerCheck [reports_intros]: "reports od s t \<Longrightarrow> reports od s (TimerCheck od now p t)"
  by (auto simp: TimerCheck_def Let_def alive_def intro!: reports_intros reports_set_sess)

lemma reports_fold: "(\<And>p t. reports od s t \<Longrightarrow> reports od s (f p t)) \<Longrightarrow> reports od s t \<Longrightarrow> reports od s (fold f ps t)"
  by (induction ps arbitrary: t) simp_all

lemma reports_TimerPass [reports_intros]: "reports od s t \<Longrightarrow> reports od s (TimerPass od t)"
  by (auto simp: TimerPass_def case_prod_unfold intro!: reports_intros reports_fold)

text \<open>The accept path and the life cycle.\<close>

lemma accept_fields [simp]:
  "srv_app (snd (OpenSocket s)) = srv_app s" "srv_app (closesocket k s) = srv_app s" "srv_store (closesocket k s) = srv_store s"
  "srv_app (count_rejected s) = srv_app s" "srv_app (set_accept_socket slot x s) = srv_app s" "srv_store (set_accept_socket slot x s) = srv_store s"
  "srv_app (DestroyAccept slot s) = srv_app s" "srv_store (DestroyAccept slot s) = srv_store s"
  by (simp_all add: OpenSocket_def closesocket_def count_rejected_def set_accept_socket_def DestroyAccept_def fail_def result_simps
      split: option.split sum.split)

lemma reports_accept [reports_intros]:
  "reports od s t \<Longrightarrow> reports od s (snd (OpenSocket t))" "reports od s t \<Longrightarrow> reports od s (closesocket k t)"
  "reports od s t \<Longrightarrow> reports od s (count_rejected t)" "reports od s t \<Longrightarrow> reports od s (set_accept_socket slot x t)"
  "reports od s t \<Longrightarrow> reports od s (DestroyAccept slot t)" "reports od s t \<Longrightarrow> reports od s (t\<lparr>srv_accept_pool := pl\<rparr>)"
  "reports od s t \<Longrightarrow> reports od s (StopEnd t)" "reports od s t \<Longrightarrow> reports od s (snd (WinsockStart t))"
  by (erule reports_same; simp add: StopEnd_def WinsockStart_def case_prod_unfold)+

lemma reports_PostNewAccept [reports_intros]: "reports od s t \<Longrightarrow> reports od s (snd (PostNewAccept t))"
  by (auto simp: PostNewAccept_def PostAccept_def result_simps split: option.split sum.split intro!: reports_intros)

lemma reports_RepostAccept [reports_intros]: "reports od s t \<Longrightarrow> reports od s (snd (RepostAccept slot t))"
  by (auto simp: RepostAccept_def PostAccept_def result_simps split: option.split intro!: reports_intros)

lemma draws_app [simp]: "srv_app (snd (draws n s)) = srv_app s" "srv_store (snd (draws n s)) = srv_store s"
  by (induction n arbitrary: s) (simp_all add: result_simps)

lemma WinsockStart_app [simp]: "srv_app (snd (WinsockStart s)) = srv_app s" "srv_store (snd (WinsockStart s)) = srv_store s"
  by (simp_all add: WinsockStart_def case_prod_unfold)

lemma Initialize_app [simp]:
  "srv_app (snd (Initialize debug slot_size s)) = srv_app s" "srv_store (snd (Initialize debug slot_size s)) = srv_store s"
  by (simp_all add: Initialize_def result_simps fail_def split: option.split sum.split)

lemma reports_Initialize [reports_intros]: "reports od s t \<Longrightarrow> reports od s (snd (Initialize debug slot_size t))"
  by (erule reports_same) simp_all

lemma reports_StopBegin [reports_intros]: "reports od s t \<Longrightarrow> reports od s (StopBegin od t)"
  unfolding StopBegin_def Let_def
  by (rule reports_fold, erule reports_intros, erule reports_same) (simp_all split: option.split)

lemma reports_Stop [reports_intros]: "reports od s t \<Longrightarrow> reports od s (Stop od t)"
  by (auto simp: Stop_def Let_def intro!: reports_intros)

lemma reports_PostAccepts [reports_intros]: "reports od s t \<Longrightarrow> reports od s (snd (PostAccepts n t))"
  by (induction n arbitrary: t) (auto simp: case_prod_unfold intro!: reports_intros)

lemma reports_Start [reports_intros]: "reports od s t \<Longrightarrow> reports od s (snd (Start od t))"
proof -
  assume "reports od s t"
  then have "reports od s (t\<lparr>srv_running := True, srv_stopping := False\<rparr>)" by (rule reports_same) simp_all
  with \<open>reports od s t\<close> show ?thesis by (auto simp: Start_def result_simps intro!: reports_intros)
qed

lemma InsertSession_reports:
  assumes "on_connect hs = None"
  shows "reports (on_disconnect hs) s (InsertSession hs socket s)"
  by (rule reports_grow [OF reports_refl]) (auto simp: InsertSession_def Let_def case_prod_unfold InvokeSession_def assms live_handles_def)

lemma live_handlesI: "p < length (srv_store s) \<Longrightarrow> alive (sess p s) \<Longrightarrow> se_handle (sess p s) \<in> live_handles s"
  by (auto simp: live_handles_def sess_def)

lemma reports_CloseWith [reports_intros]:
  "reports (on_disconnect hs) s t \<Longrightarrow> reports (on_disconnect hs) s (CloseWith hs p code reason t)"
  by (simp add: CloseWith_def reports_intros)

subsection \<open>An invariant of the application\<close>

text \<open>An application that registers no connect handler, with an invariant \<open>holds\<close> of its own state and the set of
  live sessions: it survives the reports of the server, and the message handler keeps it when it is
  called for a live session.\<close>

locale session_application = message_application hs for hs :: "'app Handlers" +
  fixes holds :: "'app Server \<Rightarrow> bool"
  assumes holds_reports: "reports (on_disconnect hs) s t \<Longrightarrow> holds s \<Longrightarrow> holds t"
    and holds_message: "on_message hs = Some f \<Longrightarrow> srv_inv None sk s \<Longrightarrow> holds s \<Longrightarrow> h \<in> live_handles s \<Longrightarrow>
      holds (snd (f h msg s))"
    and no_connect: "on_connect hs = None"
begin

lemma holds_set_sess:
  "holds s \<Longrightarrow> (\<And>c. se_handle (f c) = se_handle c) \<Longrightarrow> (\<And>c. alive (f c) = alive c) \<Longrightarrow> holds (set_sess p f s)"
  using holds_reports [OF reports_set_sess [OF reports_refl]] by blast

lemma DeliverMessage_holds:
  assumes "srv_inv None sk s" and "p < length (srv_store s)" and "alive (sess p s)" and "holds s"
  shows "holds (snd (DeliverMessage hs p msg s))"
proof -
  let ?od = "on_disconnect hs"
  let ?s2 = "set_sess p (rate_tick (fst (MonotonicMilliseconds s))) (snd (MonotonicMilliseconds s))"
  let ?s3 = "count (\<lambda>m. m\<lparr>m_received_messages := m_received_messages m + 1\<rparr>) ?s2"
  have rate: "se_handle (rate_tick now c) = se_handle c" for now c by (simp add: rate_tick_def Let_def)
  have s3: "srv_inv None sk ?s3" using assms by (simp add: srv_inv_set_sess srv_inv_count)
  have reps: "reports ?od s ?s2" "reports ?od s ?s3"
    by (auto intro!: reports_intros reports_set_sess simp: rate)
  have "se_handle (sess p ?s3) \<in> live_handles ?s3"
    by (rule live_handlesI) (use assms(2,3) in \<open>simp_all add: sess_def\<close>)
  then have h: "se_handle (sess p ?s2) \<in> live_handles ?s3" by (simp add: sess_def)
  have call: "holds (snd (f (se_handle (sess p ?s2)) msg ?s3))" if "on_message hs = Some f" for f
    by (rule holds_message [OF that s3 _ h]) (rule holds_reports [OF reps(2) assms(4)])
  have "holds (CloseWith hs p code reason ?s2)" "holds ?s2" for code reason
    using holds_reports [OF reports_CloseWith [OF reps(1)] assms(4)] holds_reports [OF reps(1) assms(4)] by auto
  moreover have "holds (CloseWith hs p code reason (RecordMalformed p t))" "holds (RecordMalformed p t)" if "holds t" for t code reason
    using holds_reports [OF reports_CloseWith [OF reports_RecordMalformed [OF reports_refl]] that]
      holds_reports [OF reports_RecordMalformed [OF reports_refl] that] by auto
  ultimately show ?thesis using call by (simp add: DeliverMessage_def result_simps split: option.split)
qed

lemma raw_loop_holds:
  assumes "srv_inv None sk s" and "p < length (srv_store s)" and "holds s"
  shows "holds (snd (raw_loop hs fuel p s))"
  using assms
proof (induction fuel arbitrary: s)
  case 0
  then show ?case using holds_reports [OF reports_basic(8) [OF reports_refl]] by (simp add: raw_loop.simps)
next
  case (Suc fuel)
  obtain status msg d where nx: "lpa_Next (se_raw_decoder (sess p s)) = (status, msg, d)" by (metis prod_cases3)
  let ?s1 = "set_sess p (\<lambda>c. c\<lparr>se_raw_decoder := d\<rparr>) s"
  have s1: "srv_inv None sk ?s1" "p < length (srv_store ?s1)"
    using Suc.prems by (simp_all add: srv_inv_set_sess se_view_def)
  have h1: "holds ?s1" by (rule holds_set_sess [OF Suc.prems(3)]) (simp_all add: alive_def)
  note dm = DeliverMessage_ok [OF s1, of msg]
  have live: "alive (sess p ?s1)" if "\<not> se_disconnect_started (sess p s)"
    using that Suc.prems(2) by (simp add: sess_def alive_def)
  have "holds (snd (DeliverMessage hs p msg ?s1))" "holds (snd (raw_loop hs fuel p (snd (DeliverMessage hs p msg ?s1))))"
    if "\<not> se_disconnect_started (sess p s)"
    using DeliverMessage_holds [OF s1 live [OF that] h1, of msg] Suc.IH [OF dm(1)] keepsD(1) [OF dm(2)] s1(2) by simp_all
  moreover have "holds (Disconnect (on_disconnect hs) p (RecordMalformed p ?s1))"
    by (rule holds_reports [OF _ h1]) (intro reports_intros reports_refl)
  ultimately show ?case
    using h1 Suc.prems(3) by (simp add: raw_loop.simps(2) nx result_simps)
qed

lemma ProcessRaw_holds:
  assumes "srv_inv None sk s" and "p < length (srv_store s)" and "holds s"
  shows "holds (ProcessRaw hs p bytes s)"
proof -
  obtain ok d where ap: "lpa_Append bytes (se_raw_decoder (sess p s)) = (ok, d)" by fastforce
  let ?s1 = "set_sess p (\<lambda>c. c\<lparr>se_raw_decoder := d\<rparr>) s"
  let ?s2 = "UpdateInboundAccounting (on_disconnect hs) p (lpa_BufferedBytes d) ?s1"
  have s1: "srv_inv None sk ?s1" "p < length (srv_store ?s1)" using assms by (simp_all add: srv_inv_set_sess se_view_def)
  have h1: "holds ?s1" by (rule holds_set_sess [OF assms(3)]) (simp_all add: alive_def)
  have h2: "holds ?s2" by (rule holds_reports [OF _ h1]) (intro reports_intros reports_refl)
  have "p < length (srv_store ?s2)" using s1(2) by simp
  then have "holds (snd (raw_loop hs fuel p ?s2))" for fuel
    by (rule raw_loop_holds [OF UpdateInboundAccounting_inv [OF s1] _ h2])
  moreover from this have "holds (UpdateInboundAccounting (on_disconnect hs) p n (snd (raw_loop hs fuel p ?s2)))" for fuel n
    using holds_reports [OF reports_UpdateInboundAccounting [OF reports_refl]] by blast
  moreover have "holds (Disconnect (on_disconnect hs) p ?s1)"
    by (rule holds_reports [OF _ h1]) (intro reports_intros reports_refl)
  ultimately show ?thesis by (auto simp: ProcessRaw_def ap result_simps split: loop_exit.split)
qed

lemma ws_loop_holds:
  assumes "srv_inv None sk s" and "p < length (srv_store s)" and "holds s"
  shows "holds (snd (ws_loop hs fuel p s))"
  using assms
proof (induction fuel arbitrary: s)
  case 0
  then show ?case using holds_reports [OF reports_basic(8) [OF reports_refl]] by (simp add: ws_loop.simps)
next
  case (Suc fuel)
  obtain status ev err d where nx: "ws_Next (se_websocket_decoder (sess p s)) = (status, ev, err, d)" by (metis prod_cases4)
  let ?s1 = "set_sess p (\<lambda>c. c\<lparr>se_websocket_decoder := d\<rparr>) s"
  have s1: "srv_inv None sk ?s1" "p < length (srv_store ?s1)"
    using Suc.prems by (simp_all add: srv_inv_set_sess se_view_def)
  have h1: "holds ?s1" by (rule holds_set_sess [OF Suc.prems(3)]) (simp_all add: alive_def)
  have again: "holds (snd (ws_loop hs fuel p t))" if "srv_inv None sk t" "keeps ?s1 t" "holds t" for t
    by (rule Suc.IH) (use that keepsD(1) [OF that(2)] s1(2) in simp_all)
  have dm: "holds (snd (DeliverMessage hs p msg ?s1))" "holds (snd (ws_loop hs fuel p (snd (DeliverMessage hs p msg ?s1))))"
    if "\<not> se_disconnect_started (sess p s)" for msg
  proof -
    have "alive (sess p ?s1)" using that Suc.prems(2) by (simp add: sess_def alive_def)
    then show "holds (snd (DeliverMessage hs p msg ?s1))" by (rule DeliverMessage_holds [OF s1 _ h1])
    then show "holds (snd (ws_loop hs fuel p (snd (DeliverMessage hs p msg ?s1))))"
      by (rule again [OF DeliverMessage_ok [OF s1]])
  qed
  let ?pong = "\<lambda>x. set_sess p (\<lambda>c. c\<lparr>se_last_pong_ms := x\<rparr>) (snd (MonotonicMilliseconds (set_sess p (\<lambda>c. c\<lparr>se_awaiting_pong := False\<rparr>) ?s1)))"
  have pong: "holds (snd (ws_loop hs fuel p (?pong x)))" for x
  proof (rule again)
    show "srv_inv None sk (?pong x)" using s1(1) by (simp add: srv_inv_set_sess se_view_def)
    show "keeps ?s1 (?pong x)"
      by (rule keeps_set_sess [OF keeps_basic(5) [OF keeps_set_sess [OF keeps_refl]]], simp_all add: in_view_def alive_def)
    show "holds (?pong x)"
      by (rule holds_reports [OF _ h1], rule reports_set_sess [OF reports_basic(5) [OF reports_set_sess [OF reports_refl]]])
        (simp_all add: alive_def)
  qed
  have send: "holds (SendControl (on_disconnect hs) p opcode payload k ?s1)" for opcode payload k
    by (rule holds_reports [OF _ h1]) (intro reports_intros reports_refl)
  have ping: "holds (snd (ws_loop hs fuel p (SendControl (on_disconnect hs) p opcode payload k ?s1)))" for opcode payload k
    by (rule again [OF SendControl_inv [OF s1] _ send]) (intro keeps_intros keeps_refl)
  have "holds (CloseWith hs p code reason ?s1)" "holds (CloseWith hs p code reason (RecordMalformed p ?s1))" for code reason
    by (rule holds_reports [OF _ h1], intro reports_intros reports_refl)+
  then show ?case
    using h1 Suc.prems(3) dm pong send ping
    by (cases status) (simp_all add: ws_loop.simps(2) nx result_simps split: WsEventType.split)
qed

lemma ProcessWebSocket_holds:
  assumes "srv_inv None sk s" and "p < length (srv_store s)" and "holds s"
  shows "holds (ProcessWebSocket hs p bytes s)"
proof -
  obtain ok d where ap: "ws_Append bytes (se_websocket_decoder (sess p s)) = (ok, d)" by fastforce
  let ?s1 = "set_sess p (\<lambda>c. c\<lparr>se_websocket_decoder := d\<rparr>) s"
  let ?s2 = "UpdateInboundAccounting (on_disconnect hs) p (ws_BufferedBytes d) ?s1"
  have s1: "srv_inv None sk ?s1" "p < length (srv_store ?s1)" using assms by (simp_all add: srv_inv_set_sess se_view_def)
  have h1: "holds ?s1" by (rule holds_set_sess [OF assms(3)]) (simp_all add: alive_def)
  have h2: "holds ?s2" by (rule holds_reports [OF _ h1]) (intro reports_intros reports_refl)
  have "p < length (srv_store ?s2)" using s1(2) by simp
  then have "holds (snd (ws_loop hs fuel p ?s2))" for fuel
    by (rule ws_loop_holds [OF UpdateInboundAccounting_inv [OF s1] _ h2])
  moreover from this have "holds (UpdateInboundAccounting (on_disconnect hs) p n (snd (ws_loop hs fuel p ?s2)))" for fuel n
    using holds_reports [OF reports_UpdateInboundAccounting [OF reports_refl]] by blast
  moreover have "holds (CloseWith hs p code reason ?s1)" for code reason
    by (rule holds_reports [OF _ h1]) (intro reports_intros reports_refl)
  ultimately show ?thesis using assms(3) by (auto simp: ProcessWebSocket_def ap result_simps split: loop_exit.split)
qed

lemma ProcessDetection_holds:
  assumes "srv_inv None sk s" and "p < length (srv_store s)" and "holds s"
  shows "holds (ProcessDetection hs p bytes s)"
proof -
  let ?od = "on_disconnect hs" and ?buffer = "se_detection_buffer (sess p s) @ bytes"
  let ?s1 = "UpdateInboundAccounting ?od p (length ?buffer) (set_sess p (\<lambda>c. c\<lparr>se_detection_buffer := ?buffer\<rparr>) s)"
  have s1: "srv_inv None sk ?s1" "p < length (srv_store ?s1)"
    using assms by (auto simp: srv_inv_set_sess se_view_def intro!: UpdateInboundAccounting_inv)
  have r1: "reports ?od s ?s1" by (intro reports_intros reports_set_sess reports_refl) (simp_all add: alive_def)
  have raw: "srv_inv None sk (SendRaw ?od p r k ?s1)" "p < length (srv_store (SendRaw ?od p r k ?s1))" "reports ?od s (SendRaw ?od p r k ?s1)" for r k
    using s1 r1 by (auto intro!: SendRaw_inv reports_intros)
  let ?open = "\<lambda>k t. UpdateInboundAccounting ?od p 0 (set_sess p (\<lambda>c. c\<lparr>se_transport := k, se_state := Open, se_detection_buffer := []\<rparr>) t)"
  have opened: "srv_inv None sk (?open k t)" "p < length (srv_store (?open k t))" "holds (?open k t)"
    if "srv_inv None sk t" "p < length (srv_store t)" "reports ?od s t" for k t
  proof -
    show "srv_inv None sk (?open k t)" "p < length (srv_store (?open k t))"
      using that by (auto simp: srv_inv_set_sess se_view_def intro!: UpdateInboundAccounting_inv)
    show "holds (?open k t)"
      by (rule holds_reports [OF _ assms(3)], intro reports_intros reports_set_sess that(3)) (simp_all add: alive_def)
  qed
  note to_raw = ProcessRaw_holds [OF opened [OF s1 r1], of ?buffer RawTcp]
  note to_ws = ProcessWebSocket_holds [OF opened [OF raw], where k1 = WebSocket]
  have "holds (Disconnect ?od p s)" "holds ?s1" "holds (SendRaw ?od p r k ?s1)" for r k
    using holds_reports [OF r1 assms(3)] holds_reports [OF raw(3) assms(3)]
      holds_reports [OF reports_Disconnect [OF reports_refl] assms(3)] by simp_all
  then show ?thesis
    using to_raw to_ws opened(3) [OF raw] by (simp add: ProcessDetection_def Let_def split: HandshakeStatus.split)
qed

lemma ProcessIncoming_holds:
  assumes "srv_inv None sk s" and "p < length (srv_store s)" and "holds s"
  shows "holds (ProcessIncoming hs p bytes s)"
  using ProcessDetection_holds [OF assms, of bytes] ProcessRaw_holds [OF assms, of bytes] ProcessWebSocket_holds [OF assms, of bytes]
  by (simp add: ProcessIncoming_def split: TransportKind.split)

lemma HandleRead_holds:
  assumes inv: "srv_inv None sk s" and a: "a < length (srv_reads s)" and "holds s"
  shows "holds (HandleRead hs a ok bytes s)"
proof (cases "srv_reads s ! a")
  case None
  with assms show ?thesis by (simp add: HandleRead_def)
next
  case (Some p)
  let ?od = "on_disconnect hs"
  have p: "p < length (srv_store s)" by (rule srv_inv_read [OF inv a Some])
  let ?s1 = "set_sess p (\<lambda>c. c\<lparr>se_last_activity_ms := fst (MonotonicMilliseconds s)\<rparr>) (snd (MonotonicMilliseconds s))"
  have s1: "srv_inv None sk ?s1" "p < length (srv_store ?s1)" using inv p by (simp_all add: srv_inv_set_sess se_view_def)
  have "holds ?s1"
    by (rule holds_reports [OF _ assms(3)], rule reports_set_sess [OF reports_basic(5) [OF reports_refl]]) (simp_all add: alive_def)
  then have s2: "holds (ProcessIncoming hs p bytes ?s1)" by (rule ProcessIncoming_holds [OF s1])
  have fin: "holds (DeleteRead a (Disconnect ?od p t))" "holds (DeleteRead a (Disconnect ?od p (snd (PostReadOp a t))))"
    "holds (snd (PostReadOp a t))" if "holds t" for t
    by (rule holds_reports [OF _ that], intro reports_intros reports_refl)+
  show ?thesis using s2 fin [OF s2] fin [OF assms(3)] by (simp add: HandleRead_def Some result_simps)
qed

lemma HandleAccept_holds: "holds s \<Longrightarrow> holds (HandleAccept hs slot ok s)"
proof (erule holds_reports [rotated])
  let ?od = "on_disconnect hs"
  have ins: "reports ?od s (InsertSession hs socket t)" if "reports ?od s t" for t socket
    by (rule reports_trans [OF that InsertSession_reports [OF no_connect]])
  have acc: "reports ?od s (snd (AcceptSession hs socket t))" if "reports ?od s t" for t socket
    using that by (auto simp: AcceptSession_def result_simps intro!: reports_intros ins)
  show "reports ?od s (HandleAccept hs slot ok s)"
    by (auto simp: HandleAccept_def result_simps split: option.split intro!: reports_intros acc reports_refl)
qed

end

end
