(* ===== verification/Protocol.thy ===== *)
theory Protocol
  imports Server_Config
begin

text \<open>
  The message schema \<open>schema/protocol.fbs\<close> and the validation of published messages in
  \<open>src/application/protocol_router.cpp\<close>. The generated FlatBuffers accessors return null for
  an absent table, vector or string, and the union discriminators may hold values the schema does
  not name; both are part of the data here.
\<close>

subsection \<open>Schema\<close>

datatype ErrorCode = NO_ERROR | MALFORMED_MESSAGE | UNSUPPORTED_VERSION | UNAUTHORIZED | FORBIDDEN
  | INVALID_ROOM | NOT_SUBSCRIBED | ALREADY_SUBSCRIBED | RATE_LIMITED | BACKPRESSURE | INTERNAL_ERROR

datatype SubscriptionOperation = JOIN | LEAVE

record MatchInfo =
  mi_match_id :: "string option"
  mi_sport_name :: "string option"
  mi_team1 :: "string option"
  mi_team2 :: "string option"
  mi_score_team1 :: u16
  mi_score_team2 :: u16
  mi_status :: byte
  mi_updated_at_ms :: u64

record MatchScoreUpdate =
  ms_match_id :: "string option"
  ms_score_team1 :: u16
  ms_score_team2 :: u16
  ms_timeline_event :: "string option"
  ms_updated_at_ms :: u64

record CourtStatus =
  cs_facility_id :: "string option"
  cs_court_id :: "string option"
  cs_sport_name :: "string option"
  cs_court_name :: "string option"
  cs_status :: byte
  cs_next_available_at_ms :: u64

record FacilityUpdate =
  fu_facility_id :: "string option"
  fu_courts :: "CourtStatus option list option"
  fu_updated_at_ms :: u64

record EquipmentStatus =
  es_facility_id :: "string option"
  es_equipment_id :: "string option"
  es_item_name :: "string option"
  es_total_inventory :: u32
  es_available_count :: u32

record EquipmentUpdate =
  eu_facility_id :: "string option"
  eu_inventory :: "EquipmentStatus option list option"
  eu_updated_at_ms :: u64

record BookingNotification =
  bn_booking_id :: "string option"
  bn_user_id :: "string option"
  bn_resource_id :: "string option"
  bn_user_display_name :: "string option"
  bn_start_time_ms :: u64
  bn_end_time_ms :: u64

record SystemAlert =
  sa_code :: u32
  sa_severity :: byte
  sa_message :: "string option"

text \<open>A union value: the discriminator with the table it points to, which may be absent. The last
  constructor is a discriminator that the schema does not name.\<close>

datatype DomainPayload =
    DomainNONE
  | DomainMatchInfo "MatchInfo option"
  | DomainMatchScoreUpdate "MatchScoreUpdate option"
  | DomainFacilityUpdate "FacilityUpdate option"
  | DomainEquipmentUpdate "EquipmentUpdate option"
  | DomainBookingNotification "BookingNotification option"
  | DomainSystemAlert "SystemAlert option"
  | DomainUnnamed byte bool

record Publish =
  pb_room :: "string option"
  pb_message :: DomainPayload

record AuthenticationResult =
  ar_accepted :: bool
  ar_principal_id :: "string option"
  ar_reason :: "string option"

record SubscriptionAck =
  ack_room :: "string option"
  ack_operation :: SubscriptionOperation
  ack_accepted :: bool
  ack_reason :: "string option"

record ErrorResponse =
  er_code :: ErrorCode
  er_message :: "string option"
  er_related_request_id :: u64

text \<open>\<open>Payload\<close>. A table with one field is that field.\<close>

datatype Payload =
    PayloadNONE
  | PayloadMatchInfo "MatchInfo option"
  | PayloadMatchScoreUpdate "MatchScoreUpdate option"
  | PayloadFacilityUpdate "FacilityUpdate option"
  | PayloadEquipmentUpdate "EquipmentUpdate option"
  | PayloadBookingNotification "BookingNotification option"
  | PayloadSystemAlert "SystemAlert option"
  | PayloadPing "u64 option"
  | PayloadPong "u64 option"
  | PayloadAuthenticate "string option option"
  | PayloadAuthenticationResult "AuthenticationResult option"
  | PayloadJoinRoom "string option option"
  | PayloadLeaveRoom "string option option"
  | PayloadPublish "Publish option"
  | PayloadSubscriptionAck "SubscriptionAck option"
  | PayloadErrorResponse "ErrorResponse option"
  | PayloadUnnamed byte bool

record NetworkMessage =
  nm_protocol_version :: u16
  nm_request_id :: u64
  nm_sequence_id :: u64
  nm_sent_at_ms :: u64
  nm_payload :: Payload

text \<open>\<open>message() == nullptr\<close> and \<open>payload() == nullptr\<close>.\<close>

fun domain_null :: "DomainPayload \<Rightarrow> bool" where
  "domain_null DomainNONE = True"
| "domain_null (DomainMatchInfo v) = (v = None)"
| "domain_null (DomainMatchScoreUpdate v) = (v = None)"
| "domain_null (DomainFacilityUpdate v) = (v = None)"
| "domain_null (DomainEquipmentUpdate v) = (v = None)"
| "domain_null (DomainBookingNotification v) = (v = None)"
| "domain_null (DomainSystemAlert v) = (v = None)"
| "domain_null (DomainUnnamed b present) = (\<not> present)"

fun payload_null :: "Payload \<Rightarrow> bool" where
  "payload_null PayloadNONE = True"
| "payload_null (PayloadMatchInfo v) = (v = None)"
| "payload_null (PayloadMatchScoreUpdate v) = (v = None)"
| "payload_null (PayloadFacilityUpdate v) = (v = None)"
| "payload_null (PayloadEquipmentUpdate v) = (v = None)"
| "payload_null (PayloadBookingNotification v) = (v = None)"
| "payload_null (PayloadSystemAlert v) = (v = None)"
| "payload_null (PayloadPing v) = (v = None)"
| "payload_null (PayloadPong v) = (v = None)"
| "payload_null (PayloadAuthenticate v) = (v = None)"
| "payload_null (PayloadAuthenticationResult v) = (v = None)"
| "payload_null (PayloadJoinRoom v) = (v = None)"
| "payload_null (PayloadLeaveRoom v) = (v = None)"
| "payload_null (PayloadPublish v) = (v = None)"
| "payload_null (PayloadSubscriptionAck v) = (v = None)"
| "payload_null (PayloadErrorResponse v) = (v = None)"
| "payload_null (PayloadUnnamed b present) = (\<not> present)"

subsection \<open>Validation\<close>

definition ProtocolVersion :: u16 where
  "ProtocolVersion = 1"

definition MaxIdentifierLength :: nat where
  "MaxIdentifierLength = 160"

definition MaxDisplayLength :: nat where
  "MaxDisplayLength = 256"

definition MaxTextLength :: nat where
  "MaxTextLength = 4096"

definition ValidString :: "string option \<Rightarrow> nat \<Rightarrow> bool \<Rightarrow> bool" where
  "ValidString v max_length allow_empty =
    (case v of None \<Rightarrow> False | Some s \<Rightarrow> length s \<le> max_length \<and> (allow_empty \<or> s \<noteq> []))"

definition ValidateMatchInfo :: "MatchInfo option \<Rightarrow> bool" where
  "ValidateMatchInfo v =
    (case v of
       None \<Rightarrow> False
     | Some m \<Rightarrow>
         ValidString (mi_match_id m) MaxIdentifierLength False \<and>
         ValidString (mi_sport_name m) MaxIdentifierLength False \<and>
         ValidString (mi_team1 m) MaxDisplayLength False \<and>
         ValidString (mi_team2 m) MaxDisplayLength False \<and>
         mi_team1 m \<noteq> mi_team2 m)"

definition ValidateMatchScore :: "MatchScoreUpdate option \<Rightarrow> bool" where
  "ValidateMatchScore v =
    (case v of
       None \<Rightarrow> False
     | Some m \<Rightarrow>
         ValidString (ms_match_id m) MaxIdentifierLength False \<and>
         (ms_timeline_event m = None \<or> ValidString (ms_timeline_event m) MaxTextLength True))"

definition court_bad :: "FacilityUpdate \<Rightarrow> CourtStatus option \<Rightarrow> bool" where
  "court_bad f court =
    (case court of
       None \<Rightarrow> True
     | Some c \<Rightarrow>
         \<not> ValidString (cs_facility_id c) MaxIdentifierLength False \<or>
         \<not> ValidString (cs_court_id c) MaxIdentifierLength False \<or>
         \<not> ValidString (cs_sport_name c) MaxIdentifierLength False \<or>
         \<not> ValidString (cs_court_name c) MaxDisplayLength False \<or>
         cs_facility_id c \<noteq> fu_facility_id f)"

definition ValidateFacility :: "FacilityUpdate option \<Rightarrow> bool" where
  "ValidateFacility v =
    (case v of
       None \<Rightarrow> False
     | Some f \<Rightarrow>
         if \<not> ValidString (fu_facility_id f) MaxIdentifierLength False then False
         else (case fu_courts f of
                 None \<Rightarrow> False
               | Some courts \<Rightarrow>
                   if length courts > 1024 then False else \<not> list_ex (court_bad f) courts))"

definition item_bad :: "EquipmentUpdate \<Rightarrow> EquipmentStatus option \<Rightarrow> bool" where
  "item_bad e item =
    (case item of
       None \<Rightarrow> True
     | Some i \<Rightarrow>
         \<not> ValidString (es_facility_id i) MaxIdentifierLength False \<or>
         \<not> ValidString (es_equipment_id i) MaxIdentifierLength False \<or>
         \<not> ValidString (es_item_name i) MaxDisplayLength False \<or>
         es_facility_id i \<noteq> eu_facility_id e \<or>
         es_available_count i > es_total_inventory i)"

definition ValidateEquipment :: "EquipmentUpdate option \<Rightarrow> bool" where
  "ValidateEquipment v =
    (case v of
       None \<Rightarrow> False
     | Some e \<Rightarrow>
         if \<not> ValidString (eu_facility_id e) MaxIdentifierLength False then False
         else (case eu_inventory e of
                 None \<Rightarrow> False
               | Some inventory \<Rightarrow>
                   if length inventory > 4096 then False else \<not> list_ex (item_bad e) inventory))"

definition ValidateBooking :: "BookingNotification option \<Rightarrow> bool" where
  "ValidateBooking v =
    (case v of
       None \<Rightarrow> False
     | Some b \<Rightarrow>
         ValidString (bn_booking_id b) MaxIdentifierLength False \<and>
         ValidString (bn_user_id b) MaxIdentifierLength False \<and>
         ValidString (bn_resource_id b) MaxIdentifierLength False \<and>
         (bn_user_display_name b = None \<or> ValidString (bn_user_display_name b) MaxDisplayLength True) \<and>
         bn_start_time_ms b < bn_end_time_ms b)"

definition ValidateAlert :: "SystemAlert option \<Rightarrow> bool" where
  "ValidateAlert v = (case v of None \<Rightarrow> False | Some a \<Rightarrow> ValidString (sa_message a) MaxTextLength False)"

definition ValidateDomain :: "Publish option \<Rightarrow> bool" where
  "ValidateDomain v =
    (case v of
       None \<Rightarrow> False
     | Some publish \<Rightarrow>
         if \<not> ValidString (pb_room publish) MaxIdentifierLength False \<or> domain_null (pb_message publish) then False
         else (case pb_message publish of
                 DomainMatchInfo m \<Rightarrow> ValidateMatchInfo m
               | DomainMatchScoreUpdate m \<Rightarrow> ValidateMatchScore m
               | DomainFacilityUpdate m \<Rightarrow> ValidateFacility m
               | DomainEquipmentUpdate m \<Rightarrow> ValidateEquipment m
               | DomainBookingNotification m \<Rightarrow> ValidateBooking m
               | DomainSystemAlert m \<Rightarrow> ValidateAlert m
               | DomainNONE \<Rightarrow> False
               | DomainUnnamed b present \<Rightarrow> False))"

lemma ValidateDomain_room: "ValidateDomain (Some p) \<Longrightarrow> \<exists>room. pb_room p = Some room \<and> room \<noteq> [] \<and> length room \<le> 160"
  by (auto simp: ValidateDomain_def ValidString_def MaxIdentifierLength_def split: if_splits option.splits)

lemma ValidString_Some: "ValidString v n e \<Longrightarrow> \<exists>s. v = Some s \<and> length s \<le> n \<and> (e \<or> s \<noteq> [])"
  by (auto simp: ValidString_def split: option.splits)

text \<open>A published facility or equipment update is consistent: every validated facility update has
  at most 1024 courts, all present and all of that facility; every validated equipment update has at
  most 4096 items, all of that facility, none with more available than in the inventory; a validated
  booking starts before it ends.\<close>

lemma ValidateDomain_consistent:
  assumes "ValidateDomain (Some p)"
  shows "case pb_message p of
      DomainFacilityUpdate (Some f) \<Rightarrow> \<exists>courts id. fu_courts f = Some courts \<and> fu_facility_id f = Some id \<and>
        length courts \<le> 1024 \<and> (\<forall>c \<in> set courts. \<exists>c'. c = Some c' \<and> cs_facility_id c' = Some id)
    | DomainEquipmentUpdate (Some e) \<Rightarrow> \<exists>items id. eu_inventory e = Some items \<and> eu_facility_id e = Some id \<and>
        length items \<le> 4096 \<and> (\<forall>i \<in> set items. \<exists>i'. i = Some i' \<and> es_facility_id i' = Some id \<and>
          es_available_count i' \<le> es_total_inventory i')
    | DomainBookingNotification (Some b) \<Rightarrow> bn_start_time_ms b < bn_end_time_ms b
    | DomainMatchInfo (Some m) \<Rightarrow> mi_team1 m \<noteq> mi_team2 m
    | DomainMatchScoreUpdate (Some m) \<Rightarrow> ms_match_id m \<noteq> None
    | DomainSystemAlert (Some a) \<Rightarrow> sa_message a \<noteq> None
    | _ \<Rightarrow> False"
proof (cases "pb_message p")
  case (DomainFacilityUpdate f)
  with assms obtain f' id courts where f: "f = Some f'" "fu_facility_id f' = Some id" "fu_courts f' = Some courts"
    "length courts \<le> 1024" "\<not> list_ex (court_bad f') courts"
    by (auto simp: ValidateDomain_def ValidateFacility_def split: if_splits option.splits dest!: ValidString_Some)
  then have "\<exists>c'. c = Some c' \<and> cs_facility_id c' = Some id" if "c \<in> set courts" for c
    using that by (cases c) (auto simp: court_bad_def list_ex_iff)
  with f DomainFacilityUpdate show ?thesis by simp
next
  case (DomainEquipmentUpdate e)
  with assms obtain e' id items where e: "e = Some e'" "eu_facility_id e' = Some id" "eu_inventory e' = Some items"
    "length items \<le> 4096" "\<not> list_ex (item_bad e') items"
    by (auto simp: ValidateDomain_def ValidateEquipment_def split: if_splits option.splits dest!: ValidString_Some)
  then have "\<exists>i'. i = Some i' \<and> es_facility_id i' = Some id \<and> es_available_count i' \<le> es_total_inventory i'"
    if "i \<in> set items" for i
    using that by (cases i) (auto simp: item_bad_def list_ex_iff not_less)
  with e DomainEquipmentUpdate show ?thesis by simp
qed (use assms in \<open>auto simp: ValidateDomain_def ValidateMatchInfo_def ValidateMatchScore_def ValidateBooking_def
    ValidateAlert_def ValidString_def split: if_splits option.splits\<close>)

end
