(* ===== verification/Room_Registry.thy ===== *)
theory Room_Registry
  imports Session_Handle "HOL-Library.Sublist"
begin

text \<open>
  The publish/subscribe directory, \<open>src/pubsub/room_registry.hpp\<close>. \<open>RoomRegistry\<close>
  keeps the subscriptions twice, by room and by session; every operation runs under its mutex and
  is one step. The specification is one relation between sessions and rooms (\<open>subs\<close>); the
  locale \<open>subscription_directory\<close> states what the router relies on, and the registry
  interprets it.
\<close>

subsection \<open>Data\<close>

datatype RoomResult = Ok | InvalidRoom | Unauthorized | AlreadySubscribed | NotSubscribed

type_synonym authorizer = "SessionHandle \<Rightarrow> string \<Rightarrow> bool \<Rightarrow> bool"

record RoomRegistry =
  room_to_sessions :: "string \<rightharpoonup> SessionHandle list"
  session_to_rooms :: "SessionHandle \<rightharpoonup> string list"

definition rr_new :: RoomRegistry where
  "rr_new = \<lparr>room_to_sessions = Map.empty, session_to_rooms = Map.empty\<rparr>"

subsection \<open>Operations\<close>

definition room_prefixes :: "string list" where
  "room_prefixes = [''match:'', ''facility:'', ''court:'', ''equipment:'', ''booking:user:'']"

definition room_char :: "char \<Rightarrow> bool" where
  "room_char c =
    (let v = (of_char c :: nat)
     in (of_char (CHR ''a'') \<le> v \<and> v \<le> of_char (CHR ''z'')) \<or>
        (of_char (CHR ''A'') \<le> v \<and> v \<le> of_char (CHR ''Z'')) \<or>
        (of_char (CHR ''0'') \<le> v \<and> v \<le> of_char (CHR ''9'')) \<or>
        c = CHR '':'' \<or> c = CHR ''-'' \<or> c = CHR ''_'' \<or> c = CHR ''.'')"

definition IsValidRoom :: "string \<Rightarrow> bool" where
  "IsValidRoom room =
    (if room = [] \<or> length room > 160 then False
     else if \<not> list_ex (\<lambda>p. prefix p room) room_prefixes then False
     else list_all room_char room)"

definition rr_authorized :: "authorizer option \<Rightarrow> SessionHandle \<Rightarrow> string \<Rightarrow> bool \<Rightarrow> bool" where
  "rr_authorized authorizer session room publishing =
    (case authorizer of None \<Rightarrow> True | Some f \<Rightarrow> f session room publishing)"

definition rr_Join :: "authorizer option \<Rightarrow> SessionHandle \<Rightarrow> string \<Rightarrow> RoomRegistry
    \<Rightarrow> RoomResult \<times> RoomRegistry" where
  "rr_Join authorizer session room g =
    (if \<not> IsValidRoom room then (InvalidRoom, g)
     else if \<not> rr_authorized authorizer session room False then (Unauthorized, g)
     else
       let rooms = (case session_to_rooms g session of None \<Rightarrow> [] | Some rs \<Rightarrow> rs);
           g1 = g\<lparr>session_to_rooms := (session_to_rooms g)(session \<mapsto> uset_insert room rooms)\<rparr>
       in if room \<in> set rooms then (AlreadySubscribed, g1)
          else
            let members = (case room_to_sessions g1 room of None \<Rightarrow> [] | Some ss \<Rightarrow> ss)
            in (Ok, g1\<lparr>room_to_sessions :=
                  (room_to_sessions g1)(room \<mapsto> uset_insert session members)\<rparr>))"

text \<open>A key whose set has become empty is erased from its map.\<close>

definition prune :: "'a list \<Rightarrow> 'a list option" where
  "prune xs = (if xs = [] then None else Some xs)"

text \<open>Erasing a session from one room, and the room itself when nobody is left.\<close>

definition room_drop :: "SessionHandle \<Rightarrow> string \<Rightarrow> (string \<rightharpoonup> SessionHandle list)
    \<Rightarrow> (string \<rightharpoonup> SessionHandle list)" where
  "room_drop session room m =
    (case m room of
       None \<Rightarrow> m
     | Some ss \<Rightarrow> m(room := prune (uset_erase session ss)))"

definition rr_Leave :: "SessionHandle \<Rightarrow> string \<Rightarrow> RoomRegistry \<Rightarrow> RoomResult \<times> RoomRegistry" where
  "rr_Leave session room g =
    (case session_to_rooms g session of
       None \<Rightarrow> (NotSubscribed, g)
     | Some rooms \<Rightarrow>
         if room \<notin> set rooms then (NotSubscribed, g)
         else
           let g1 = g\<lparr>session_to_rooms :=
                 (session_to_rooms g)(session := prune (uset_erase room rooms))\<rparr>
           in (Ok, g1\<lparr>room_to_sessions := room_drop session room (room_to_sessions g1)\<rparr>))"

definition rr_AuthorizePublish :: "authorizer option \<Rightarrow> SessionHandle \<Rightarrow> string \<Rightarrow> RoomRegistry
    \<Rightarrow> RoomResult" where
  "rr_AuthorizePublish authorizer session room g =
    (if \<not> IsValidRoom room then InvalidRoom
     else if \<not> rr_authorized authorizer session room True then Unauthorized
     else case session_to_rooms g session of
       None \<Rightarrow> NotSubscribed
     | Some rooms \<Rightarrow> if room \<notin> set rooms then NotSubscribed else Ok)"

definition rr_Snapshot :: "string \<Rightarrow> RoomRegistry \<Rightarrow> SessionHandle list" where
  "rr_Snapshot room g = (case room_to_sessions g room of None \<Rightarrow> [] | Some ss \<Rightarrow> ss)"

definition rr_RemoveSession :: "SessionHandle \<Rightarrow> RoomRegistry \<Rightarrow> RoomRegistry" where
  "rr_RemoveSession session g =
    (case session_to_rooms g session of
       None \<Rightarrow> g
     | Some rooms \<Rightarrow>
         g\<lparr>room_to_sessions := fold (room_drop session) rooms (room_to_sessions g),
           session_to_rooms := (session_to_rooms g)(session := None)\<rparr>)"

subsection \<open>The specification: one relation\<close>

definition members :: "('k \<rightharpoonup> 'v list) \<Rightarrow> 'k \<Rightarrow> 'v set" where
  "members m k = (case m k of None \<Rightarrow> {} | Some xs \<Rightarrow> set xs)"

definition subs :: "RoomRegistry \<Rightarrow> (SessionHandle \<times> string) set" where
  "subs g = {(s, r). r \<in> members (session_to_rooms g) s}"

text \<open>No key is bound to an empty set, and sets have no duplicates.\<close>

definition proper :: "('k \<rightharpoonup> 'v list) \<Rightarrow> bool" where
  "proper m \<longleftrightarrow> (\<forall>k xs. m k = Some xs \<longrightarrow> xs \<noteq> [] \<and> distinct xs)"

text \<open>The two indexes agree, and only valid room names are subscribed.\<close>

definition rr_inv :: "RoomRegistry \<Rightarrow> bool" where
  "rr_inv g \<longleftrightarrow>
     (\<forall>s r. r \<in> members (session_to_rooms g) s \<longleftrightarrow> s \<in> members (room_to_sessions g) r) \<and>
     proper (session_to_rooms g) \<and> proper (room_to_sessions g) \<and>
     (\<forall>(s, r) \<in> subs g. IsValidRoom r)"

lemma members_upd [simp]:
  "members (m(k \<mapsto> xs)) k' = (if k' = k then set xs else members m k')"
  "members (m(k := None)) k' = (if k' = k then {} else members m k')"
  "members (m(k := prune xs)) k' = (if k' = k then set xs else members m k')"
  by (simp_all add: members_def prune_def)

lemma members_Some: "m k = Some xs \<Longrightarrow> members m k = set xs"
  by (simp add: members_def)

lemma members_empty [simp]: "members Map.empty k = {}"
  by (simp add: members_def)

lemma set_case_members [simp]: "set (case m k of None \<Rightarrow> [] | Some xs \<Rightarrow> xs) = members m k"
  by (simp add: members_def split: option.splits)

lemma proper_upd [intro!]:
  "proper m \<Longrightarrow> xs \<noteq> [] \<Longrightarrow> distinct xs \<Longrightarrow> proper (m(k \<mapsto> xs))"
  "proper m \<Longrightarrow> proper (m(k := None))"
  "proper m \<Longrightarrow> distinct xs \<Longrightarrow> proper (m(k := prune xs))"
  by (auto simp: proper_def prune_def)

lemma proper_distinct: "proper m \<Longrightarrow> distinct (case m k of None \<Rightarrow> [] | Some xs \<Rightarrow> xs)"
  by (auto simp: proper_def split: option.splits)

lemma proper_None: "proper m \<Longrightarrow> m k = None \<longleftrightarrow> members m k = {}"
  by (auto simp: proper_def members_def split: option.splits)

lemma members_room_drop [simp]:
  "members (room_drop s r m) r' = (if r' = r then members m r' - {s} else members m r')"
  by (auto simp: room_drop_def members_Some split: option.splits) (auto simp: members_def)

lemma proper_room_drop [intro!]: "proper m \<Longrightarrow> proper (room_drop s r m)"
  by (auto simp: room_drop_def split: option.splits) (auto simp: proper_def)

lemma members_fold_room_drop:
  "members (fold (room_drop s) rs m) r = (if r \<in> set rs then members m r - {s} else members m r)"
  by (induction rs arbitrary: m) auto

lemma proper_fold_room_drop: "proper m \<Longrightarrow> proper (fold (room_drop s) rs m)"
  by (induction rs arbitrary: m) auto

lemma in_subs: "(s, r) \<in> subs g \<longleftrightarrow> r \<in> members (session_to_rooms g) s"
  by (simp add: subs_def)

lemma rr_new_inv [inv_intros]: "rr_inv rr_new" and rr_new_subs [abs_simps]: "subs rr_new = {}"
  by (auto simp: rr_inv_def rr_new_def subs_def proper_def)

subsection \<open>Each operation against the specification\<close>

lemma rr_Join_spec:
  assumes "rr_inv g" and "rr_Join au s r g = (res, g')"
  shows "rr_inv g'"
    and "res = (if \<not> IsValidRoom r then InvalidRoom
        else if \<not> rr_authorized au s r False then Unauthorized
        else if (s, r) \<in> subs g then AlreadySubscribed else Ok)"
    and "subs g' = (if res = Ok then insert (s, r) (subs g) else subs g)"
proof -
  let ?rooms = "case session_to_rooms g s of None \<Rightarrow> [] | Some rs \<Rightarrow> rs"
  let ?mems = "case room_to_sessions g r of None \<Rightarrow> [] | Some ss \<Rightarrow> ss"
  have d: "distinct ?rooms" "distinct ?mems"
    using assms(1) by (auto simp: rr_inv_def intro: proper_distinct)
  show res: "res = (if \<not> IsValidRoom r then InvalidRoom
        else if \<not> rr_authorized au s r False then Unauthorized
        else if (s, r) \<in> subs g then AlreadySubscribed else Ok)"
    using assms(2) by (auto simp: rr_Join_def Let_def in_subs split: if_splits)
  have sb: "subs g' = (if res = Ok then insert (s, r) (subs g) else subs g)"
    using assms(2) by (auto simp: rr_Join_def Let_def subs_def split: if_splits)
  then show "subs g' = (if res = Ok then insert (s, r) (subs g) else subs g)" .
  have "\<forall>(s, r) \<in> subs g'. IsValidRoom r"
    using assms(1) res sb by (auto simp: rr_inv_def split: if_splits)
  then show "rr_inv g'"
    using assms d by (auto simp: rr_inv_def rr_Join_def Let_def split: if_splits)
qed

lemma rr_Leave_Some:
  "session_to_rooms g s = Some rs \<Longrightarrow> r \<in> set rs \<Longrightarrow>
     rr_Leave s r g = (Ok, g\<lparr>session_to_rooms := (session_to_rooms g)(s := prune (uset_erase r rs)),
       room_to_sessions := room_drop s r (room_to_sessions g)\<rparr>)"
  by (simp add: rr_Leave_def Let_def)

lemma rr_Leave_spec:
  assumes "rr_inv g" and "rr_Leave s r g = (res, g')"
  shows "rr_inv g'"
    and "res = (if (s, r) \<in> subs g then Ok else NotSubscribed)"
    and "subs g' = subs g - {(s, r)}"
proof (atomize(full), cases "(s, r) \<in> subs g")
  case True
  then obtain rs where rs: "session_to_rooms g s = Some rs" "r \<in> set rs"
    by (auto simp: in_subs members_def split: option.splits)
  note mem = members_Some [of "session_to_rooms g" s rs, OF rs(1)]
  have "distinct rs" using assms(1) rs by (auto simp: rr_inv_def proper_def)
  moreover have sb: "subs g' = subs g - {(s, r)}"
    using assms(2) mem by (auto simp: rr_Leave_Some [OF rs] subs_def split: if_splits)
  ultimately have "rr_inv g'"
    using assms mem by (auto simp: rr_inv_def rr_Leave_Some [OF rs] split: if_splits)
  with True sb show "rr_inv g' \<and> res = (if (s, r) \<in> subs g then Ok else NotSubscribed)
      \<and> subs g' = subs g - {(s, r)}"
    using assms(2) by (simp add: rr_Leave_Some [OF rs])
next
  case False
  then have "rr_Leave s r g = (NotSubscribed, g)"
    by (auto simp: rr_Leave_def in_subs members_def split: option.splits)
  with False assms show "rr_inv g' \<and> res = (if (s, r) \<in> subs g then Ok else NotSubscribed)
      \<and> subs g' = subs g - {(s, r)}"
    by auto
qed

lemma rr_RemoveSession_spec:
  assumes "rr_inv g"
  shows "rr_inv (rr_RemoveSession s g)"
    and "subs (rr_RemoveSession s g) = subs g - {s} \<times> UNIV"
proof (atomize(full), cases "session_to_rooms g s")
  case None
  then show "rr_inv (rr_RemoveSession s g) \<and> subs (rr_RemoveSession s g) = subs g - {s} \<times> UNIV"
    using assms by (auto simp: rr_RemoveSession_def subs_def members_def)
next
  case (Some rs)
  note mem = members_Some [of "session_to_rooms g" s rs, OF Some]
  have sb: "subs (rr_RemoveSession s g) = subs g - {s} \<times> UNIV"
    by (auto simp: rr_RemoveSession_def Some subs_def split: if_splits)
  then have "\<forall>(s, r) \<in> subs (rr_RemoveSession s g). IsValidRoom r"
    using assms by (auto simp: rr_inv_def)
  with sb show "rr_inv (rr_RemoveSession s g) \<and> subs (rr_RemoveSession s g) = subs g - {s} \<times> UNIV"
    using assms mem
    by (auto simp: rr_inv_def rr_RemoveSession_def Some members_fold_room_drop
        intro!: proper_fold_room_drop split: if_splits)
qed

lemma rr_AuthorizePublish_spec:
  "rr_AuthorizePublish au s r g =
     (if \<not> IsValidRoom r then InvalidRoom
      else if \<not> rr_authorized au s r True then Unauthorized
      else if (s, r) \<in> subs g then Ok else NotSubscribed)"
  by (auto simp: rr_AuthorizePublish_def in_subs members_def split: option.splits)

lemma rr_Snapshot_spec:
  assumes "rr_inv g"
  shows "set (rr_Snapshot r g) = {s. (s, r) \<in> subs g}" and "distinct (rr_Snapshot r g)"
  using assms by (auto simp: rr_Snapshot_def rr_inv_def in_subs intro: proper_distinct)

subsection \<open>The interface the router uses\<close>

locale subscription_directory =
  fixes join :: "authorizer option \<Rightarrow> SessionHandle \<Rightarrow> string \<Rightarrow> 'g \<Rightarrow> RoomResult \<times> 'g"
    and leave :: "SessionHandle \<Rightarrow> string \<Rightarrow> 'g \<Rightarrow> RoomResult \<times> 'g"
    and remove :: "SessionHandle \<Rightarrow> 'g \<Rightarrow> 'g"
    and snapshot :: "string \<Rightarrow> 'g \<Rightarrow> SessionHandle list"
    and rel :: "'g \<Rightarrow> (SessionHandle \<times> string) set"
    and inv :: "'g \<Rightarrow> bool"
  assumes join_inv: "inv g \<Longrightarrow> inv (snd (join au s r g))"
    and join_rel: "inv g \<Longrightarrow> rel (snd (join au s r g)) =
        (if fst (join au s r g) = Ok then insert (s, r) (rel g) else rel g)"
    and join_Ok: "inv g \<Longrightarrow> fst (join au s r g) = Ok \<longleftrightarrow>
        IsValidRoom r \<and> rr_authorized au s r False \<and> (s, r) \<notin> rel g"
    and leave_inv: "inv g \<Longrightarrow> inv (snd (leave s r g))"
    and leave_rel: "inv g \<Longrightarrow> rel (snd (leave s r g)) = rel g - {(s, r)}"
    and leave_Ok: "inv g \<Longrightarrow> fst (leave s r g) = Ok \<longleftrightarrow> (s, r) \<in> rel g"
    and remove_inv: "inv g \<Longrightarrow> inv (remove s g)"
    and remove_rel: "inv g \<Longrightarrow> rel (remove s g) = rel g - {s} \<times> UNIV"
    and snapshot_rel: "inv g \<Longrightarrow> set (snapshot r g) = {s. (s, r) \<in> rel g}"
begin

text \<open>A session receives the publications of a room from its join to its leave.\<close>

lemma snapshot_after_join:
  "inv g \<Longrightarrow> fst (join au s r g) = Ok \<Longrightarrow>
     set (snapshot r (snd (join au s r g))) = insert s (set (snapshot r g))"
  by (auto simp: snapshot_rel join_inv join_rel)

lemma snapshot_after_join_other:
  "inv g \<Longrightarrow> r' \<noteq> r \<Longrightarrow> set (snapshot r' (snd (join au s r g))) = set (snapshot r' g)"
  by (auto simp: snapshot_rel join_inv join_rel)

lemma snapshot_after_leave:
  "inv g \<Longrightarrow> set (snapshot r (snd (leave s r g))) = set (snapshot r g) - {s}"
  by (auto simp: snapshot_rel leave_inv leave_rel)

lemma snapshot_after_remove:
  "inv g \<Longrightarrow> set (snapshot r (remove s g)) = set (snapshot r g) - {s}"
  by (auto simp: snapshot_rel remove_inv remove_rel)

lemma leave_after_join:
  assumes "inv g" and "fst (join au s r g) = Ok"
  shows "fst (leave s r (snd (join au s r g))) = Ok
    \<and> rel (snd (leave s r (snd (join au s r g)))) = rel g"
  using assms by (auto simp: leave_Ok leave_rel join_inv join_rel join_Ok)

lemma join_idempotent:
  assumes "inv g" and "fst (join au s r g) = Ok"
  shows "fst (join au s r (snd (join au s r g))) \<noteq> Ok"
  using assms by (simp add: join_Ok join_inv join_rel)

end

interpretation rr: subscription_directory rr_Join rr_Leave rr_RemoveSession rr_Snapshot subs rr_inv
proof
  fix g :: RoomRegistry and au s r
  assume g: "rr_inv g"
  obtain res g' where j: "rr_Join au s r g = (res, g')" by (cases "rr_Join au s r g")
  note js = rr_Join_spec [OF g j]
  show "rr_inv (snd (rr_Join au s r g))"
    and "subs (snd (rr_Join au s r g)) =
        (if fst (rr_Join au s r g) = Ok then insert (s, r) (subs g) else subs g)"
    and "fst (rr_Join au s r g) = Ok \<longleftrightarrow>
        IsValidRoom r \<and> rr_authorized au s r False \<and> (s, r) \<notin> subs g"
    using js by (simp_all add: j)
next
  fix g :: RoomRegistry and s r
  assume g: "rr_inv g"
  obtain res g' where l: "rr_Leave s r g = (res, g')" by (cases "rr_Leave s r g")
  note ls = rr_Leave_spec [OF g l]
  show "rr_inv (snd (rr_Leave s r g))" and "subs (snd (rr_Leave s r g)) = subs g - {(s, r)}"
    and "fst (rr_Leave s r g) = Ok \<longleftrightarrow> (s, r) \<in> subs g"
    using ls by (simp_all add: l)
  show "rr_inv (rr_RemoveSession s g)" and "subs (rr_RemoveSession s g) = subs g - {s} \<times> UNIV"
    using g by (rule rr_RemoveSession_spec)+
  show "set (rr_Snapshot r g) = {s. (s, r) \<in> subs g}"
    using g by (rule rr_Snapshot_spec)
qed

subsection \<open>Runs of the registry\<close>

text \<open>
  Any interleaving of registry calls (each is atomic under the mutex) and the same run of the
  specification relation.
\<close>

datatype room_op = OpJoin "authorizer option" SessionHandle string | OpLeave SessionHandle string
  | OpRemove SessionHandle

fun rr_step :: "RoomRegistry \<Rightarrow> room_op \<Rightarrow> RoomRegistry" where
  "rr_step g (OpJoin au s r) = snd (rr_Join au s r g)"
| "rr_step g (OpLeave s r) = snd (rr_Leave s r g)"
| "rr_step g (OpRemove s) = rr_RemoveSession s g"

fun spec_step :: "(SessionHandle \<times> string) set \<Rightarrow> room_op \<Rightarrow> (SessionHandle \<times> string) set" where
  "spec_step R (OpJoin au s r) =
     (if IsValidRoom r \<and> rr_authorized au s r False then insert (s, r) R else R)"
| "spec_step R (OpLeave s r) = R - {(s, r)}"
| "spec_step R (OpRemove s) = R - {s} \<times> UNIV"

lemma rr_step_inv [inv_intros]: "rr_inv g \<Longrightarrow> rr_inv (rr_step g x)"
  by (cases x) (simp_all add: rr.join_inv rr.leave_inv rr.remove_inv)

lemma rr_step_subs [abs_simps]: "rr_inv g \<Longrightarrow> subs (rr_step g x) = spec_step (subs g) x"
  by (cases x) (auto simp: rr.join_rel rr.join_Ok rr.leave_rel rr.remove_rel)

lemma rr_run: "rr_inv g \<Longrightarrow> rr_inv (foldl rr_step g xs)
    \<and> subs (foldl rr_step g xs) = foldl spec_step (subs g) xs"
  by (induction xs arbitrary: g) (simp_all add: rr_step_inv rr_step_subs)

subsection \<open>Properties\<close>

text \<open>C24. Refinement: after any sequence of \<open>Join\<close>, \<open>Leave\<close> and
  \<open>RemoveSession\<close> calls on a new registry, the two indexes agree with each other and with
  one relation updated by the obvious set operations; the members that \<open>Snapshot\<close> returns
  for a room are exactly the sessions related to it, each once.\<close>

theorem rr_refines_relation:
  "rr_inv (foldl rr_step rr_new xs) \<and>
   set (rr_Snapshot r (foldl rr_step rr_new xs)) = {s. (s, r) \<in> foldl spec_step {} xs} \<and>
   distinct (rr_Snapshot r (foldl rr_step rr_new xs))"
proof -
  have "rr_inv (foldl rr_step rr_new xs)"
    and "subs (foldl rr_step rr_new xs) = foldl spec_step {} xs"
    using rr_run [OF rr_new_inv, of xs] by (simp_all add: rr_new_subs)
  then show ?thesis by (simp add: rr_Snapshot_spec)
qed

text \<open>A disconnected session is in no room: after \<open>RemoveSession\<close> no snapshot contains
  it, it may not publish anywhere, and the other members of every room are unchanged.\<close>

lemma rr_RemoveSession_complete:
  assumes "rr_inv g"
  shows "set (rr_Snapshot r (rr_RemoveSession s g)) = set (rr_Snapshot r g) - {s} \<and>
    rr_AuthorizePublish au s r (rr_RemoveSession s g) \<noteq> Ok"
  using rr.snapshot_after_remove [OF assms] rr.remove_rel [OF assms]
  by (simp add: rr_AuthorizePublish_spec)

end
