(* ===== verification/Router.thy ===== *)
theory Router
  imports Protocol Room_Registry Outbound_Queue
begin

text \<open>
  \<open>ProtocolRouter\<close>, \<open>src/application/protocol_router.{hpp,cpp}\<close>: authentication, rooms and
  publishing on top of the server. The generated FlatBuffers code (verification with parsing, and
  building) is a parameter, and so is the server the router sends through: the router's own state
  lives inside the server's state, because a failing \<open>Send\<close> disconnects a session and calls
  \<open>OnDisconnect\<close> while a message is being handled. The locale \<open>server_port\<close> is the contract
  between the two.
\<close>

subsection \<open>State and environment\<close>

record Router =
  rt_rooms :: RoomRegistry
  rt_principals :: "SessionHandle \<rightharpoonup> string"
  rt_sequence :: u64

definition rt_new :: Router where
  "rt_new = \<lparr>rt_rooms = rr_new, rt_principals = Map.empty, rt_sequence = 1\<rparr>"

record 's router_env =
  env_parse :: "byte list \<Rightarrow> NetworkMessage option"
  env_build :: "NetworkMessage \<Rightarrow> byte list"
  env_authenticator :: "(string \<Rightarrow> string option) option"
  env_room_authorizer :: "(string \<Rightarrow> string \<Rightarrow> bool \<Rightarrow> bool) option"
  env_get :: "'s \<Rightarrow> Router"
  env_put :: "Router \<Rightarrow> 's \<Rightarrow> 's"
  env_send :: "SessionHandle \<Rightarrow> SharedBuffer \<Rightarrow> 's \<Rightarrow> bool \<times> 's"

subsection \<open>Operations\<close>

fun RoomResultReason :: "RoomResult \<Rightarrow> string" where
  "RoomResultReason Ok = []"
| "RoomResultReason InvalidRoom = ''invalid room''"
| "RoomResultReason Unauthorized = ''room authorization denied''"
| "RoomResultReason AlreadySubscribed = ''already subscribed''"
| "RoomResultReason NotSubscribed = ''not subscribed''"

definition Principal :: "SessionHandle \<Rightarrow> Router \<Rightarrow> string option" where
  "Principal session r = rt_principals r session"

definition IsAuthenticated :: "SessionHandle \<Rightarrow> Router \<Rightarrow> bool" where
  "IsAuthenticated session r \<longleftrightarrow> Principal session r \<noteq> None"

definition BookingPrefix :: string where
  "BookingPrefix = ''booking:user:''"

definition AuthorizeRoom :: "(string \<Rightarrow> string \<Rightarrow> bool \<Rightarrow> bool) option \<Rightarrow> Router \<Rightarrow> authorizer" where
  "AuthorizeRoom room_authorizer r session room publishing =
    (case Principal session r of
       None \<Rightarrow> False
     | Some who \<Rightarrow>
         (case room_authorizer of
            Some f \<Rightarrow> f who room publishing
          | None \<Rightarrow>
              if prefix BookingPrefix room then drop (length BookingPrefix) room = who else True))"

definition OnDisconnect :: "SessionHandle \<Rightarrow> Router \<Rightarrow> Router" where
  "OnDisconnect session r =
    r\<lparr>rt_rooms := rr_RemoveSession session (rt_rooms r), rt_principals := (rt_principals r)(session := None)\<rparr>"

text \<open>A reply: the next sequence number is taken, the message is built and sent; the result of
  \<open>Send\<close> is not looked at.\<close>

definition reply :: "'s router_env \<Rightarrow> u64 \<Rightarrow> SessionHandle \<Rightarrow> u64 \<Rightarrow> Payload \<Rightarrow> 's \<Rightarrow> 's" where
  "reply env now session request_id payload s =
    (let r = env_get env s;
         msg = \<lparr>nm_protocol_version = ProtocolVersion, nm_request_id = request_id,
                nm_sequence_id = rt_sequence r, nm_sent_at_ms = now, nm_payload = payload\<rparr>;
         s1 = env_put env (r\<lparr>rt_sequence := rt_sequence r + 1\<rparr>) s
     in snd (env_send env session (Some (env_build env msg)) s1))"

definition send_error :: "'s router_env \<Rightarrow> u64 \<Rightarrow> SessionHandle \<Rightarrow> u64 \<Rightarrow> ErrorCode \<Rightarrow> string \<Rightarrow> 's \<Rightarrow> 's" where
  "send_error env now session request_id code message =
    reply env now session 0 (PayloadErrorResponse (Some
      \<lparr>er_code = code, er_message = Some message, er_related_request_id = request_id\<rparr>))"

definition send_ack :: "'s router_env \<Rightarrow> u64 \<Rightarrow> SessionHandle \<Rightarrow> u64 \<Rightarrow> string \<Rightarrow> SubscriptionOperation
    \<Rightarrow> RoomResult \<Rightarrow> 's \<Rightarrow> 's" where
  "send_ack env now session request_id room operation result =
    (let reason = RoomResultReason result
     in reply env now session request_id (PayloadSubscriptionAck (Some
          \<lparr>ack_room = Some room, ack_operation = operation, ack_accepted = (result = Ok),
           ack_reason = (if reason = [] then None else Some reason)\<rparr>)))"

definition fan_out :: "'s router_env \<Rightarrow> SessionHandle list \<Rightarrow> byte list \<Rightarrow> 's \<Rightarrow> 's" where
  "fan_out env recipients payload s =
    fold (\<lambda>recipient s. snd (env_send env recipient (Some payload) s)) recipients s"

definition handle_authenticate :: "'s router_env \<Rightarrow> u64 \<Rightarrow> SessionHandle \<Rightarrow> u64 \<Rightarrow> string option option
    \<Rightarrow> 's \<Rightarrow> MessageDisposition \<times> 's" where
  "handle_authenticate env now session request_id authenticate s =
    (case authenticate of
       Some (Some token) \<Rightarrow>
         if \<not> ValidString (Some token) MaxTextLength False
           then (MalformedMessage,
                 send_error env now session request_id MALFORMED_MESSAGE ''authentication token is required'' s)
         else
           let who = (case env_authenticator env of None \<Rightarrow> None | Some f \<Rightarrow> f token);
               r = env_get env s;
               s1 = (case who of
                       None \<Rightarrow> s
                     | Some p \<Rightarrow> env_put env (r\<lparr>rt_principals := (rt_principals r)(session \<mapsto> p)\<rparr>) s)
           in (AcceptedMessage,
               reply env now session request_id (PayloadAuthenticationResult (Some
                 \<lparr>ar_accepted = (who \<noteq> None), ar_principal_id = who,
                  ar_reason = (if who = None then Some ''authentication rejected'' else None)\<rparr>)) s1)
     | _ \<Rightarrow> (MalformedMessage,
             send_error env now session request_id MALFORMED_MESSAGE ''authentication token is required'' s))"

definition handle_join :: "'s router_env \<Rightarrow> u64 \<Rightarrow> SessionHandle \<Rightarrow> u64 \<Rightarrow> string option option
    \<Rightarrow> 's \<Rightarrow> MessageDisposition \<times> 's" where
  "handle_join env now session request_id join s =
    (let r = env_get env s
     in if \<not> IsAuthenticated session r
          then (AcceptedMessage,
                send_error env now session request_id UNAUTHORIZED ''authenticate before joining rooms'' s)
        else (case join of
          Some (Some room) \<Rightarrow>
            if \<not> ValidString (Some room) MaxIdentifierLength False
              then (MalformedMessage, send_error env now session request_id INVALID_ROOM ''room is required'' s)
            else
              (case rr_Join (Some (AuthorizeRoom (env_room_authorizer env) r)) session room (rt_rooms r) of
                 (result, rooms) \<Rightarrow>
                   (AcceptedMessage,
                    send_ack env now session request_id room JOIN result (env_put env (r\<lparr>rt_rooms := rooms\<rparr>) s)))
        | _ \<Rightarrow> (MalformedMessage, send_error env now session request_id INVALID_ROOM ''room is required'' s)))"

definition handle_leave :: "'s router_env \<Rightarrow> u64 \<Rightarrow> SessionHandle \<Rightarrow> u64 \<Rightarrow> string option option
    \<Rightarrow> 's \<Rightarrow> MessageDisposition \<times> 's" where
  "handle_leave env now session request_id leave s =
    (case leave of
       Some (Some room) \<Rightarrow>
         if \<not> ValidString (Some room) MaxIdentifierLength False
           then (MalformedMessage, send_error env now session request_id INVALID_ROOM ''room is required'' s)
         else
           let r = env_get env s
           in (case rr_Leave session room (rt_rooms r) of
                 (result, rooms) \<Rightarrow>
                   (AcceptedMessage,
                    send_ack env now session request_id room LEAVE result (env_put env (r\<lparr>rt_rooms := rooms\<rparr>) s)))
     | _ \<Rightarrow> (MalformedMessage, send_error env now session request_id INVALID_ROOM ''room is required'' s))"

definition handle_publish :: "'s router_env \<Rightarrow> u64 \<Rightarrow> SessionHandle \<Rightarrow> u64 \<Rightarrow> byte list \<Rightarrow> Publish option
    \<Rightarrow> 's \<Rightarrow> MessageDisposition \<times> 's" where
  "handle_publish env now session request_id payload publish s =
    (let r = env_get env s
     in if \<not> IsAuthenticated session r
          then (AcceptedMessage,
                send_error env now session request_id UNAUTHORIZED ''authenticate before publishing'' s)
        else if \<not> ValidateDomain publish
          then (MalformedMessage,
                send_error env now session request_id MALFORMED_MESSAGE ''published domain payload is invalid'' s)
        else
          let room = the (pb_room (the publish));
              authorization = rr_AuthorizePublish (Some (AuthorizeRoom (env_room_authorizer env) r)) session room (rt_rooms r)
          in if authorization \<noteq> Ok
               then (AcceptedMessage,
                     send_error env now session request_id
                       (if authorization = Unauthorized then FORBIDDEN else NOT_SUBSCRIBED)
                       (RoomResultReason authorization) s)
             else (AcceptedMessage, fan_out env (rr_Snapshot room (rt_rooms r)) payload s))"

definition Handle :: "'s router_env \<Rightarrow> u64 \<Rightarrow> SessionHandle \<Rightarrow> byte list \<Rightarrow> 's \<Rightarrow> MessageDisposition \<times> 's" where
  "Handle env now session payload s =
    (case env_parse env payload of
       None \<Rightarrow> (MalformedMessage, s)
     | Some message \<Rightarrow>
         let request_id = nm_request_id message
         in if nm_protocol_version message \<noteq> ProtocolVersion
              then (AcceptedMessage,
                    send_error env now session request_id UNSUPPORTED_VERSION ''supported protocol_version is 1'' s)
            else if payload_null (nm_payload message)
              then (MalformedMessage,
                    send_error env now session request_id MALFORMED_MESSAGE ''payload is required'' s)
            else (case nm_payload message of
                PayloadAuthenticate a \<Rightarrow> handle_authenticate env now session request_id a s
              | PayloadPing ping \<Rightarrow>
                  (case ping of
                     None \<Rightarrow> (MalformedMessage, s)
                   | Some timestamp \<Rightarrow>
                       (AcceptedMessage, reply env now session request_id (PayloadPong (Some timestamp)) s))
              | PayloadPong _ \<Rightarrow> (AcceptedMessage, s)
              | PayloadJoinRoom join \<Rightarrow> handle_join env now session request_id join s
              | PayloadLeaveRoom leave \<Rightarrow> handle_leave env now session request_id leave s
              | PayloadPublish publish \<Rightarrow> handle_publish env now session request_id payload publish s
              | PayloadMatchInfo _ \<Rightarrow>
                  (AcceptedMessage,
                   send_error env now session request_id FORBIDDEN ''payload type is server-to-client only'' s)
              | PayloadMatchScoreUpdate _ \<Rightarrow>
                  (AcceptedMessage,
                   send_error env now session request_id FORBIDDEN ''payload type is server-to-client only'' s)
              | PayloadFacilityUpdate _ \<Rightarrow>
                  (AcceptedMessage,
                   send_error env now session request_id FORBIDDEN ''payload type is server-to-client only'' s)
              | PayloadEquipmentUpdate _ \<Rightarrow>
                  (AcceptedMessage,
                   send_error env now session request_id FORBIDDEN ''payload type is server-to-client only'' s)
              | PayloadBookingNotification _ \<Rightarrow>
                  (AcceptedMessage,
                   send_error env now session request_id FORBIDDEN ''payload type is server-to-client only'' s)
              | PayloadSystemAlert _ \<Rightarrow>
                  (AcceptedMessage,
                   send_error env now session request_id FORBIDDEN ''payload type is server-to-client only'' s)
              | PayloadAuthenticationResult _ \<Rightarrow>
                  (AcceptedMessage,
                   send_error env now session request_id FORBIDDEN ''payload type is server-to-client only'' s)
              | PayloadSubscriptionAck _ \<Rightarrow>
                  (AcceptedMessage,
                   send_error env now session request_id FORBIDDEN ''payload type is server-to-client only'' s)
              | PayloadErrorResponse _ \<Rightarrow>
                  (AcceptedMessage,
                   send_error env now session request_id FORBIDDEN ''payload type is server-to-client only'' s)
              | PayloadNONE \<Rightarrow> (MalformedMessage, s)
              | PayloadUnnamed b present \<Rightarrow> (MalformedMessage, s)))"

subsection \<open>Invariant\<close>

text \<open>The registry is consistent, and every subscribed session is authenticated.\<close>

definition rt_inv :: "Router \<Rightarrow> bool" where
  "rt_inv r \<longleftrightarrow> rr_inv (rt_rooms r) \<and> (\<forall>(h, room) \<in> subs (rt_rooms r). rt_principals r h \<noteq> None)"

lemma rt_inv_new [simp]: "rt_inv rt_new"
  by (simp add: rt_inv_def rt_new_def rr_new_inv rr_new_subs)

lemma rt_inv_sequence [simp]: "rt_inv (r\<lparr>rt_sequence := n\<rparr>) = rt_inv r"
  by (simp add: rt_inv_def)

lemma OnDisconnect_inv [inv_intros]: "rt_inv r \<Longrightarrow> rt_inv (OnDisconnect h r)"
  by (auto simp: rt_inv_def OnDisconnect_def rr.remove_inv rr.remove_rel split: if_splits)

lemma OnDisconnect_all_inv [inv_intros]: "rt_inv r \<Longrightarrow> rt_inv (fold OnDisconnect gone r)"
  by (induction gone arbitrary: r) (auto intro: OnDisconnect_inv)

text \<open>What other sessions can observe of a step of one session: they may have been disconnected, and
  nothing else changes for them.\<close>

definition others_shrink :: "SessionHandle set \<Rightarrow> Router \<Rightarrow> Router \<Rightarrow> bool" where
  "others_shrink H r r' \<longleftrightarrow>
     (\<forall>h. h \<notin> H \<longrightarrow> (rt_principals r' h = rt_principals r h \<or> rt_principals r' h = None)) \<and>
     (\<forall>h room. h \<notin> H \<longrightarrow> (h, room) \<in> subs (rt_rooms r') \<longrightarrow> (h, room) \<in> subs (rt_rooms r))"

lemma others_shrink_refl [simp]: "others_shrink H r r"
  by (simp add: others_shrink_def)

lemma others_shrink_trans: "others_shrink H r r1 \<Longrightarrow> others_shrink H r1 r2 \<Longrightarrow> others_shrink H r r2"
  by (fastforce simp: others_shrink_def)

lemma others_shrink_sequence [simp]:
  "others_shrink H r (r\<lparr>rt_sequence := n\<rparr>)" "others_shrink H (r\<lparr>rt_sequence := n\<rparr>) r' = others_shrink H r r'"
  by (simp_all add: others_shrink_def)

lemma OnDisconnect_shrink: "rt_inv r \<Longrightarrow> others_shrink H r (OnDisconnect h r)"
  by (auto simp: others_shrink_def OnDisconnect_def rt_inv_def rr.remove_rel)

lemma OnDisconnect_all_shrink: "rt_inv r \<Longrightarrow> others_shrink H r (fold OnDisconnect gone r)"
proof (induction gone arbitrary: r)
  case (Cons h gone)
  then show ?case
    using others_shrink_trans [OF OnDisconnect_shrink [of r H h]] by (simp add: OnDisconnect_inv)
qed simp

lemma authenticate_inv: "rt_inv r \<Longrightarrow> rt_inv (r\<lparr>rt_principals := (rt_principals r)(h \<mapsto> p)\<rparr>)"
  by (auto simp: rt_inv_def)

lemma join_inv:
  assumes "rt_inv r" and "IsAuthenticated h r" and "rr_Join au h room (rt_rooms r) = (res, g)"
  shows "rt_inv (r\<lparr>rt_rooms := g\<rparr>)" and "others_shrink {h} r (r\<lparr>rt_rooms := g\<rparr>)"
proof -
  have inv: "rr_inv (rt_rooms r)" using assms(1) by (simp add: rt_inv_def)
  have g: "rr_inv g" "subs g = (if res = Ok then insert (h, room) (subs (rt_rooms r)) else subs (rt_rooms r))"
    using rr.join_inv [OF inv, of au h room] rr.join_rel [OF inv, of au h room] assms(3) by simp_all
  with assms(1,2) show "rt_inv (r\<lparr>rt_rooms := g\<rparr>)"
    by (auto simp: rt_inv_def IsAuthenticated_def Principal_def split: if_splits)
  from g show "others_shrink {h} r (r\<lparr>rt_rooms := g\<rparr>)"
    by (auto simp: others_shrink_def split: if_splits)
qed

lemma leave_inv:
  assumes "rt_inv r" and "rr_Leave h room (rt_rooms r) = (res, g)"
  shows "rt_inv (r\<lparr>rt_rooms := g\<rparr>)" and "others_shrink {h} r (r\<lparr>rt_rooms := g\<rparr>)"
proof -
  have inv: "rr_inv (rt_rooms r)" using assms(1) by (simp add: rt_inv_def)
  have "rr_inv g" "subs g = subs (rt_rooms r) - {(h, room)}"
    using rr.leave_inv [OF inv, of h room] rr.leave_rel [OF inv, of h room] assms(2) by simp_all
  with assms(1) show "rt_inv (r\<lparr>rt_rooms := g\<rparr>)" "others_shrink {h} r (r\<lparr>rt_rooms := g\<rparr>)"
    by (auto simp: rt_inv_def others_shrink_def)
qed

subsection \<open>The contract with the server\<close>

text \<open>What the router needs from the server it sends through: its own state is kept, except that
  \<open>Send\<close> may disconnect sessions and report them to \<open>OnDisconnect\<close>.\<close>

locale server_port =
  fixes env :: "'s router_env"
  assumes get_put: "env_get env (env_put env r s) = r"
    and send_drops: "\<exists>gone. env_get env (snd (env_send env h b s)) = fold OnDisconnect gone (env_get env s)"
begin

lemma send_inv: "rt_inv (env_get env s) \<Longrightarrow> rt_inv (env_get env (snd (env_send env h b s)))"
  using send_drops [of h b s] OnDisconnect_all_inv by metis

lemma send_shrink: "rt_inv (env_get env s) \<Longrightarrow> others_shrink H (env_get env s) (env_get env (snd (env_send env h b s)))"
  using send_drops [of h b s] OnDisconnect_all_shrink by metis

lemma reply_inv: "rt_inv (env_get env s) \<Longrightarrow> rt_inv (env_get env (reply env now h rid p s))"
  by (simp add: reply_def Let_def get_put send_inv)

lemma reply_shrink:
  "rt_inv (env_get env s) \<Longrightarrow> others_shrink H (env_get env s) (env_get env (reply env now h rid p s))"
proof -
  assume inv: "rt_inv (env_get env s)"
  let ?r = "(env_get env s)\<lparr>rt_sequence := rt_sequence (env_get env s) + 1\<rparr>"
  have "others_shrink H (env_get env (env_put env ?r s)) (env_get env (reply env now h rid p s))"
    unfolding reply_def Let_def by (rule send_shrink) (simp add: get_put inv)
  then show ?thesis by (simp add: get_put)
qed

lemma fan_out_inv: "rt_inv (env_get env s) \<Longrightarrow> rt_inv (env_get env (fan_out env hs b s))"
  unfolding fan_out_def by (induction hs arbitrary: s) (simp_all add: send_inv)

lemma fan_out_shrink:
  "rt_inv (env_get env s) \<Longrightarrow> others_shrink H (env_get env s) (env_get env (fan_out env hs b s))"
  unfolding fan_out_def
proof (induction hs arbitrary: s)
  case (Cons h hs)
  from others_shrink_trans [OF send_shrink [OF Cons.prems, of H h "Some b"]] Cons show ?case
    by (simp add: send_inv)
qed simp

lemmas step_rules = reply_inv reply_shrink fan_out_inv fan_out_shrink

text \<open>Replies after a change of the router's own state.\<close>

lemma put_reply:
  assumes "rt_inv r'" and "others_shrink H (env_get env s) r'"
  shows "rt_inv (env_get env (reply env now h rid p (env_put env r' s)))"
    and "others_shrink H (env_get env s) (env_get env (reply env now h rid p (env_put env r' s)))"
  using reply_inv [of "env_put env r' s"] reply_shrink [of "env_put env r' s" H] assms
  by (auto simp: get_put intro: others_shrink_trans)

text \<open>Handling any message keeps the invariant, and to other sessions nothing happens except that they
  may be disconnected.\<close>

lemma Handle_ok:
  assumes inv: "rt_inv (env_get env s)" and "Handle env now h payload s = (disp, s')"
  shows "rt_inv (env_get env s') \<and> others_shrink {h} (env_get env s) (env_get env s')"
proof -
  let ?ok = "\<lambda>x. rt_inv (env_get env (snd x)) \<and> others_shrink {h} (env_get env s) (env_get env (snd x))"
  have err: "?ok (d, send_error env now h rid code txt1 s)" for d :: MessageDisposition and rid code txt1
    by (simp add: send_error_def reply_inv reply_shrink inv)
  have rep: "?ok (d, reply env now h rid p s)" for d :: MessageDisposition and rid p
    by (simp add: reply_inv reply_shrink inv)
  have put: "?ok (d, reply env now h rid p
      (env_put env ((env_get env s)\<lparr>rt_principals := (rt_principals (env_get env s))(h \<mapsto> who)\<rparr>) s))"
    for d :: MessageDisposition and rid p who
    using put_reply [OF authenticate_inv [OF inv, of h who], of "{h}" s now h rid p]
    by (simp add: others_shrink_def)
  have auth: "?ok (handle_authenticate env now h rid a s)" for rid a
    using err rep put by (auto simp: handle_authenticate_def Let_def split: option.split)
  have join: "?ok (handle_join env now h rid a s)" for rid a
    using err put_reply [OF join_inv [OF inv]]
    by (auto simp: handle_join_def send_ack_def Let_def split: option.split prod.split)
  have leave: "?ok (handle_leave env now h rid a s)" for rid a
    using err put_reply [OF leave_inv [OF inv]]
    by (auto simp: handle_leave_def send_ack_def Let_def split: option.split prod.split)
  have pub: "?ok (handle_publish env now h rid pl a s)" for rid pl a
    using err by (auto simp: handle_publish_def Let_def fan_out_inv fan_out_shrink inv)
  have "?ok (Handle env now h payload s)"
    using err rep auth join leave pub inv
    by (auto simp: Handle_def Let_def split: option.split Payload.split)
  then show ?thesis using assms(2) by simp
qed

end

text \<open>The shape of every step of \<open>Handle\<close>: nothing, a reply, a change of the sender's own entry
  followed by a reply, or the distribution of a published message.\<close>

definition outcome :: "'s router_env \<Rightarrow> u64 \<Rightarrow> SessionHandle \<Rightarrow> 's \<Rightarrow> 's \<Rightarrow> bool" where
  "outcome env now h s t \<longleftrightarrow> t = s \<or> (\<exists>rid p. t = reply env now h rid p s) \<or> (\<exists>hs b. t = fan_out env hs b s) \<or>
    (\<exists>rid p r. t = reply env now h rid p (env_put env r s) \<and>
       (rt_principals r = rt_principals (env_get env s) \<or> (\<exists>who. rt_principals r = (rt_principals (env_get env s))(h \<mapsto> who))))"

lemma Handle_outcome: "outcome env now h s (snd (Handle env now h payload s))"
proof -
  have nop: "outcome env now h s s" by (simp add: outcome_def)
  have rep: "outcome env now h s (reply env now h rid p s)" for rid p unfolding outcome_def by blast
  have err: "outcome env now h s (send_error env now h rid code txt1 s)" for rid code txt1 unfolding send_error_def by (rule rep)
  have fan: "outcome env now h s (fan_out env hs b s)" for hs b unfolding outcome_def by blast
  have put: "outcome env now h s (reply env now h rid p (env_put env r s))"
    if "rt_principals r = rt_principals (env_get env s) \<or> (\<exists>who. rt_principals r = (rt_principals (env_get env s))(h \<mapsto> who))"
    for rid p r using that unfolding outcome_def by blast
  have auth: "outcome env now h s (snd (handle_authenticate env now h rid a s))" for rid a
    by (cases a) (auto simp: handle_authenticate_def Let_def split: option.split intro!: err rep put)
  have join: "outcome env now h s (snd (handle_join env now h rid a s))" for rid a
    by (auto simp: handle_join_def send_ack_def Let_def split: option.split prod.split intro!: err put)
  have leave: "outcome env now h s (snd (handle_leave env now h rid a s))" for rid a
    by (auto simp: handle_leave_def send_ack_def Let_def split: option.split prod.split intro!: err put)
  have pub: "outcome env now h s (snd (handle_publish env now h rid pl a s))" for rid pl a
    by (auto simp: handle_publish_def Let_def intro!: err fan)
  show ?thesis unfolding Handle_def Let_def
    by (auto split: option.split Payload.split intro!: nop err rep auth join leave pub)
qed

text \<open>What the two ways to change the server keep, \<open>Handle\<close> keeps.\<close>

lemma Handle_preserves:
  assumes put: "\<And>r s. P s \<Longrightarrow> P (env_put env r s)" and send: "\<And>h b s. P s \<Longrightarrow> P (snd (env_send env h b s))" and "P s"
  shows "P (snd (Handle env now h payload s))"
proof -
  have rep: "P (reply env now h rid p s)" if "P s" for rid p s
    using that by (simp add: reply_def Let_def put send)
  have "P (fan_out env hs b s)" if "P s" for hs b s
    using that unfolding fan_out_def by (induction hs arbitrary: s) (simp_all add: send)
  with rep assms(3) put show ?thesis using Handle_outcome [of env now h s payload] by (auto simp: outcome_def)
qed

subsection \<open>What a message makes the router send\<close>

text \<open>A port that records what the router passes to \<open>Send\<close>, to state what is sent to whom.\<close>

type_synonym recorded = "Router \<times> (SessionHandle \<times> SharedBuffer) list"

definition recorder :: "(byte list \<Rightarrow> NetworkMessage option) \<Rightarrow> (NetworkMessage \<Rightarrow> byte list)
    \<Rightarrow> (string \<Rightarrow> string option) option \<Rightarrow> (string \<Rightarrow> string \<Rightarrow> bool \<Rightarrow> bool) option \<Rightarrow> recorded router_env" where
  "recorder parse build au ra =
    \<lparr>env_parse = parse, env_build = build, env_authenticator = au, env_room_authorizer = ra,
     env_get = fst, env_put = (\<lambda>r (_, log). (r, log)),
     env_send = (\<lambda>h b (r, log). (True, (r, log @ [(h, b)])))\<rparr>"

interpretation recp: server_port "recorder parse build au ra" for parse build au ra
proof
  fix r :: Router and s :: recorded and h b
  show "env_get (recorder parse build au ra) (env_put (recorder parse build au ra) r s) = r"
    by (cases s) (simp add: recorder_def)
  have "env_get (recorder parse build au ra) (snd (env_send (recorder parse build au ra) h b s)) =
      fold OnDisconnect [] (env_get (recorder parse build au ra) s)"
    by (cases s) (simp add: recorder_def)
  then show "\<exists>gone. env_get (recorder parse build au ra) (snd (env_send (recorder parse build au ra) h b s)) =
      fold OnDisconnect gone (env_get (recorder parse build au ra) s)" ..
qed

lemma reply_recorder:
  "\<exists>b. reply (recorder parse build au ra) now h rid p (r, log) =
     (r\<lparr>rt_sequence := rt_sequence r + 1\<rparr>, log @ [(h, b)])"
  by (simp add: reply_def recorder_def Let_def)

lemma fan_out_recorder:
  "fan_out (recorder parse build au ra) hs b (r, log) = (r, log @ map (\<lambda>h. (h, Some b)) hs)"
  by (induction hs arbitrary: log) (simp_all add: fan_out_def recorder_def)

lemma recorder_fields [simp]:
  "env_parse (recorder parse build au ra) = parse" "env_get (recorder parse build au ra) (r, log) = r"
  "env_put (recorder parse build au ra) r' (r, log) = (r', log)"
  "env_room_authorizer (recorder parse build au ra) = ra" "env_authenticator (recorder parse build au ra) = au"
  by (simp_all add: recorder_def)

text \<open>What a step may do: only the publication of the sender's own bytes reaches other sessions, and only
  members of a room it is itself a member of; the state of other sessions does not change.\<close>

definition step_local :: "SessionHandle \<Rightarrow> byte list \<Rightarrow> recorded \<Rightarrow> recorded \<Rightarrow> bool" where
  "step_local h payload x y \<longleftrightarrow>
     (\<exists>sent. snd y = snd x @ sent \<and>
        (\<forall>(h', b) \<in> set sent. h' = h \<or> b = Some payload \<and>
           (\<exists>room. (h, room) \<in> subs (rt_rooms (fst x)) \<and> (h', room) \<in> subs (rt_rooms (fst x))))) \<and>
     (\<forall>h'. h' \<noteq> h \<longrightarrow> rt_principals (fst y) h' = rt_principals (fst x) h') \<and>
     (\<forall>h' room. h' \<noteq> h \<longrightarrow> ((h', room) \<in> subs (rt_rooms (fst y)) \<longleftrightarrow> (h', room) \<in> subs (rt_rooms (fst x))))"

lemma step_local_reply:
  "rt_principals r' = rt_principals r \<or> (\<exists>p. rt_principals r' = (rt_principals r)(h \<mapsto> p)) \<Longrightarrow>
   (\<And>h' room. h' \<noteq> h \<Longrightarrow> (h', room) \<in> subs (rt_rooms r') \<longleftrightarrow> (h', room) \<in> subs (rt_rooms r)) \<Longrightarrow>
     step_local h payload (r, log) (reply (recorder parse build au ra) now h rid p (r', log))"
  using reply_recorder [of parse build au ra now h rid p r' log] by (auto simp: step_local_def)

lemma Handle_local:
  assumes inv: "rt_inv r" and "Handle (recorder parse build au ra) now h payload (r, log) = (disp, y)"
  shows "step_local h payload (r, log) y"
proof -
  let ?env = "recorder parse build au ra"
  let ?ok = "\<lambda>x. step_local h payload (r, log) (snd x)"
  have rr: "rr_inv (rt_rooms r)" using inv by (simp add: rt_inv_def)
  have refl: "?ok (d, (r, log))" for d :: MessageDisposition by (simp add: step_local_def)
  have rep: "?ok (d, reply ?env now h rid p (r, log))" for d :: MessageDisposition and rid p
    by (simp add: step_local_reply)
  have err: "?ok (d, send_error ?env now h rid code msg (r, log))" for d :: MessageDisposition and rid code msg
    by (simp add: send_error_def step_local_reply)
  have put: "?ok (d, reply ?env now h rid p (r\<lparr>rt_principals := (rt_principals r)(h \<mapsto> who)\<rparr>, log))"
    for d :: MessageDisposition and rid p who
    by (auto intro!: step_local_reply)
  have auth: "?ok (handle_authenticate ?env now h rid a (r, log))" for rid a
    using err rep put by (auto simp: handle_authenticate_def Let_def split: option.split)
  have jsubs: "(h', x) \<in> subs g \<longleftrightarrow> (h', x) \<in> subs (rt_rooms r)"
    if "rr_Join au' h room (rt_rooms r) = (res, g)" and "h' \<noteq> h" for au' room res g h' x
    using rr.join_rel [OF rr, of au' h room] that by (auto split: if_splits)
  have lsubs: "(h', x) \<in> subs g \<longleftrightarrow> (h', x) \<in> subs (rt_rooms r)"
    if "rr_Leave h room (rt_rooms r) = (res, g)" and "h' \<noteq> h" for room res g h' x
    using rr.leave_rel [OF rr, of h room] that by auto
  have join: "?ok (handle_join ?env now h rid a (r, log))" for rid a
    using err jsubs
    by (auto simp: handle_join_def send_ack_def Let_def split: option.split prod.split intro!: step_local_reply)
  have leave: "?ok (handle_leave ?env now h rid a (r, log))" for rid a
    using err lsubs
    by (auto simp: handle_leave_def send_ack_def Let_def split: option.split prod.split intro!: step_local_reply)
  have pub: "?ok (handle_publish ?env now h rid payload a (r, log))" for rid a
    using err rr.snapshot_rel [OF rr] rr_AuthorizePublish_spec
    by (auto simp: handle_publish_def Let_def fan_out_recorder step_local_def)
  have "?ok (Handle ?env now h payload (r, log))"
    using err rep auth join leave pub refl
    by (auto simp: Handle_def Let_def split: option.split Payload.split)
  then show ?thesis using assms(2) by simp
qed

subsection \<open>Runs\<close>

datatype router_event = Received SessionHandle "byte list" u64 | Disconnected SessionHandle

fun router_step :: "recorded router_env \<Rightarrow> recorded \<Rightarrow> router_event \<Rightarrow> recorded" where
  "router_step env x (Received h payload now) = snd (Handle env now h payload x)"
| "router_step env x (Disconnected h) = (OnDisconnect h (fst x), snd x)"

lemma router_step_inv:
  assumes "rt_inv (fst x)"
  shows "rt_inv (fst (router_step (recorder parse build au ra) x e))"
proof (cases e)
  case (Received h payload now)
  obtain d y where y: "Handle (recorder parse build au ra) now h payload x = (d, y)"
    by (cases "Handle (recorder parse build au ra) now h payload x")
  have "env_get (recorder parse build au ra) z = fst z" for z by (simp add: recorder_def)
  with recp.Handle_ok [OF _ y] assms y Received show ?thesis by simp
qed (simp add: OnDisconnect_inv assms)

lemma router_run_inv: "rt_inv (fst x) \<Longrightarrow> rt_inv (fst (foldl (router_step (recorder parse build au ra)) x es))"
  by (induction es arbitrary: x) (simp_all add: router_step_inv)

subsection \<open>Properties\<close>




text \<open>C30. Publishing: a well-formed \<open>Publish\<close> of a session that is authenticated, authorized for the
  room and a member of it is passed to \<open>Send\<close> once for every member of the room, the sender
  included, with the received bytes unchanged, and to nobody else; nothing else is sent and the
  router's state does not change.\<close>

theorem Handle_publish_delivers:
  assumes "rt_inv r" and "parse payload = Some m" and "nm_protocol_version m = 1"
    and "nm_payload m = PayloadPublish (Some p)" and "ValidateDomain (Some p)" and "pb_room p = Some room"
    and "IsValidRoom room" and "AuthorizeRoom ra r h room True" and "(h, room) \<in> subs (rt_rooms r)"
  shows "\<exists>hs. Handle (recorder parse build au ra) now h payload (r, log) =
      (AcceptedMessage, (r, log @ map (\<lambda>h'. (h', Some payload)) hs)) \<and>
    distinct hs \<and> set hs = {h'. (h', room) \<in> subs (rt_rooms r)}"
proof -
  have rr: "rr_inv (rt_rooms r)" using assms(1) by (simp add: rt_inv_def)
  have "IsAuthenticated h r"
    using assms(8) by (auto simp: AuthorizeRoom_def IsAuthenticated_def split: option.splits)
  moreover have "rr_AuthorizePublish (Some (AuthorizeRoom ra r)) h room (rt_rooms r) = Ok"
    using assms by (simp add: rr_AuthorizePublish_spec rr_authorized_def)
  ultimately show ?thesis
    using assms rr_Snapshot_spec [OF rr, of room]
    by (intro exI [of _ "rr_Snapshot room (rt_rooms r)"])
      (simp add: Handle_def handle_publish_def fan_out_recorder ProtocolVersion_def Let_def)
qed

theorem Handle_publish_delivers_witness:
  "let h = \<lparr>sh_id = 7, sh_generation = 1\<rparr>;
       p = \<lparr>pb_room = Some ''court:7'', pb_message = DomainSystemAlert (Some
             \<lparr>sa_code = 1, sa_severity = 0, sa_message = Some ''rain''\<rparr>)\<rparr>;
       m = \<lparr>nm_protocol_version = 1, nm_request_id = 5, nm_sequence_id = 0, nm_sent_at_ms = 0,
            nm_payload = PayloadPublish (Some p)\<rparr>;
       r = \<lparr>rt_rooms = snd (rr_Join None h ''court:7'' rr_new), rt_principals = [h \<mapsto> ''u''], rt_sequence = 1\<rparr>
   in \<exists>hs. Handle (recorder (\<lambda>b. Some m) (\<lambda>m. []) None None) 0 h [9] (r, []) =
        (AcceptedMessage, (r, [] @ map (\<lambda>h'. (h', Some [9])) hs)) \<and> distinct hs \<and>
      set hs = {h'. (h', ''court:7'') \<in> subs (rt_rooms r)}"
proof -
  let ?h = "\<lparr>sh_id = 7, sh_generation = 1\<rparr>" and ?room = "''court:7''"
  let ?p = "\<lparr>pb_room = Some ''court:7'', pb_message = DomainSystemAlert (Some
      \<lparr>sa_code = 1, sa_severity = 0, sa_message = Some ''rain''\<rparr>)\<rparr>"
  let ?m = "\<lparr>nm_protocol_version = 1, nm_request_id = 5, nm_sequence_id = 0, nm_sent_at_ms = 0,
      nm_payload = PayloadPublish (Some ?p)\<rparr>"
  let ?r = "\<lparr>rt_rooms = snd (rr_Join None ?h ?room rr_new), rt_principals = [?h \<mapsto> ''u''], rt_sequence = 1\<rparr>"
  have ok: "fst (rr_Join None ?h ?room rr_new) = Ok" and room: "IsValidRoom ?room"
    by (simp_all add: rr_Join_def rr_new_def IsValidRoom_def room_prefixes_def room_char_def rr_authorized_def Let_def)
  have subs: "subs (rt_rooms ?r) = {(?h, ?room)}"
    using rr.join_rel [OF rr_new_inv, of None ?h ?room] ok by (simp add: rr_new_subs)
  then have "rt_inv ?r" using rr.join_inv [OF rr_new_inv, of None ?h ?room] by (simp add: rt_inv_def)
  moreover have "AuthorizeRoom None ?r ?h ?room True"
    by (simp add: AuthorizeRoom_def Principal_def BookingPrefix_def)
  ultimately show ?thesis
    unfolding Let_def
    by (intro Handle_publish_delivers [where p = ?p and m = ?m])
      (use subs room in \<open>simp_all add: ValidateDomain_def ValidString_def MaxIdentifierLength_def ValidateAlert_def MaxTextLength_def\<close>)
qed

text \<open>C31. A session that has not authenticated can do nothing but receive answers: unless the message is
  an \<open>Authenticate\<close>, the rooms and the principals stay as they are, and everything that is sent
  goes to that session.\<close>

theorem Handle_unauthenticated:
  assumes "rt_inv r" and "Principal h r = None"
    and "\<forall>m a. parse payload = Some m \<longrightarrow> nm_payload m \<noteq> PayloadAuthenticate a"
  shows "\<exists>n sent. snd (Handle (recorder parse build au ra) now h payload (r, log)) =
      (r\<lparr>rt_sequence := n\<rparr>, log @ sent) \<and> list_all (\<lambda>(h', b). h' = h) sent"
proof -
  let ?env = "recorder parse build au ra"
  let ?ok = "\<lambda>x. \<exists>n sent. snd x = (r\<lparr>rt_sequence := n\<rparr>, log @ sent) \<and> list_all (\<lambda>(h', b). h' = h) sent"
  have refl: "?ok (d, (r, log))" for d :: MessageDisposition
    by (rule exI [of _ "rt_sequence r"], rule exI [of _ "[]"]) simp
  have rep: "?ok (d, reply ?env now h rid p (r, log))" for d :: MessageDisposition and rid p
    using reply_recorder [of parse build au ra now h rid p r log] by fastforce
  have none: "(h, room) \<notin> subs (rt_rooms r)" for room
    using assms(1,2) by (auto simp: rt_inv_def Principal_def)
  have leave: "rr_Leave h room (rt_rooms r) = (NotSubscribed, rt_rooms r)" for room
    using none [of room] by (auto simp: rr_Leave_def subs_def members_def split: option.splits)
  have same: "r\<lparr>rt_rooms := rt_rooms r\<rparr> = r" by simp
  show ?thesis
    using assms(2,3) refl rep
    by (auto simp: Handle_def handle_join_def handle_leave_def handle_publish_def send_error_def send_ack_def
        IsAuthenticated_def leave same Let_def split: option.split Payload.split)
qed

theorem Handle_unauthenticated_witness:
  "let h = \<lparr>sh_id = 7, sh_generation = 1\<rparr>;
       m = \<lparr>nm_protocol_version = 1, nm_request_id = 5, nm_sequence_id = 0, nm_sent_at_ms = 0,
            nm_payload = PayloadJoinRoom (Some (Some ''court:7''))\<rparr>
   in \<exists>n sent. snd (Handle (recorder (\<lambda>b. Some m) (\<lambda>m. []) None None) 0 h [9] (rt_new, [])) =
        (rt_new\<lparr>rt_sequence := n\<rparr>, [] @ sent) \<and> list_all (\<lambda>(h', b). h' = h) sent"
  unfolding Let_def by (rule Handle_unauthenticated [OF rt_inv_new]) (simp_all add: Principal_def rt_new_def)

text \<open>Nothing of a session survives its disconnection: after \<open>OnDisconnect\<close> the session has no
  identity, is in no room and may not publish, and every other session keeps its identity and its
  rooms.\<close>

lemma OnDisconnect_complete:
  assumes "rt_inv r"
  shows "rt_inv (OnDisconnect h r) \<and> \<not> IsAuthenticated h (OnDisconnect h r) \<and>
    subs (rt_rooms (OnDisconnect h r)) = subs (rt_rooms r) - {h} \<times> UNIV \<and>
    (\<forall>h'. h' \<noteq> h \<longrightarrow> Principal h' (OnDisconnect h r) = Principal h' r)"
proof -
  have rr: "rr_inv (rt_rooms r)" using assms by (simp add: rt_inv_def)
  show ?thesis
    using OnDisconnect_inv [OF assms] rr.remove_rel [OF rr, of h]
    by (simp add: OnDisconnect_def IsAuthenticated_def Principal_def)
qed

end
