(* ===== verification/Main_Options.thy ===== *)
theory Main_Options
  imports Server_Config
begin

text \<open>
  \<open>src/main.cpp\<close>: the command line, the constant-time comparison of the authentication
  token, and the authenticator and origin check built from the options.
\<close>

subsection \<open>Numbers\<close>

definition is_space :: "char \<Rightarrow> bool" where
  "is_space c \<longleftrightarrow> c \<in> set [CHR '' '', CHR 0x09, CHR 0x0A, CHR 0x0B, CHR 0x0C, CHR 0x0D]"

definition is_decimal :: "char \<Rightarrow> bool" where
  "is_decimal c \<longleftrightarrow> of_char c \<ge> (48 :: nat) \<and> of_char c \<le> (57 :: nat)"

definition decimal_value :: "string \<Rightarrow> nat" where
  "decimal_value ds = foldl (\<lambda>n c. n * 10 + (of_char c - 48)) 0 ds"

text \<open>\<open>std::stoull(value, &consumed)\<close>: leading white space, an optional sign, decimal digits; a
  minus sign negates modulo \<open>2 ^ 64\<close>.\<close>

definition stoull :: "string \<Rightarrow> cpp_exception + (u64 \<times> nat)" where
  "stoull s =
    (let blanks = takeWhile is_space s;
         s1 = drop (length blanks) s;
         negative = (case s1 of c # _ \<Rightarrow> c = CHR ''-'' | [] \<Rightarrow> False);
         signed = (case s1 of c # _ \<Rightarrow> c = CHR ''-'' \<or> c = CHR ''+'' | [] \<Rightarrow> False);
         s2 = (if signed then tl s1 else s1);
         ds = takeWhile is_decimal s2;
         n = decimal_value ds
     in if ds = [] then Inl (InvalidArgument ''stoull'')
        else if n \<ge> 2 ^ 64 then Inl (OutOfRange ''stoull'')
        else Inr (if negative then - of_nat n else of_nat n,
                  length blanks + (if signed then 1 else 0) + length ds))"

definition ParseSize :: "string \<Rightarrow> string \<Rightarrow> cpp_exception + size_t" where
  "ParseSize v option =
    (case stoull v of
       Inl e \<Rightarrow> Inl e
     | Inr (parsed, consumed) \<Rightarrow>
         if consumed \<noteq> length v then Inl (InvalidArgument (''invalid '' @ option)) else Inr parsed)"

subsection \<open>Tokens\<close>

definition char_at :: "string \<Rightarrow> nat \<Rightarrow> byte" where
  "char_at s index = (if index < length s then word_of_nat (of_char (s ! index)) else 0)"

definition ConstantTimeEqual :: "string \<Rightarrow> string \<Rightarrow> bool" where
  "ConstantTimeEqual first second =
    (let difference = (of_nat (length first) XOR of_nat (length second) :: size_t);
         len = max (length first) (length second)
     in fold (\<lambda>index difference. difference OR ucast (char_at first index XOR char_at second index))
          [0..<len] difference = 0)"

subsection \<open>The command line\<close>

record options =
  opt_config :: ServerConfig
  opt_auth_token :: string
  opt_allowed_origin :: string
  opt_metrics_interval :: int

definition initial_options :: "string option \<Rightarrow> string option \<Rightarrow> options" where
  "initial_options env_token env_origin =
    \<lparr>opt_config = default_config,
     opt_auth_token = (case env_token of None \<Rightarrow> ''development-only-change-me'' | Some t \<Rightarrow> t),
     opt_allowed_origin = (case env_origin of None \<Rightarrow> [] | Some t \<Rightarrow> t),
     opt_metrics_interval = 5000\<rparr>"

text \<open>The options that set one size field of the configuration.\<close>

definition size_field :: "string \<Rightarrow> (size_t \<Rightarrow> ServerConfig \<Rightarrow> ServerConfig) option" where
  "size_field option =
    (if option = ''--workers'' then Some (\<lambda>n c. c\<lparr>cfg_worker_count := n\<rparr>)
     else if option = ''--max-connections'' then Some (\<lambda>n c. c\<lparr>cfg_max_connections := n\<rparr>)
     else if option = ''--max-message-bytes'' then Some (\<lambda>n c. c\<lparr>cfg_max_message_bytes := n\<rparr>)
     else if option = ''--session-queue-bytes'' then Some (\<lambda>n c. c\<lparr>cfg_max_session_queued_bytes := n\<rparr>)
     else if option = ''--global-queue-bytes'' then Some (\<lambda>n c. c\<lparr>cfg_max_global_queued_bytes := n\<rparr>)
     else None)"

definition takes_value :: "string \<Rightarrow> bool" where
  "takes_value option \<longleftrightarrow> option = ''--port'' \<or> size_field option \<noteq> None \<or> option = ''--auth-token'' \<or>
     option = ''--allowed-origin'' \<or> option = ''--metrics-interval-ms''"

definition apply_option :: "string \<Rightarrow> string \<Rightarrow> options \<Rightarrow> cpp_exception + options" where
  "apply_option option v o1 =
    (if option = ''--port'' then
       (case ParseSize v ''--port'' of
          Inl e \<Rightarrow> Inl e
        | Inr port \<Rightarrow>
            if port = 0 \<or> port > 65535 then Inl (InvalidArgument ''port must be between 1 and 65535'')
            else Inr (o1\<lparr>opt_config := (opt_config o1)\<lparr>cfg_port := ucast port\<rparr>\<rparr>))
     else (case size_field option of
       Some upd \<Rightarrow>
         (case ParseSize v option of
            Inl e \<Rightarrow> Inl e
          | Inr n \<Rightarrow> Inr (o1\<lparr>opt_config := upd n (opt_config o1)\<rparr>))
     | None \<Rightarrow>
         if option = ''--auth-token'' then Inr (o1\<lparr>opt_auth_token := v\<rparr>)
         else if option = ''--allowed-origin'' then Inr (o1\<lparr>opt_allowed_origin := v\<rparr>)
         else (case ParseSize v ''--metrics-interval-ms'' of
                 Inl e \<Rightarrow> Inl e
               | Inr n \<Rightarrow> Inr (o1\<lparr>opt_metrics_interval := sint n\<rparr>))))"

fun parse_args :: "string list \<Rightarrow> options \<Rightarrow> cpp_exception + options" where
  "parse_args [] o1 = Inr o1"
| "parse_args (option # rest) o1 =
    (if takes_value option then
       (case rest of
          [] \<Rightarrow> Inl (InvalidArgument (''missing value for '' @ option))
        | v # rest' \<Rightarrow>
            (case apply_option option v o1 of Inl e \<Rightarrow> Inl e | Inr o2 \<Rightarrow> parse_args rest' o2))
     else if option = ''--thread-affinity''
       then parse_args rest (o1\<lparr>opt_config := (opt_config o1)\<lparr>cfg_enable_thread_affinity := True\<rparr>\<rparr>)
     else Inl (InvalidArgument (''unknown option: '' @ option)))"

text \<open>The configuration the server is created with and the router's authenticator.\<close>

definition server_config :: "options \<Rightarrow> ServerConfig" where
  "server_config o1 =
    (if opt_allowed_origin o1 \<noteq> []
     then (opt_config o1)\<lparr>cfg_origin_validator := Some (\<lambda>origin. origin = opt_allowed_origin o1)\<rparr>
     else opt_config o1)"

definition authenticator :: "options \<Rightarrow> string \<Rightarrow> string option" where
  "authenticator o1 token =
    (if \<not> ConstantTimeEqual token (opt_auth_token o1) then None else Some ''service-user'')"

subsection \<open>Lemmas\<close>

lemma word_or_eq_0: "(a OR b :: 'a::len word) = 0 \<longleftrightarrow> a = 0 \<and> b = 0"
  by (auto simp: bit_eq_iff bit_simps)

lemma word_xor_eq_0: "(a XOR b :: 'a::len word) = 0 \<longleftrightarrow> a = b"
  by (auto simp: bit_eq_iff bit_simps)

lemma fold_or_eq_0:
  "fold (\<lambda>i d. d OR f i) xs d = 0 \<longleftrightarrow> d = (0 :: 'a::len word) \<and> (\<forall>i\<in>set xs. f i = 0)"
  by (induction xs arbitrary: d) (auto simp: word_or_eq_0)

lemma ucast_byte_eq_0: "(ucast (b :: byte) :: size_t) = 0 \<longleftrightarrow> b = 0"
  by (simp add: word_unat_eq_iff unat_ucast_up)

lemma of_char_byte_inj: "(word_of_nat (of_char c) :: byte) = word_of_nat (of_char d) \<longleftrightarrow> c = d"
  by (simp add: word_unat_eq_iff unat_of_nat)

lemma ConstantTimeEqual_eq:
  assumes "length first < 2 ^ 64" and "length second < 2 ^ 64"
  shows "ConstantTimeEqual first second \<longleftrightarrow> first = second"
proof -
  have len: "(of_nat (length first) :: size_t) = of_nat (length second) \<longleftrightarrow> length first = length second"
    using assms by (simp add: word_unat_eq_iff unat_of_nat)
  have "ConstantTimeEqual first second \<longleftrightarrow> length first = length second \<and>
      (\<forall>i < max (length first) (length second). char_at first i = char_at second i)"
    by (auto simp: ConstantTimeEqual_def Let_def fold_or_eq_0 len ucast_byte_eq_0 word_xor_eq_0)
  also have "\<dots> \<longleftrightarrow> first = second"
    by (auto simp: char_at_def of_char_byte_inj list_eq_iff_nth_eq)
  finally show ?thesis .
qed

lemma stoull_digits:
  assumes "ds \<noteq> []" and "list_all is_decimal ds"
  shows "stoull ds = (if decimal_value ds < 2 ^ 64 then Inr (of_nat (decimal_value ds), length ds)
    else Inl (OutOfRange ''stoull''))"
proof -
  obtain c cs where ds: "ds = c # cs" using assms(1) by (cases ds) auto
  then have c: "is_decimal c" using assms(2) by simp
  then have "\<not> is_space c" "c \<noteq> CHR ''-''" "c \<noteq> CHR ''+''"
    by (auto simp: is_decimal_def is_space_def)
  moreover have "takeWhile is_decimal ds = ds"
    using assms(2) by (simp add: list_all_iff)
  ultimately show ?thesis
    using ds by (auto simp: stoull_def Let_def)
qed

text \<open>What the command line can set: the port stays valid and the limits without an option keep their
  values.\<close>

definition fixed_part :: "ServerConfig \<Rightarrow> ServerConfig \<Rightarrow> bool" where
  "fixed_part c d \<longleftrightarrow>
     cfg_accept_depth d = cfg_accept_depth c \<and> cfg_receive_buffer_bytes d = cfg_receive_buffer_bytes c \<and>
     cfg_max_session_inbound_bytes d = cfg_max_session_inbound_bytes c \<and>
     cfg_max_global_inbound_bytes d = cfg_max_global_inbound_bytes c \<and>
     cfg_max_handshake_bytes d = cfg_max_handshake_bytes c \<and>
     cfg_max_messages_per_second d = cfg_max_messages_per_second c \<and>
     cfg_malformed_message_limit d = cfg_malformed_message_limit c"

lemma port_in_range: "p \<noteq> 0 \<Longrightarrow> \<not> p > 65535 \<Longrightarrow> (ucast (p :: size_t) :: u16) \<noteq> 0"
proof -
  assume p: "p \<noteq> 0" "\<not> p > 65535"
  then have "unat p \<noteq> 0" "unat p \<le> 65535" by (simp_all add: word_less_nat_alt unat_eq_zero not_less)
  moreover have "unat (ucast p :: u16) = unat p mod 65536"
    by (simp add: unsigned_ucast_eq take_bit_eq_mod)
  ultimately show ?thesis by (metis mod_less le_imp_less_Suc Suc_eq_plus1 numeral_plus_one semiring_norm(5)
        add_One_commute unsigned_0 eval_nat_numeral(3) BitM_plus_one one_plus_BitM BitM.simps)
qed

lemma size_field_frame:
  "size_field opt = Some upd \<Longrightarrow> cfg_port (upd n c) = cfg_port c \<and> fixed_part c (upd n c)"
  by (auto simp: size_field_def fixed_part_def split: if_splits)

lemma apply_option_frame:
  "apply_option opt v o1 = Inr o2 \<Longrightarrow> cfg_port (opt_config o1) \<noteq> 0 \<Longrightarrow>
     cfg_port (opt_config o2) \<noteq> 0 \<and> fixed_part (opt_config o1) (opt_config o2)"
  using size_field_frame [of opt] port_in_range
  by (auto simp: apply_option_def fixed_part_def split: if_splits sum.splits option.splits)

lemma parse_args_frame:
  "parse_args args o1 = Inr o2 \<Longrightarrow> cfg_port (opt_config o1) \<noteq> 0 \<Longrightarrow>
     cfg_port (opt_config o2) \<noteq> 0 \<and> fixed_part (opt_config o1) (opt_config o2)"
proof (induction args o1 rule: parse_args.induct)
  case (2 opt rest o1)
  show ?case
  proof (cases "takes_value opt")
    case True
    with "2.prems" obtain v rest' o3 where a: "rest = v # rest'" "apply_option opt v o1 = Inr o3"
      "parse_args rest' o3 = Inr o2" by (auto split: list.splits sum.splits)
    with "2.IH"(1) [OF True a(1,2)] apply_option_frame [OF a(2) "2.prems"(2)] show ?thesis
      by (auto simp: fixed_part_def)
  next
    case False
    with 2 show ?thesis by (auto simp: fixed_part_def split: if_splits)
  qed
qed (simp add: fixed_part_def)

subsection \<open>Properties\<close>

text \<open>C40. The authenticator grants access exactly to the configured token: the constant-time
  comparison of \<open>main.cpp\<close>, which always looks at every position of the longer string, agrees
  with string equality, also for strings of different length or with zero bytes.\<close>

theorem authenticator_exact:
  assumes "length token < 2 ^ 64" and "length (opt_auth_token o1) < 2 ^ 64"
  shows "authenticator o1 token = (if token = opt_auth_token o1 then Some ''service-user'' else None)"
  using ConstantTimeEqual_eq [OF assms] by (simp add: authenticator_def)

theorem authenticator_exact_witness:
  "authenticator (initial_options None None) ''development-only-change-me'' = Some ''service-user''"
  using authenticator_exact [of "''development-only-change-me''" "initial_options None None"]
  by (simp add: initial_options_def)

text \<open>Parsing of size options: a string of decimal digits gives its value when that is below
  \<open>2 ^ 64\<close> and an out-of-range error otherwise, and a digit string followed by anything that is
  not a digit is refused.\<close>

lemma ParseSize_digits:
  assumes "ds \<noteq> []" and "list_all is_decimal ds" and "\<not> is_decimal c"
  shows "ParseSize ds opt =
      (if decimal_value ds < 2 ^ 64 then Inr (of_nat (decimal_value ds)) else Inl (OutOfRange ''stoull'')) \<and>
    (\<exists>e. ParseSize (ds @ c # rest) opt = Inl e)"
proof -
  obtain d ds' where ds: "ds = d # ds'" using assms(1) by (cases ds) auto
  then have "is_decimal d" using assms(2) by simp
  then have d: "\<not> is_space d" "d \<noteq> CHR ''-''" "d \<noteq> CHR ''+''"
    by (auto simp: is_decimal_def is_space_def)
  have "takeWhile is_decimal (ds @ c # rest) = ds"
    using assms(2,3) by (simp add: list_all_iff takeWhile_append)
  with ds d have "stoull (ds @ c # rest) =
      (if decimal_value ds < 2 ^ 64 then Inr (of_nat (decimal_value ds), length ds) else Inl (OutOfRange ''stoull''))"
    by (auto simp: stoull_def Let_def)
  then show ?thesis using stoull_digits [OF assms(1,2)] by (simp add: ParseSize_def)
qed

text \<open>The command line cannot disturb the server's fixed limits: whenever the arguments are
  accepted, the port is between 1 and 65535 and every limit without an option of its own (receive
  buffer, inbound limits, handshake limit, message rate, malformed-message limit) has its default
  value.\<close>

lemma parse_args_safe:
  assumes "parse_args args (initial_options env_token env_origin) = Inr o2"
  shows "0 < unat (cfg_port (server_config o2)) \<and> unat (cfg_port (server_config o2)) \<le> 65535 \<and>
    fixed_part default_config (server_config o2)"
proof -
  have "unat (cfg_port (opt_config o2)) < 2 ^ LENGTH(16)" by (rule unsigned_less)
  moreover have "cfg_port (opt_config o2) \<noteq> 0 \<and> fixed_part default_config (opt_config o2)"
    using parse_args_frame [OF assms] by (simp add: initial_options_def default_config_def)
  ultimately show ?thesis
    by (auto simp: server_config_def fixed_part_def unat_gt_0)
qed

end
