(* ===== verification/Server_Run.thy ===== *)
theory Server_Run
  imports Session_Reports Router Main_Options
begin

text \<open>
  The running program: \<open>main\<close> connects the server to the router (\<open>src/main.cpp\<close>), and from then
  on the server moves by steps, each a public call, a completion that a worker takes from the port,
  a pass of the timer, or the end of the wait in \<open>Stop\<close>. The theory interprets the contracts
  \<open>server_port\<close> and \<open>message_application\<close> on the real components, and lifts the server invariant
  to every reachable state.
\<close>

subsection \<open>Registration and queries\<close>

definition no_handlers :: "'app Handlers" where
  "no_handlers = \<lparr>on_message = None, on_connect = None, on_disconnect = None\<rparr>"

definition RegisterMessageHandler ::
    "(SessionHandle \<Rightarrow> byte list \<Rightarrow> 'app Server \<Rightarrow> MessageDisposition \<times> 'app Server) \<Rightarrow> 'app Handlers \<Rightarrow> 'app Handlers" where
  "RegisterMessageHandler f hs = hs\<lparr>on_message := Some f\<rparr>"

definition RegisterConnectHandler :: "(SessionHandle \<Rightarrow> 'app \<Rightarrow> 'app) \<Rightarrow> 'app Handlers \<Rightarrow> 'app Handlers" where
  "RegisterConnectHandler f hs = hs\<lparr>on_connect := Some f\<rparr>"

definition RegisterDisconnectHandler :: "(SessionHandle \<Rightarrow> 'app \<Rightarrow> 'app) \<Rightarrow> 'app Handlers \<Rightarrow> 'app Handlers" where
  "RegisterDisconnectHandler f hs = hs\<lparr>on_disconnect := Some f\<rparr>"

definition IsRunning :: "'app Server \<Rightarrow> bool" where
  "IsRunning s = srv_running s"

definition Metrics :: "'app Server \<Rightarrow> ServerMetrics" where
  "Metrics s = srv_metrics s"

subsection \<open>The application of main\<close>

text \<open>The router sends through the server and is reached from the server's callbacks. No room
  authorizer is configured. \<open>parse\<close> and \<open>build\<close> are the generated FlatBuffers code, \<open>unix\<close> the
  system clock.\<close>

definition server_env :: "(byte list \<Rightarrow> NetworkMessage option) \<Rightarrow> (NetworkMessage \<Rightarrow> byte list) \<Rightarrow> options
    \<Rightarrow> Router Server router_env" where
  "server_env parse build o1 =
    \<lparr>env_parse = parse, env_build = build, env_authenticator = Some (authenticator o1), env_room_authorizer = None,
     env_get = srv_app, env_put = (\<lambda>r s. s\<lparr>srv_app := r\<rparr>), env_send = ServerSend (Some OnDisconnect)\<rparr>"

definition main_handlers :: "(byte list \<Rightarrow> NetworkMessage option) \<Rightarrow> (NetworkMessage \<Rightarrow> byte list) \<Rightarrow> options
    \<Rightarrow> (nat \<Rightarrow> u64) \<Rightarrow> Router Handlers" where
  "main_handlers parse build o1 unix =
    RegisterDisconnectHandler OnDisconnect
      (RegisterMessageHandler
        (\<lambda>session payload s. Handle (server_env parse build o1) (unix (srv_ticks s)) session payload s) no_handlers)"

text \<open>The start of \<open>main\<close> once the command line is read: \<open>server.Initialize() && server.Start()\<close>.\<close>

definition main_start :: "'app session_handler \<Rightarrow> bool \<Rightarrow> nat \<Rightarrow> 'app Server \<Rightarrow> bool \<times> 'app Server" where
  "main_start od debug slot_size s =
    (case Initialize debug slot_size s of (False, s1) \<Rightarrow> (False, s1) | (True, s1) \<Rightarrow> Start od s1)"

subsection \<open>Steps\<close>

text \<open>Which completions the operating system can deliver: of an operation in flight, with no more bytes
  than the operation asked for. A running server accepts fewer than \<open>2 ^ 62\<close> connections in its life.\<close>

fun deliverable :: "completion \<Rightarrow> 'app Server \<Rightarrow> bool" where
  "deliverable (AcceptDone slot ok) s \<longleftrightarrow>
     (case srv_accept_pool s of
        None \<Rightarrow> False
      | Some pool \<Rightarrow> slot < pool_capacity pool \<and> is_storage (pool_slots pool ! slot)) \<and>
     (srv_running s \<longrightarrow> Suc (length (srv_store s)) < 2 ^ 62)"
| "deliverable (ReadDone a ok bytes) s \<longleftrightarrow>
     a < length (srv_reads s) \<and> srv_reads s ! a \<noteq> None \<and> length bytes \<le> unat (cfg_receive_buffer_bytes (srv_config s))"
| "deliverable (WriteDone a ok n) s \<longleftrightarrow>
     a < length (srv_writes s) \<and>
     (case srv_writes s ! a of None \<Rightarrow> False | Some w \<Rightarrow> n \<le> sc_Remaining (wo_cursor w))"

text \<open>\<open>Initialize\<close> and \<open>Start\<close> are not called while another thread is inside \<open>Stop\<close>.\<close>

inductive server_step :: "'app Handlers \<Rightarrow> bool \<Rightarrow> nat \<Rightarrow> 'app Server \<Rightarrow> 'app Server \<Rightarrow> bool"
  for hs debug slot_size where
  initialize: "\<not> StopWaiting s \<Longrightarrow> server_step hs debug slot_size s (snd (Initialize debug slot_size s))"
| start: "\<not> StopWaiting s \<Longrightarrow> server_step hs debug slot_size s (snd (Start (on_disconnect hs) s))"
| stop: "server_step hs debug slot_size s (Stop (on_disconnect hs) s)"
| stop_end: "StopWaiting s \<Longrightarrow> srv_outstanding s = 0 \<Longrightarrow> server_step hs debug slot_size s (StopEnd s)"
| send: "server_step hs debug slot_size s (snd (ServerSend (on_disconnect hs) h payload s))"
| close: "server_step hs debug slot_size s (ServerClose (on_disconnect hs) h code reason s)"
| completed: "deliverable c s \<Longrightarrow> server_step hs debug slot_size s (WorkerDispatch hs c s)"
| timer: "server_step hs debug slot_size s (TimerPass (on_disconnect hs) s)"

inductive reachable :: "'app Handlers \<Rightarrow> bool \<Rightarrow> nat \<Rightarrow> 'app Server \<Rightarrow> 'app Server \<Rightarrow> bool"
  for hs debug slot_size s0 where
  created: "reachable hs debug slot_size s0 s0"
| stepped: "reachable hs debug slot_size s0 s \<Longrightarrow> server_step hs debug slot_size s t \<Longrightarrow> reachable hs debug slot_size s0 t"

subsection \<open>Every step keeps the invariant\<close>

lemma deliverable_accept:
  assumes "deliverable (AcceptDone slot ok) s"
  obtains pool where "srv_accept_pool s = Some pool" and "slot \<in> live pool"
    and "srv_running s \<longrightarrow> Suc (length (srv_store s)) < 2 ^ 62"
  using assms by (auto simp: live_def split: option.splits)

context message_application
begin

lemma WorkerDispatch_ok:
  assumes "srv_inv None None s" and "deliverable c s"
  shows "srv_inv None None (WorkerDispatch hs c s)"
proof (cases c)
  case (AcceptDone slot ok)
  with assms(2) obtain pool where "srv_accept_pool s = Some pool" "slot \<in> live pool"
      "srv_running s \<longrightarrow> Suc (length (srv_store s)) < 2 ^ 62"
    using deliverable_accept [of slot ok s] by blast
  then show ?thesis using HandleAccept_inv [OF assms(1)] AcceptDone by simp
qed (use assms HandleRead_ok HandleWrite_inv in auto)

lemma server_step_ok:
  assumes "server_step hs debug slot_size s t" and "srv_inv None None s" and "4 \<le> slot_size" and "slot_size < 2 ^ 32"
  shows "srv_inv None None t"
  using assms
proof (induction rule: server_step.induct)
  case (stop_end s)
  then show ?case by (simp add: StopEnd_inv StopWaiting_def)
qed (simp_all add: Initialize_inv Start_inv Stop_inv ServerSend_inv ServerClose_inv WorkerDispatch_ok TimerPass_inv)

lemma reachable_ok:
  assumes "reachable hs debug slot_size s0 s" and "srv_inv None None s0" and "4 \<le> slot_size" and "slot_size < 2 ^ 32"
  shows "srv_inv None None s"
  using assms by (induction rule: reachable.induct) (auto intro: server_step_ok)

end

context session_application
begin

lemma server_step_holds:
  assumes "server_step hs debug slot_size s t" and "srv_inv None None s" and "holds s"
  shows "holds t"
  using assms
proof (induction rule: server_step.induct)
  case (completed c s)
  then show ?case
  proof (cases c)
    case (WriteDone a ok n)
    then show ?thesis using completed holds_reports [OF reports_HandleWrite [OF reports_refl]] by simp
  qed (simp_all add: HandleAccept_holds HandleRead_holds)
qed (erule holds_reports [rotated], intro reports_intros reports_refl)+

lemma reachable_holds:
  assumes "reachable hs debug slot_size s0 s" and "srv_inv None None s0" and "4 \<le> slot_size" and "slot_size < 2 ^ 32" and "holds s0"
  shows "holds s"
  using assms
proof (induction rule: reachable.induct)
  case (stepped s t)
  then show ?case using server_step_holds reachable_ok by blast
qed

end

subsection \<open>The program's own components satisfy the contracts\<close>

lemma server_env_fields [simp]:
  "env_get (server_env parse build o1) = srv_app" "env_put (server_env parse build o1) r s = s\<lparr>srv_app := r\<rparr>"
  "env_send (server_env parse build o1) = ServerSend (Some OnDisconnect)"
  by (simp_all add: server_env_def)

lemma main_handlers_fields [simp]:
  "on_disconnect (main_handlers parse build o1 unix) = Some OnDisconnect" "on_connect (main_handlers parse build o1 unix) = None"
  "on_message (main_handlers parse build o1 unix) =
     Some (\<lambda>session payload s. Handle (server_env parse build o1) (unix (srv_ticks s)) session payload s)"
  by (simp_all add: main_handlers_def RegisterDisconnectHandler_def RegisterMessageHandler_def no_handlers_def)

interpretation port: server_port "server_env parse build o1" for parse build o1
proof
  fix r :: Router and s :: "Router Server" and h b
  show "env_get (server_env parse build o1) (env_put (server_env parse build o1) r s) = r" by simp
  show "\<exists>gone. env_get (server_env parse build o1) (snd (env_send (server_env parse build o1) h b s)) =
      fold OnDisconnect gone (env_get (server_env parse build o1) s)"
    using reports_ServerSend [OF reports_refl, of "Some OnDisconnect" s h b] by (auto simp: reports_def report_def)
qed

lemma keeps_app [keeps_intros]: "keeps s t \<Longrightarrow> keeps s (t\<lparr>srv_app := r\<rparr>)"
  by (erule keeps_same) simp_all

text \<open>Every identity the router holds belongs to a session that is still connected, and the router's
  own invariant holds.\<close>

definition identities_live :: "Router Server \<Rightarrow> bool" where
  "identities_live s \<longleftrightarrow> rt_inv (srv_app s) \<and> dom (rt_principals (srv_app s)) \<subseteq> live_handles s"

lemma OnDisconnect_all_principals: "rt_principals (fold OnDisconnect gone r) = rt_principals r |` (- set gone)"
proof (induction gone arbitrary: r)
  case (Cons h gone)
  have "rt_principals (OnDisconnect h r) = rt_principals r |` (- {h})"
    by (auto simp: OnDisconnect_def restrict_map_def fun_eq_iff)
  with Cons show ?case by (auto simp: restrict_map_def fun_eq_iff)
qed (simp add: restrict_map_def)

lemma identities_live_reports:
  assumes "reports (Some OnDisconnect) s t" and "identities_live s"
  shows "identities_live t"
proof -
  from assms(1) obtain gone where app: "srv_app t = fold OnDisconnect gone (srv_app s)" and live: "live_handles s - set gone \<subseteq> live_handles t"
    by (auto simp: reports_def report_def)
  have "dom (rt_principals (srv_app t)) \<subseteq> dom (rt_principals (srv_app s)) - set gone"
    unfolding app OnDisconnect_all_principals by auto
  with live assms(2) show ?thesis
    by (auto simp: identities_live_def app OnDisconnect_all_inv)
qed

lemma Handle_identities:
  assumes "identities_live s" and "h \<in> live_handles s"
  shows "identities_live (snd (Handle (server_env parse build o1) now h payload s))"
proof -
  let ?env = "server_env parse build o1"
  have inv: "rt_inv (srv_app (snd (Handle ?env now h payload s)))"
    using port.Handle_ok [of parse build o1 s now h payload] assms(1) by (cases "Handle ?env now h payload s") (simp add: identities_live_def)
  define ids where "ids t \<longleftrightarrow> dom (rt_principals (srv_app t)) \<subseteq> live_handles t" for t :: "Router Server"
  have send: "ids (snd (ServerSend (Some OnDisconnect) k b t))" if "ids t" for k b t
  proof -
    from reports_ServerSend [OF reports_refl, of "Some OnDisconnect" t k b] obtain gone
      where "srv_app (snd (ServerSend (Some OnDisconnect) k b t)) = fold OnDisconnect gone (srv_app t)"
        "live_handles t - set gone \<subseteq> live_handles (snd (ServerSend (Some OnDisconnect) k b t))"
      by (auto simp: reports_def report_def)
    with that show ?thesis by (auto simp: OnDisconnect_all_principals ids_def)
  qed
  have put: "ids (t\<lparr>srv_app := r\<rparr>)" if "dom (rt_principals r) \<subseteq> live_handles t" for r t
    using that by (simp add: ids_def live_handles_def)
  have rep: "ids (reply ?env now h rid p t)" if "ids t" for rid p t
    using that unfolding reply_def Let_def by (simp, intro send put) (simp add: ids_def)
  have fan: "ids (fan_out ?env hs b t)" if "ids t" for hs b t
    using that unfolding fan_out_def by (induction hs arbitrary: t) (simp_all add: send)
  have start: "ids s" using assms(1) by (simp add: identities_live_def ids_def)
  have "ids (snd (Handle ?env now h payload s))"
    using Handle_outcome [of ?env now h s payload] unfolding outcome_def
  proof (elim disjE exE conjE)
    fix rid p r who
    assume t: "snd (Handle ?env now h payload s) = reply ?env now h rid p (env_put ?env r s)"
    show ?thesis if "rt_principals r = rt_principals (env_get ?env s)"
      unfolding t by (rule rep) (use start that in \<open>simp add: ids_def live_handles_def\<close>)
    show ?thesis if "rt_principals r = (rt_principals (env_get ?env s))(h \<mapsto> who)"
      unfolding t by (rule rep) (use start that assms(2) in \<open>simp add: ids_def live_handles_def\<close>)
  qed (use start rep fan in simp_all)
  with inv show ?thesis by (simp add: identities_live_def ids_def)
qed

interpretation main_app: session_application "main_handlers parse build o1 unix" identities_live for parse build o1 unix
proof
  fix f sk and s t :: "Router Server" and h msg
  assume on: "on_message (main_handlers parse build o1 unix) = Some f"
  let ?P = "\<lambda>t. srv_inv None sk t \<and> keeps s t"
  show "srv_inv None sk (snd (f h msg s))" if "srv_inv None sk s"
    using on that Handle_preserves [of "srv_inv None sk" "server_env parse build o1" s] by (auto simp: ServerSend_inv)
  show "keeps s (snd (f h msg s))" if "srv_inv None sk s"
    using on Handle_preserves [of "keeps s" "server_env parse build o1" s] by (auto simp: keeps_intros)
  show "identities_live (snd (f h msg s))" if "srv_inv None sk s" "identities_live s" "h \<in> live_handles s"
    using on that Handle_identities by auto
next
  show "on_connect (main_handlers parse build o1 unix) = None" by simp
  show "identities_live t" if "reports (on_disconnect (main_handlers parse build o1 unix)) s t" "identities_live s" for s t
    using that identities_live_reports by simp
qed

end
