(* ===== verification/Concurrent_Steps.thy ===== *)
theory Concurrent_Steps
  imports Server_Run
begin

text \<open>
  The threads of the server at the granularity of their shared accesses
  (\<open>src/core/iocp_server.cpp\<close>). In the other theories a handler runs to its end; here worker
  threads, the timer, the application and \<open>Stop\<close> interleave. A thread is a stack of frames, each
  the next action of a function it is inside: one access to an atomic, one critical section of a
  session's \<open>send_mutex\<close>, or one call to Winsock. What only the thread can see is inside the frame:
  an operation it has taken from the port or not yet posted, an item it has removed from a queue,
  and the items \<open>Disconnect\<close> drops while it holds the lock. Such an operation is not on the heap
  \<open>srv_writes\<close>, so the heap holds what the kernel owns.

  A critical section that touches an atomic of other threads is several frames, with the lock held
  between them: that of \<open>Enqueue\<close> around the compare-and-swap loop, and that of \<open>Disconnect\<close>
  around the loop over the queue. A counter that nothing reads (\<open>send_failures\<close>,
  \<open>sent_messages\<close>) is updated together with the action before it.
\<close>

subsection \<open>Frames\<close>

datatype enqueue_frame =
    EnqLock nat OutboundItem
  | EnqCheck nat OutboundItem
  | EnqLoad nat OutboundItem
  | EnqReserve nat OutboundItem size_t
  | EnqPush nat OutboundItem

datatype write_frame =
    NextPop nat
  | NextNew nat OutboundItem
  | NextDrop nat OutboundItem
  | NextRelease nat nat
  | NextTrack nat WriteOperation
  | PostLoad nat WriteOperation
  | PostSend nat WriteOperation nat
  | WriteHandle nat WriteOperation bool nat
  | FinSession nat WriteOperation bool
  | FinGlobal nat WriteOperation bool
  | FinComplete nat WriteOperation bool

datatype disconnect_frame =
    DiscStart nat
  | DiscState nat
  | DiscRemove nat
  | DiscSocket nat
  | DiscClose nat nat
  | DiscLock nat
  | DiscDrain nat "OutboundItem list"
  | DiscItem nat OutboundItem "OutboundItem list"
  | DiscInbound nat
  | DiscActive nat
  | DiscInvoke nat

datatype accept_frame =
    AccRunning nat
  | AccLimit nat
  | AccOption nat
  | AccAssociate nat
  | AccId nat
  | AccGeneration nat u64
  | AccInsert nat SessionHandle
  | AccCount nat
  | AccActive nat
  | AccConnect nat
  | AccClose nat
  | ReadNew nat
  | ReadTrack nat nat
  | ReadLoad nat nat
  | ReadPost nat nat nat
  | ReadAbort nat

datatype stop_frame =
    StopExchange
  | StopFlag
  | StopListen
  | StopShard nat "nat list"
  | StopWait

datatype frame =
    Enq enqueue_frame
  | Wri write_frame
  | Dis disconnect_frame
  | Acc accept_frame
  | Sto stop_frame

text \<open>What an action leaves: the frames that replace it, the server, and the sessions whose
  \<open>send_mutex\<close> is held. \<open>None\<close> means that the action has to wait.\<close>

type_synonym 'app effect = "(frame list \<times> 'app Server \<times> nat set) option"

subsection \<open>Enqueue\<close>

text \<open>A refused item of \<open>SendControl\<close> or \<open>SendRaw\<close> that should close the session makes the caller
  disconnect it.\<close>

definition refused :: "nat \<Rightarrow> OutboundItem \<Rightarrow> frame list" where
  "refused p item = (if oi_close_after item then [Dis (DiscStart p)] else [])"

text \<open>The limit test shared by the session counter and the global one.\<close>

definition exceeds :: "nat \<Rightarrow> size_t \<Rightarrow> size_t \<Rightarrow> bool" where
  "exceeds bytes used limit \<longleftrightarrow> bytes > unat limit \<or> unat used > unat limit - bytes"

fun run_Enqueue :: "enqueue_frame \<Rightarrow> 'app Server \<Rightarrow> nat set \<Rightarrow> 'app effect" where
  "run_Enqueue (EnqLock p item) s L =
    (if p \<in> L then None else Some ([Enq (EnqCheck p item)], s, insert p L))"
| "run_Enqueue (EnqCheck p item) s L =
    Some (if se_disconnect_started (sess p s) then (refused p item, s, L - {p})
          else if exceeds (item_bytes item) (se_queued_bytes (sess p s)) (cfg_max_session_queued_bytes (srv_config s))
            then (refused p item, send_failure s, L - {p})
          else ([Enq (EnqLoad p item)], s, L))"
| "run_Enqueue (EnqLoad p item) s L =
    Some ([Enq (EnqReserve p item (m_queued_bytes (srv_metrics s)))], s, L)"
| "run_Enqueue (EnqReserve p item current) s L =
    Some (if exceeds (item_bytes item) current (cfg_max_global_queued_bytes (srv_config s))
            then (refused p item, send_failure s, L - {p})
          else if m_queued_bytes (srv_metrics s) = current
            then ([Enq (EnqPush p item)],
                  count (\<lambda>m. m\<lparr>m_queued_bytes := current + of_nat (item_bytes item)\<rparr>) s, L)
          else ([Enq (EnqReserve p item (m_queued_bytes (srv_metrics s)))], s, L))"
| "run_Enqueue (EnqPush p item) s L =
    Some (if se_write_active (sess p s) then [] else [Wri (NextPop p)],
      (set_sess p (\<lambda>c. c\<lparr>se_queued_bytes := se_queued_bytes c + of_nat (item_bytes item),
          se_send_queue := se_send_queue c @ [item], se_write_active := True\<rparr>) s)
        \<lparr>srv_accepted_log := srv_accepted_log s @ [(p, item_wire item)]\<rparr>,
      L - {p})"

subsection \<open>The write path\<close>

fun run_Write :: "write_frame \<Rightarrow> 'app Server \<Rightarrow> nat set \<Rightarrow> 'app effect" where
  "run_Write (NextPop p) s L =
    (if p \<in> L then None
     else Some (case se_send_queue (sess p s) of
         [] \<Rightarrow> ([], set_sess p (\<lambda>c. c\<lparr>se_write_active := False\<rparr>) s, L)
       | item # rest \<Rightarrow> ([Wri (NextNew p item)], set_sess p (\<lambda>c. c\<lparr>se_send_queue := rest\<rparr>) s, L)))"
| "run_Write (NextNew p item) s L =
    Some (case draw s of (allocated, s1) \<Rightarrow>
       if \<not> allocated then ([Wri (NextDrop p item)], s1, L)
       else (case sc_new (oi_header item) (Some (oi_payload item)) of
           Inl e \<Rightarrow> ([], fail (Uncaught e) s1, L)
         | Inr cur \<Rightarrow>
             ([Wri (NextTrack (length (srv_writes s1))
                 \<lparr>wo_session = p, wo_cursor = cur, wo_close_after = oi_close_after item\<rparr>)],
              s1\<lparr>srv_writes := srv_writes s1 @ [None]\<rparr>, L)))"
| "run_Write (NextDrop p item) s L =
    (if p \<in> L then None
     else Some ([Wri (NextRelease p (item_bytes item))],
       set_sess p (\<lambda>c. c\<lparr>se_queued_bytes := se_queued_bytes c - of_nat (item_bytes item)\<rparr>) s, L))"
| "run_Write (NextRelease p bytes) s L =
    Some ([Dis (DiscStart p)], send_failure (ReleaseGlobalQueued bytes s), L)"
| "run_Write (NextTrack a w) s L = Some ([Wri (PostLoad a w)], TrackOperation s, L)"
| "run_Write (PostLoad a w) s L =
    Some ([case se_socket (sess (wo_session w) s) of
             None \<Rightarrow> Wri (FinSession a w False)
           | Some socket \<Rightarrow> Wri (PostSend a w socket)], s, L)"
| "run_Write (PostSend a w socket) s L =
    Some (case draw s of (posted, s1) \<Rightarrow>
       if posted then ([], s1\<lparr>srv_writes := (srv_writes s1)[a := Some w]\<rparr>, L)
       else ([Wri (FinSession a w False)], s1, L))"
| "run_Write (WriteHandle a w succeeded bytes_transferred) s L =
    Some (if \<not> succeeded \<or> bytes_transferred = 0 then ([Wri (FinSession a w False)], s, L)
       else
         let w1 = w\<lparr>wo_cursor := sc_Consume bytes_transferred (wo_cursor w)\<rparr>
         in ([if sc_Complete (wo_cursor w1) then Wri (FinSession a w1 True) else Wri (PostLoad a w1)],
             s\<lparr>srv_wire_log := srv_wire_log s @ [(wo_session w, take bytes_transferred (write_buffers w))]\<rparr>, L))"
| "run_Write (FinSession a w succeeded) s L =
    (if wo_session w \<in> L then None
     else let bytes = sc_TotalSize (wo_cursor w)
       in Some ([Wri (FinGlobal a w succeeded)],
            set_sess (wo_session w) (\<lambda>c. c\<lparr>se_queued_bytes :=
              (if bytes > unat (se_queued_bytes c) then 0 else se_queued_bytes c - of_nat bytes)\<rparr>) s, L))"
| "run_Write (FinGlobal a w succeeded) s L =
    Some ([Wri (FinComplete a w succeeded)],
      let s1 = ReleaseGlobalQueued (sc_TotalSize (wo_cursor w)) s
      in if succeeded then count (\<lambda>m. m\<lparr>m_sent_messages := m_sent_messages m + 1\<rparr>) s1 else send_failure s1, L)"
| "run_Write (FinComplete a w succeeded) s L =
    Some ([if \<not> succeeded \<or> wo_close_after w then Dis (DiscStart (wo_session w)) else Wri (NextPop (wo_session w))],
      CompleteOperation s, L)"

subsection \<open>Disconnect\<close>

fun run_Disconnect :: "'app session_handler \<Rightarrow> disconnect_frame \<Rightarrow> 'app Server \<Rightarrow> nat set \<Rightarrow> 'app effect" where
  "run_Disconnect od (DiscStart p) s L =
    Some (if se_disconnect_started (sess p s) then ([], s, L)
          else ([Dis (DiscState p)], set_sess p (\<lambda>c. c\<lparr>se_disconnect_started := True\<rparr>) s, L))"
| "run_Disconnect od (DiscState p) s L =
    Some ([Dis (DiscRemove p)], set_sess p (\<lambda>c. c\<lparr>se_state := ClosedState\<rparr>) s, L)"
| "run_Disconnect od (DiscRemove p) s L =
    Some ([Dis (DiscSocket p)],
      s\<lparr>srv_sessions := sr_Remove (deref s) (se_handle (sess p s)) (srv_sessions s)\<rparr>, L)"
| "run_Disconnect od (DiscSocket p) s L =
    Some (case se_socket (sess p s) of
        None \<Rightarrow> ([Dis (DiscLock p)], s, L)
      | Some socket \<Rightarrow> ([Dis (DiscClose p socket)], set_sess p (\<lambda>c. c\<lparr>se_socket := None\<rparr>) s, L))"
| "run_Disconnect od (DiscClose p socket) s L = Some ([Dis (DiscLock p)], closesocket socket s, L)"
| "run_Disconnect od (DiscLock p) s L =
    (if p \<in> L then None
     else Some ([Dis (DiscDrain p (se_send_queue (sess p s)))],
       set_sess p (\<lambda>c. c\<lparr>se_send_queue := []\<rparr>) s, insert p L))"
| "run_Disconnect od (DiscDrain p items) s L =
    Some (case items of
        [] \<Rightarrow> ([Dis (DiscInbound p)], s, L - {p})
      | item # rest \<Rightarrow> ([Dis (DiscItem p item rest)], ReleaseGlobalQueued (item_bytes item) s, L))"
| "run_Disconnect od (DiscItem p item rest) s L =
    Some ([Dis (DiscDrain p rest)],
      set_sess p (\<lambda>c. c\<lparr>se_queued_bytes := se_queued_bytes c - of_nat (item_bytes item)\<rparr>) s, L)"
| "run_Disconnect od (DiscInbound p) s L = Some ([Dis (DiscActive p)], ReleaseInbound p s, L)"
| "run_Disconnect od (DiscActive p) s L =
    Some ([Dis (DiscInvoke p)], count (\<lambda>m. m\<lparr>m_active_connections := m_active_connections m - 1\<rparr>) s, L)"
| "run_Disconnect od (DiscInvoke p) s L = Some ([], InvokeSession od (se_handle (sess p s)) s, L)"

subsection \<open>Accepting a connection\<close>

text \<open>\<open>HandleAccept\<close> from the completed \<open>AcceptEx\<close> to the first read of the session, without posting
  the next accept.\<close>

fun run_Accept :: "'app session_handler \<Rightarrow> accept_frame \<Rightarrow> 'app Server \<Rightarrow> nat set \<Rightarrow> 'app effect" where
  "run_Accept oc (AccRunning socket) s L =
    Some ([Acc (if srv_running s then AccLimit socket else AccClose socket)], s, L)"
| "run_Accept oc (AccLimit socket) s L =
    Some (if m_active_connections (srv_metrics s) \<ge> cfg_max_connections (srv_config s)
          then ([Acc (AccClose socket)], count_rejected s, L) else ([Acc (AccOption socket)], s, L))"
| "run_Accept oc (AccOption socket) s L =
    Some (case draw s of (ok, s1) \<Rightarrow>
      if ok then ([Acc (AccAssociate socket)], s1, L) else ([Acc (AccClose socket)], count_rejected s1, L))"
| "run_Accept oc (AccAssociate socket) s L =
    Some (case draw s of (ok, s1) \<Rightarrow>
      if ok then ([Acc (AccId socket)], s1, L) else ([Acc (AccClose socket)], count_rejected s1, L))"
| "run_Accept oc (AccId socket) s L =
    Some ([Acc (AccGeneration socket (srv_next_session_id s))],
      s\<lparr>srv_next_session_id := srv_next_session_id s + 1\<rparr>, L)"
| "run_Accept oc (AccGeneration socket i) s L =
    Some ([Acc (AccInsert socket \<lparr>sh_id = i, sh_generation = srv_next_generation s\<rparr>)],
      s\<lparr>srv_next_generation := srv_next_generation s + 1\<rparr>, L)"
| "run_Accept oc (AccInsert socket handle) s L =
    Some (case MonotonicMilliseconds s of (now, s1) \<Rightarrow>
      ([Acc (AccCount (length (srv_store s1)))],
       s1\<lparr>srv_store := srv_store s1 @ [(new_session handle socket (srv_config s1) now)\<lparr>se_state := Handshaking\<rparr>],
          srv_sessions := sr_Insert handle (length (srv_store s1)) (srv_sessions s1)\<rparr>, L))"
| "run_Accept oc (AccCount p) s L =
    Some ([Acc (AccActive p)], count (\<lambda>m. m\<lparr>m_accepted_connections := m_accepted_connections m + 1\<rparr>) s, L)"
| "run_Accept oc (AccActive p) s L =
    Some ([Acc (AccConnect p)], count (\<lambda>m. m\<lparr>m_active_connections := m_active_connections m + 1\<rparr>) s, L)"
| "run_Accept oc (AccConnect p) s L = Some ([Acc (ReadNew p)], InvokeSession oc (se_handle (sess p s)) s, L)"
| "run_Accept oc (AccClose socket) s L = Some ([], closesocket socket s, L)"
| "run_Accept oc (ReadNew p) s L =
    Some (case draw s of (allocated, s1) \<Rightarrow>
      if allocated then ([Acc (ReadTrack p (length (srv_reads s1)))], s1\<lparr>srv_reads := srv_reads s1 @ [None]\<rparr>, L)
      else ([Dis (DiscStart p)], s1, L))"
| "run_Accept oc (ReadTrack p a) s L = Some ([Acc (ReadLoad p a)], TrackOperation s, L)"
| "run_Accept oc (ReadLoad p a) s L =
    Some ([Acc (case se_socket (sess p s) of None \<Rightarrow> ReadAbort p | Some socket \<Rightarrow> ReadPost p a socket)], s, L)"
| "run_Accept oc (ReadPost p a socket) s L =
    Some (case draw s of (posted, s1) \<Rightarrow>
      if posted then ([], s1\<lparr>srv_reads := (srv_reads s1)[a := Some p]\<rparr>, L) else ([Acc (ReadAbort p)], s1, L))"
| "run_Accept oc (ReadAbort p) s L = Some ([Dis (DiscStart p)], CompleteOperation s, L)"

subsection \<open>Stop\<close>

text \<open>\<open>Snapshot\<close> locks one shard after the other. The wait ends when no operation is outstanding.\<close>

fun run_Stop :: "stop_frame \<Rightarrow> 'app Server \<Rightarrow> nat set \<Rightarrow> 'app effect" where
  "run_Stop StopExchange s L =
    Some (if srv_running s then ([Sto StopFlag], s\<lparr>srv_running := False\<rparr>, L) else ([], s, L))"
| "run_Stop StopFlag s L = Some ([Sto StopListen], s\<lparr>srv_stopping := True\<rparr>, L)"
| "run_Stop StopListen s L =
    Some ([Sto (StopShard 0 [])],
      case srv_listen_socket s of
        None \<Rightarrow> s | Some socket \<Rightarrow> closesocket socket (s\<lparr>srv_listen_socket := None\<rparr>), L)"
| "run_Stop (StopShard k found) s L =
    Some (if k < ShardCount then [Sto (StopShard (Suc k) (found @ map snd (srv_sessions s ! k)))]
          else map (\<lambda>p. Dis (DiscStart p)) found @ [Sto StopWait], s, L)"
| "run_Stop StopWait s L = (if srv_outstanding s = 0 then Some ([], StopEnd s, L) else None)"

subsection \<open>Threads\<close>

fun exec :: "'app Handlers \<Rightarrow> frame \<Rightarrow> 'app Server \<Rightarrow> nat set \<Rightarrow> 'app effect" where
  "exec hs (Enq f) s L = run_Enqueue f s L"
| "exec hs (Wri f) s L = run_Write f s L"
| "exec hs (Dis f) s L = run_Disconnect (on_disconnect hs) f s L"
| "exec hs (Acc f) s L = run_Accept (on_connect hs) f s L"
| "exec hs (Sto f) s L = run_Stop f s L"

record 'app Machine =
  mc_server :: "'app Server"
  mc_locks :: "nat set"
  mc_threads :: "frame list list"

text \<open>The calls a thread can make when it is in none of these functions. A session pointer is of an
  accepted session, and the headers the callers build fit the array of an item.\<close>

fun callable :: "frame \<Rightarrow> 'app Server \<Rightarrow> bool" where
  "callable (Enq (EnqLock p item)) s \<longleftrightarrow> p < length (srv_store s) \<and> length (oi_header item) \<le> send_header_capacity"
| "callable (Dis (DiscStart p)) s \<longleftrightarrow> p < length (srv_store s)"
| "callable (Acc (AccRunning socket)) s \<longleftrightarrow> True"
| "callable (Sto StopExchange) s \<longleftrightarrow> True"
| "callable _ s \<longleftrightarrow> False"

text \<open>What the functions above share with the rest of the server.\<close>

definition write_view where
  "write_view s = (srv_config s, srv_sessions s, srv_writes s, m_queued_bytes (srv_metrics s), m_active_connections (srv_metrics s),
     map (\<lambda>c. (se_send_queue c, se_queued_bytes c, se_write_active c, se_disconnect_started c)) (srv_store s))"

text \<open>Steps of the machine: a thread runs its top frame; the weak compare-and-swap fails for no reason;
  a thread makes a call; a worker takes the completion of a write from the port; anything else happens
  that the functions above do not share, such as decoding, routing, or the clock of a session.\<close>

inductive machine_step :: "'app Handlers \<Rightarrow> 'app Machine \<Rightarrow> 'app Machine \<Rightarrow> bool" for hs where
  run: "\<lbrakk>i < length (mc_threads m); mc_threads m ! i = f # rest; exec hs f (mc_server m) (mc_locks m) = Some (fs, s, L)\<rbrakk>
    \<Longrightarrow> machine_step hs m \<lparr>mc_server = s, mc_locks = L, mc_threads = (mc_threads m)[i := fs @ rest]\<rparr>"
| spurious: "\<lbrakk>i < length (mc_threads m); mc_threads m ! i = Enq (EnqReserve p item current) # rest;
      \<not> exceeds (item_bytes item) current (cfg_max_global_queued_bytes (srv_config (mc_server m)))\<rbrakk>
    \<Longrightarrow> machine_step hs m (m\<lparr>mc_threads := (mc_threads m)
          [i := Enq (EnqReserve p item (m_queued_bytes (srv_metrics (mc_server m)))) # rest]\<rparr>)"
| call: "\<lbrakk>i < length (mc_threads m); mc_threads m ! i = []; callable f (mc_server m)\<rbrakk>
    \<Longrightarrow> machine_step hs m (m\<lparr>mc_threads := (mc_threads m)[i := [f]]\<rparr>)"
| completion: "\<lbrakk>i < length (mc_threads m); mc_threads m ! i = []; a < length (srv_writes (mc_server m));
      srv_writes (mc_server m) ! a = Some w; n \<le> sc_Remaining (wo_cursor w)\<rbrakk>
    \<Longrightarrow> machine_step hs m (m\<lparr>mc_server := (mc_server m)\<lparr>srv_writes := (srv_writes (mc_server m))[a := None]\<rparr>,
          mc_threads := (mc_threads m)[i := [Wri (WriteHandle a w ok n)]]\<rparr>)"
| other: "write_view s = write_view (mc_server m) \<Longrightarrow> machine_step hs m (m\<lparr>mc_server := s\<rparr>)"

text \<open>\<open>interleaved hs n s m\<close>: with \<open>n\<close> threads, from \<open>s\<close>, some interleaving leads to \<open>m\<close>.\<close>

inductive interleaved :: "'app Handlers \<Rightarrow> nat \<Rightarrow> 'app Server \<Rightarrow> 'app Machine \<Rightarrow> bool" for hs n s where
  begun: "interleaved hs n s \<lparr>mc_server = s, mc_locks = {}, mc_threads = replicate n []\<rparr>"
| continued: "interleaved hs n s m \<Longrightarrow> machine_step hs m m' \<Longrightarrow> interleaved hs n s m'"

end
