(* ===== verification/Concurrent_Alone.thy ===== *)
theory Concurrent_Alone
  imports Concurrent_Steps
begin

text \<open>
  A thread that runs alone. The frames of \<open>Concurrent_Steps\<close> cut the functions of the server into
  actions; run one after the other, they do what the definitions of \<open>Server_Write\<close>,
  \<open>Server_State\<close> and \<open>Server_Lifecycle\<close> say.
\<close>

inductive alone :: "'app Handlers \<Rightarrow> frame list \<Rightarrow> 'app Server \<Rightarrow> nat set \<Rightarrow> 'app Server \<Rightarrow> nat set \<Rightarrow> bool" for hs where
  finished: "alone hs [] s L s L"
| action: "exec hs f s L = Some (fs, s1, L1) \<Longrightarrow> alone hs (fs @ rest) s1 L1 s2 L2 \<Longrightarrow> alone hs (f # rest) s L s2 L2"

inductive_simps alone_Nil: "alone hs [] s L s2 L2"
inductive_simps alone_Cons: "alone hs (f # rest) s L s2 L2"

lemma alone_exec: "exec hs f s L = Some (fs, s1, L1) \<Longrightarrow> alone hs (f # rest) s L = alone hs (fs @ rest) s1 L1"
  by (intro ext) (simp add: alone_Cons)

lemma insert_lock [simp]: "p \<notin> L \<Longrightarrow> insert p L - {p} = L"
  by auto

lemma set_sess_same: "set_sess p (\<lambda>c. c) s = s"
  by (simp add: set_sess_def)

lemma count_same: "count (\<lambda>m. m) s = s"
  by (simp add: count_def)

lemma sess_sessions [simp]: "sess p (s\<lparr>srv_sessions := r\<rparr>) = sess p s"
  by (simp add: sess_def)

subsection \<open>Disconnect\<close>

lemma alone_drain:
  "alone hs (Dis (DiscDrain p items) # rest) s L =
   alone hs (Dis (DiscInbound p) # rest)
     (set_sess p (\<lambda>c. c\<lparr>se_queued_bytes := se_queued_bytes c - of_nat (sum_list (map item_bytes items))\<rparr>)
       (count (\<lambda>m. m\<lparr>m_queued_bytes := m_queued_bytes m - of_nat (sum_list (map item_bytes items))\<rparr>) s)) (L - {p})"
proof (induction items arbitrary: s)
  case Nil
  show ?case by (simp add: alone_exec set_sess_same count_same)
next
  case (Cons item items)
  show ?case
    by (subst alone_exec, simp, simp, subst alone_exec, simp, simp)
      (simp add: Cons.IH ReleaseGlobalQueued_def set_sess_count count_count set_sess_set_sess diff_diff_eq)
qed

lemma alone_DropQueue:
  assumes "p \<notin> L" and "p < length (srv_store s)"
  shows "alone hs (Dis (DiscLock p) # rest) s L = alone hs (Dis (DiscInbound p) # rest) (DropQueue p s) L"
proof -
  have "(\<lambda>c. c\<lparr>se_send_queue := [], se_queued_bytes := se_queued_bytes (c\<lparr>se_send_queue := []\<rparr>) - n\<rparr>) =
    (\<lambda>c. c\<lparr>se_queued_bytes := se_queued_bytes c - n, se_send_queue := []\<rparr>)" for n by (rule ext) simp
  then have "set_sess p (\<lambda>c. c\<lparr>se_queued_bytes := se_queued_bytes c - n\<rparr>)
      (count g (set_sess p (\<lambda>c. c\<lparr>se_send_queue := []\<rparr>) s)) =
    set_sess p (\<lambda>c. c\<lparr>se_queued_bytes := se_queued_bytes c - n, se_send_queue := []\<rparr>) (count g s)" for g n
    unfolding set_sess_count set_sess_set_sess by (rule arg_cong)
  with assms show ?thesis by (simp add: alone_exec [of hs "Dis (DiscLock p)"] alone_drain DropQueue_eq queue_total_def)
qed

lemma alone_CloseSocket:
  assumes "p \<notin> L"
  shows "alone hs (Dis (DiscSocket p) # rest) s L = alone hs (Dis (DiscLock p) # rest) (CloseSocket p s) L"
  by (simp add: alone_exec [of hs "Dis (DiscSocket p)"] alone_exec [of hs "Dis (DiscClose p k)" for k]
      CloseSocket_def closesocket_def split: option.split)

lemma DropQueue_length [simp]: "length (srv_store (DropQueue p s)) = length (srv_store s)"
  by (simp add: DropQueue_eq)

lemma se_handle_kept:
  assumes "p < length (srv_store s)"
  shows "se_handle (sess p (ReleaseInbound p s)) = se_handle (sess p s)"
    and "se_handle (sess p (DropQueue p s)) = se_handle (sess p s)"
    and "se_handle (sess p (CloseSocket p s)) = se_handle (sess p s)"
  using assms by (simp_all add: ReleaseInbound_def DropQueue_eq CloseSocket_def set_sess_def count_def sess_def Let_def
      split: option.split)

lemma alone_Disconnect:
  assumes "p \<notin> L" and "p < length (srv_store s)"
  shows "alone hs (Dis (DiscStart p) # rest) s L = alone hs rest (Disconnect (on_disconnect hs) p s) L"
proof (cases "se_disconnect_started (sess p s)")
  case True
  then show ?thesis by (simp add: alone_exec Disconnect_def)
next
  case False
  have early: "alone hs (Dis (DiscStart p) # rest) s L = alone hs (Dis (DiscSocket p) # rest)
      (let s1 = set_sess p (\<lambda>c. c\<lparr>se_disconnect_started := True, se_state := ClosedState\<rparr>) s
       in s1\<lparr>srv_sessions := sr_Remove (deref s1) (se_handle (sess p s)) (srv_sessions s1)\<rparr>) L"
    using False assms(2)
    by (simp add: alone_exec [of hs "Dis (DiscStart p)"] alone_exec [of hs "Dis (DiscState p)"]
        alone_exec [of hs "Dis (DiscRemove p)"] Let_def set_sess_set_sess sess_set_sess)
  show ?thesis using assms False
    by (simp add: early alone_CloseSocket alone_DropQueue alone_exec [of hs "Dis (DiscInbound p)"]
        alone_exec [of hs "Dis (DiscActive p)"] alone_exec [of hs "Dis (DiscInvoke p)"] Disconnect_def Let_def
        se_handle_kept sess_set_sess)
qed

subsection \<open>The write path\<close>

text \<open>Updates of different fields in one order.\<close>

lemma writes_reorder:
  "s\<lparr>srv_writes := x, srv_ticks := t\<rparr> = s\<lparr>srv_ticks := t, srv_writes := x\<rparr>"
  "s\<lparr>srv_writes := x, srv_wire_log := l\<rparr> = s\<lparr>srv_wire_log := l, srv_writes := x\<rparr>"
  "s\<lparr>srv_writes := x, srv_store := c\<rparr> = s\<lparr>srv_store := c, srv_writes := x\<rparr>"
  "s\<lparr>srv_writes := x, srv_metrics := m\<rparr> = s\<lparr>srv_metrics := m, srv_writes := x\<rparr>"
  "s\<lparr>srv_writes := x, srv_outstanding := n\<rparr> = s\<lparr>srv_outstanding := n, srv_writes := x\<rparr>"
  by simp_all

lemma alone_SettleWrite:
  assumes "wo_session w \<notin> L" and "srv_writes s ! a = Some w"
  shows "alone hs (Wri (FinSession a w ok) # rest) (s\<lparr>srv_writes := (srv_writes s)[a := None]\<rparr>) L =
    alone hs ((if \<not> ok \<or> wo_close_after w then Dis (DiscStart (wo_session w)) else Wri (NextPop (wo_session w))) # rest)
      (SettleWrite a ok s) L"
  using assms
  by (simp add: alone_exec [of hs "Wri (FinSession a w ok)"] alone_exec [of hs "Wri (FinGlobal a w ok)"]
      alone_exec [of hs "Wri (FinComplete a w ok)"] SettleWrite_def Let_def ReleaseGlobalQueued_def send_failure_def
      CompleteOperation_def set_sess_def count_def writes_reorder)

lemma SettleWrite_length [simp]: "length (srv_store (SettleWrite a ok s)) = length (srv_store s)"
  by (simp add: SettleWrite_def Let_def ReleaseGlobalQueued_def send_failure_def CompleteOperation_def split: option.split)

lemma writes_kept:
  assumes "srv_writes s ! a = Some w"
  shows "s\<lparr>srv_ticks := t, srv_writes := (srv_writes s)[a := Some w]\<rparr> = s\<lparr>srv_ticks := t\<rparr>"
proof -
  have "(srv_writes s)[a := Some w] = srv_writes s" using assms by (metis list_update_id)
  then show ?thesis by simp
qed

text \<open>Posting: either the kernel owns the operation again, or the write fails.\<close>

lemma alone_PostWrite:
  assumes "wo_session w \<notin> L" and "srv_writes s ! a = Some w" and "a < length (srv_writes s)"
  shows "alone hs (Wri (PostLoad a w) # rest) (s\<lparr>srv_writes := (srv_writes s)[a := None]\<rparr>) L =
    (case PostWrite a s of
       (True, s1) \<Rightarrow> alone hs rest s1 L
     | (False, s1) \<Rightarrow> alone hs (Wri (FinSession a w False) # rest) (s1\<lparr>srv_writes := (srv_writes s1)[a := None]\<rparr>) L)"
  using assms
  by (cases "srv_oracle s (srv_ticks s)")
    (simp_all add: alone_exec [of hs "Wri (PostLoad a w)"] alone_exec [of hs "Wri (PostSend a w k)" for k]
      PostWrite_def draw_def sess_def writes_reorder writes_kept split: option.split)

lemma alone_StartNextWrite:
  assumes "p \<notin> L" and "p < length (srv_store s)"
  shows "alone hs (Wri (NextPop p) # rest) s L = alone hs rest (StartNextWrite (on_disconnect hs) p s) L"
proof (cases "se_send_queue (sess p s)")
  case Nil
  then show ?thesis using assms by (simp add: alone_exec StartNextWrite_def)
next
  case (Cons item items)
  let ?s1 = "set_sess p (\<lambda>c. c\<lparr>se_send_queue := items\<rparr>) s"
  obtain ok s2 where d: "draw ?s1 = (ok, s2)" by fastforce
  have len: "length (srv_store s2) = length (srv_store s)" using d by (auto simp: draw_def)
  have new: "alone hs (Wri (NextPop p) # rest) s L = alone hs (Wri (NextNew p item) # rest) ?s1 L"
    using assms Cons by (simp add: alone_exec [of hs "Wri (NextPop p)"])
  show ?thesis
  proof (cases "ok \<and> length (oi_header item) \<le> send_header_capacity")
    case False
    then show ?thesis using assms Cons d len
      by (auto simp: new StartNextWrite_def Let_def sc_new_def alone_exec [of hs "Wri (NextNew p item)"]
          alone_exec [of hs "Wri (NextDrop p item)"] alone_exec [of hs "Wri (NextRelease p n)" for n]
          ReleaseGlobalQueued_def send_failure_def alone_Disconnect)
  next
    case True
    then obtain cur where cur: "sc_new (oi_header item) (Some (oi_payload item)) = Inr cur" by (simp add: sc_new_def)
    define w where "w = \<lparr>wo_session = p, wo_cursor = cur, wo_close_after = oi_close_after item\<rparr>"
    define a where "a = length (srv_writes s2)"
    define s3 where "s3 = TrackOperation (s2\<lparr>srv_writes := srv_writes s2 @ [Some w]\<rparr>)"
    obtain posted s4 where pw: "PostWrite a s3 = (posted, s4)" by fastforce
    have s3: "srv_writes s3 ! a = Some w" "a < length (srv_writes s3)" by (simp_all add: s3_def a_def TrackOperation_def)
    have s4: "srv_writes s4 = srv_writes s3" "srv_store s4 = srv_store s3"
      using pw by (auto simp: PostWrite_def draw_def split: option.splits)
    have "wo_session w = p" by (simp add: w_def)
    have "alone hs (Wri (NextPop p) # rest) s L =
        alone hs (Wri (PostLoad a w) # rest) (s3\<lparr>srv_writes := (srv_writes s3)[a := None]\<rparr>) L"
      using True d cur by (simp add: new alone_exec [of hs "Wri (NextNew p item)"] alone_exec [of hs "Wri (NextTrack b v)" for b v]
          a_def w_def s3_def TrackOperation_def writes_reorder)
    moreover have "StartNextWrite (on_disconnect hs) p s =
        (if posted then s4 else Disconnect (on_disconnect hs) p (SettleWrite a False s4))"
      using True Cons d cur pw by (simp add: StartNextWrite_def Let_def a_def s3_def w_def)
    moreover have "length (srv_store (SettleWrite a False s4)) = length (srv_store s)"
      using s4 len by (simp add: s3_def TrackOperation_def)
    ultimately show ?thesis using assms s3 s4 pw \<open>wo_session w = p\<close>
      by (auto simp: alone_PostWrite alone_SettleWrite [of w L s4 a hs, unfolded s4] alone_Disconnect split: bool.split)
  qed
qed

lemma alone_FinishWrite:
  assumes "wo_session w \<notin> L" and "wo_session w < length (srv_store s)" and "srv_writes s ! a = Some w"
  shows "alone hs (Wri (FinSession a w ok) # rest) (s\<lparr>srv_writes := (srv_writes s)[a := None]\<rparr>) L =
    alone hs rest (FinishWrite (on_disconnect hs) a ok s) L"
  using assms by (simp add: alone_SettleWrite FinishWrite_def Let_def alone_Disconnect alone_StartNextWrite)

lemma alone_HandleWrite:
  assumes "wo_session w \<notin> L" and "wo_session w < length (srv_store s)"
    and "srv_writes s ! a = Some w" and "a < length (srv_writes s)"
  shows "alone hs (Wri (WriteHandle a w ok n) # rest) (s\<lparr>srv_writes := (srv_writes s)[a := None]\<rparr>) L =
    alone hs rest (HandleWrite (on_disconnect hs) a ok n s) L"
proof (cases "\<not> ok \<or> n = 0")
  case True
  then show ?thesis using assms
    by (simp add: alone_exec [of hs "Wri (WriteHandle a w ok n)"] HandleWrite_def alone_FinishWrite)
next
  case False
  define w1 where "w1 = w\<lparr>wo_cursor := sc_Consume n (wo_cursor w)\<rparr>"
  define s1 where "s1 = s\<lparr>srv_writes := (srv_writes s)[a := Some w1],
    srv_wire_log := srv_wire_log s @ [(wo_session w, take n (write_buffers w))]\<rparr>"
  have s1: "wo_session w1 \<notin> L" "wo_session w1 < length (srv_store s1)" "srv_writes s1 ! a = Some w1" "a < length (srv_writes s1)"
    using assms by (simp_all add: s1_def w1_def)
  obtain posted s2 where pw: "PostWrite a s1 = (posted, s2)" by fastforce
  then have s2: "srv_writes s2 = srv_writes s1" "srv_store s2 = srv_store s1"
    by (auto simp: PostWrite_def draw_def split: option.splits)
  have "alone hs (Wri (WriteHandle a w ok n) # rest) (s\<lparr>srv_writes := (srv_writes s)[a := None]\<rparr>) L =
      alone hs ((if sc_Complete (wo_cursor w1) then Wri (FinSession a w1 True) else Wri (PostLoad a w1)) # rest)
        (s1\<lparr>srv_writes := (srv_writes s1)[a := None]\<rparr>) L"
    using False assms(4) by (simp add: alone_exec [of hs "Wri (WriteHandle a w v n)" for v] s1_def w1_def Let_def writes_reorder)
  moreover have "HandleWrite (on_disconnect hs) a ok n s =
      (if sc_Complete (wo_cursor w1) then FinishWrite (on_disconnect hs) a True s1
       else if posted then s2 else FinishWrite (on_disconnect hs) a False s2)"
    using False assms(3) pw by (simp add: HandleWrite_def Let_def s1_def w1_def)
  ultimately show ?thesis using s1 s2 pw
    by (auto simp: alone_FinishWrite alone_FinishWrite [of w1 L s2 a hs, unfolded s2] alone_PostWrite split: bool.split)
qed

lemma alone_refused:
  assumes "p \<notin> L" and "p < length (srv_store s)"
  shows "alone hs (refused p item @ rest) s L =
    alone hs rest (if oi_close_after item then Disconnect (on_disconnect hs) p s else s) L"
  using assms by (simp add: refused_def alone_Disconnect)

lemma count_current:
  "count (\<lambda>m. m\<lparr>m_queued_bytes := m_queued_bytes (srv_metrics s) + n\<rparr>) s =
   count (\<lambda>m. m\<lparr>m_queued_bytes := m_queued_bytes m + n\<rparr>) s"
  by (simp add: count_def)

lemma alone_Enqueue:
  assumes "p \<notin> L" and "p < length (srv_store s)"
  shows "alone hs (Enq (EnqLock p item) # rest) s L = alone hs rest (enqueue_or_close (on_disconnect hs) p item s) L"
proof -
  let ?b = "item_bytes item" and ?c = "sess p s"
  have lock: "alone hs (Enq (EnqLock p item) # rest) s L = alone hs (Enq (EnqCheck p item) # rest) s (insert p L)"
    using assms by (simp add: alone_exec [of hs "Enq (EnqLock p item)"])
  have failed: "length (srv_store (send_failure s)) = length (srv_store s)" by (simp add: send_failure_def)
  consider "se_disconnect_started ?c"
    | "\<not> se_disconnect_started ?c" "exceeds ?b (se_queued_bytes ?c) (cfg_max_session_queued_bytes (srv_config s))"
    | "\<not> se_disconnect_started ?c" "\<not> exceeds ?b (se_queued_bytes ?c) (cfg_max_session_queued_bytes (srv_config s))"
      "exceeds ?b (m_queued_bytes (srv_metrics s)) (cfg_max_global_queued_bytes (srv_config s))"
    | "\<not> se_disconnect_started ?c" "\<not> exceeds ?b (se_queued_bytes ?c) (cfg_max_session_queued_bytes (srv_config s))"
      "\<not> exceeds ?b (m_queued_bytes (srv_metrics s)) (cfg_max_global_queued_bytes (srv_config s))"
    by blast
  then show ?thesis
  proof cases
    case 4
    let ?s1 = "(set_sess p (\<lambda>c. c\<lparr>se_queued_bytes := se_queued_bytes c + of_nat ?b, se_send_queue := se_send_queue c @ [item],
          se_write_active := True\<rparr>) (count (\<lambda>m. m\<lparr>m_queued_bytes := m_queued_bytes m + of_nat ?b\<rparr>) s))
        \<lparr>srv_accepted_log := srv_accepted_log s @ [(p, item_wire item)]\<rparr>"
    have "alone hs (Enq (EnqLock p item) # rest) s L =
        alone hs ((if se_write_active ?c then [] else [Wri (NextPop p)]) @ rest) ?s1 L"
      using 4 assms(1) unfolding lock by (simp add: alone_exec [of hs "Enq f" for f] count_current)
    moreover have "enqueue_or_close (on_disconnect hs) p item s =
        (if se_write_active ?c then ?s1 else StartNextWrite (on_disconnect hs) p ?s1)"
      using 4 by (simp add: enqueue_or_close_def Enqueue_def Let_def ReserveGlobalQueued_def exceeds_def)
    ultimately show ?thesis using assms by (simp add: alone_StartNextWrite)
  qed (use assms failed in \<open>simp_all add: lock alone_exec [of hs "Enq f" for f] alone_refused enqueue_or_close_def
      Enqueue_def Let_def ReserveGlobalQueued_def exceeds_def\<close>)
qed

subsection \<open>Accepting and stopping\<close>

lemma reads_reorder:
  "s\<lparr>srv_reads := x, srv_ticks := t\<rparr> = s\<lparr>srv_ticks := t, srv_reads := x\<rparr>"
  "s\<lparr>srv_reads := x, srv_outstanding := n\<rparr> = s\<lparr>srv_outstanding := n, srv_reads := x\<rparr>"
  by simp_all

lemma reads_kept:
  assumes "srv_reads s ! a = Some p"
  shows "s\<lparr>srv_ticks := t, srv_reads := (srv_reads s)[a := Some p]\<rparr> = s\<lparr>srv_ticks := t\<rparr>"
proof -
  have "(srv_reads s)[a := Some p] = srv_reads s" using assms by (metis list_update_id)
  then show ?thesis by simp
qed

lemma alone_PostReadOp:
  assumes "srv_reads s ! a = Some p"
  shows "alone hs (Acc (ReadLoad p a) # rest) (s\<lparr>srv_reads := (srv_reads s)[a := None]\<rparr>) L =
    (case PostReadOp a s of
       (True, s1) \<Rightarrow> alone hs rest s1 L
     | (False, s1) \<Rightarrow> alone hs (Dis (DiscStart p) # rest) (DeleteRead a s1) L)"
proof (cases "se_socket (srv_store s ! p)")
  case None
  with assms show ?thesis
    by (simp add: alone_exec [of hs "Acc (ReadLoad p a)"] alone_exec [of hs "Acc (ReadAbort p)"] sess_def PostReadOp_def
        CompleteOperation_def DeleteRead_def)
next
  case (Some k)
  with assms show ?thesis
    by (cases "srv_oracle s (srv_ticks s)")
      (simp_all add: alone_exec [of hs "Acc (ReadLoad p a)"] alone_exec [of hs "Acc (ReadPost p a k)"] sess_def PostReadOp_def
        draw_def reads_reorder reads_kept alone_exec [of hs "Acc (ReadAbort p)"] CompleteOperation_def DeleteRead_def)
qed

lemma alone_PostRead:
  assumes "p \<notin> L" and "p < length (srv_store s)"
  shows "alone hs (Acc (ReadNew p) # rest) s L =
    alone hs rest (case PostRead p s of (True, s1) \<Rightarrow> s1 | (False, s1) \<Rightarrow> Disconnect (on_disconnect hs) p s1) L"
proof -
  obtain ok s1 where d: "draw s = (ok, s1)" by fastforce
  define a where "a = length (srv_reads s1)"
  define s2 where "s2 = TrackOperation (s1\<lparr>srv_reads := srv_reads s1 @ [Some p]\<rparr>)"
  obtain posted s3 where q: "PostReadOp a s2 = (posted, s3)" by fastforce
  have "srv_store s1 = srv_store s" using d by (auto simp: draw_def)
  moreover have "srv_reads s2 ! a = Some p" by (simp add: s2_def a_def TrackOperation_def)
  moreover have "length (srv_store (DeleteRead a s3)) = length (srv_store s1)"
    using q by (auto simp: PostReadOp_def draw_def DeleteRead_def CompleteOperation_def s2_def TrackOperation_def split: option.splits)
  moreover have "alone hs (Acc (ReadNew p) # rest) s L =
      (if ok then alone hs (Acc (ReadLoad p a) # rest) (s2\<lparr>srv_reads := (srv_reads s2)[a := None]\<rparr>) L
       else alone hs (Dis (DiscStart p) # rest) s1 L)"
    using d by (simp add: alone_exec [of hs "Acc (ReadNew p)"] alone_exec [of hs "Acc (ReadTrack p b)" for b]
        s2_def a_def TrackOperation_def reads_reorder)
  moreover have "PostRead p s = (if ok then if posted then (True, s3) else (False, DeleteRead a s3) else (False, s1))"
    using d q by (simp add: PostRead_def Let_def a_def s2_def)
  ultimately show ?thesis using assms d q by (auto simp: alone_PostReadOp alone_Disconnect)
qed

lemma alone_AcceptSession:
  assumes "srv_running s" and "length (srv_store s) \<notin> L"
  shows "alone hs (Acc (AccRunning k) # rest) s L =
    alone hs rest (case AcceptSession hs k s of (True, s1) \<Rightarrow> s1 | (False, s1) \<Rightarrow> closesocket k s1) L"
proof (cases "m_active_connections (srv_metrics s) \<ge> cfg_max_connections (srv_config s) \<or>
    \<not> srv_oracle s (srv_ticks s) \<or> \<not> srv_oracle s (Suc (srv_ticks s))")
  case True
  then show ?thesis using assms
    by (auto simp: alone_exec [of hs "Acc f" for f] AcceptSession_def draw_def count_rejected_def)
next
  case False
  define s1 where "s1 = s\<lparr>srv_ticks := Suc (Suc (srv_ticks s))\<rparr>"
  let ?p = "length (srv_store s)"
  have "alone hs (Acc (AccRunning k) # rest) s L = alone hs (Acc (AccId k) # rest) s1 L"
    using False assms(1)
    by (simp add: alone_exec [of hs "Acc (AccRunning k)"] alone_exec [of hs "Acc (AccLimit k)"]
      alone_exec [of hs "Acc (AccOption k)"] alone_exec [of hs "Acc (AccAssociate k)"] draw_def s1_def)
  moreover have "alone hs (Acc (AccId k) # rest) s1 L = alone hs (Acc (ReadNew ?p) # rest) (InsertSession hs k s1) L"
    by (simp add: alone_exec [of hs "Acc (AccId k)"] alone_exec [of hs "Acc (AccGeneration k i)" for i]
      alone_exec [of hs "Acc (AccInsert k h)" for h] alone_exec [of hs "Acc (AccCount q)" for q]
      alone_exec [of hs "Acc (AccActive q)" for q] alone_exec [of hs "Acc (AccConnect q)" for q]
      InsertSession_def MonotonicMilliseconds_def s1_def Let_def count_def sess_def new_session_def)
  moreover have "?p < length (srv_store (InsertSession hs k s1))"
    by (simp add: InsertSession_def MonotonicMilliseconds_def Let_def s1_def)
  moreover have "AcceptSession hs k s = (case PostRead ?p (InsertSession hs k s1) of
      (True, s2) \<Rightarrow> (True, s2) | (False, s2) \<Rightarrow> (True, Disconnect (on_disconnect hs) ?p s2))"
    using False by (simp add: AcceptSession_def draw_def s1_def Let_def)
  ultimately show ?thesis using assms(2) by (simp add: alone_PostRead split: prod.split bool.split)
qed

lemma alone_Disconnects:
  assumes "\<forall>p \<in> set ps. p \<notin> L \<and> p < length (srv_store s)"
  shows "alone hs (map (\<lambda>p. Dis (DiscStart p)) ps @ rest) s L = alone hs rest (fold (Disconnect (on_disconnect hs)) ps s) L"
  using assms by (induction ps arbitrary: s) (simp_all add: alone_Disconnect)

lemma alone_Snapshot:
  assumes "length (srv_sessions s) = ShardCount" and "k \<le> ShardCount"
  shows "alone hs (Sto (StopShard k found) # rest) s L =
    alone hs (map (\<lambda>p. Dis (DiscStart p)) (found @ sr_Snapshot (drop k (srv_sessions s))) @ Sto StopWait # rest) s L"
  using assms(2)
proof (induction "ShardCount - k" arbitrary: k found)
  case 0
  then show ?case using assms(1) by (simp add: alone_exec [of hs "Sto (StopShard j found)" for j] sr_Snapshot_def)
next
  case (Suc n)
  then have "k < ShardCount" by simp
  then have "drop k (srv_sessions s) = srv_sessions s ! k # drop (Suc k) (srv_sessions s)"
    using assms(1) by (simp add: Cons_nth_drop_Suc)
  with Suc \<open>k < ShardCount\<close> show ?case by (simp add: alone_exec [of hs "Sto (StopShard k found)"] sr_Snapshot_def)
qed

lemma alone_StopBegin:
  assumes "srv_running s" and "length (srv_sessions s) = ShardCount"
    and "\<forall>p \<in> set (sr_Snapshot (srv_sessions s)). p \<notin> L \<and> p < length (srv_store s)"
  shows "alone hs (Sto StopExchange # rest) s L = alone hs (Sto StopWait # rest) (StopBegin (on_disconnect hs) s) L"
proof -
  have "alone hs (Sto StopExchange # rest) s L = alone hs (Sto (StopShard 0 []) # rest)
      (let s1 = s\<lparr>srv_running := False, srv_stopping := True\<rparr>
       in case srv_listen_socket s1 of None \<Rightarrow> s1 | Some k \<Rightarrow> closesocket k (s1\<lparr>srv_listen_socket := None\<rparr>)) L"
    using assms(1) by (simp add: alone_exec [of hs "Sto StopExchange"] alone_exec [of hs "Sto StopFlag"]
      alone_exec [of hs "Sto StopListen"] Let_def)
  then show ?thesis using assms
    by (auto simp: alone_Snapshot alone_Disconnects StopBegin_def Let_def closesocket_def split: option.splits)
qed

end
