(* ===== verification/Concurrent_Frames.thy ===== *)
theory Concurrent_Frames
  imports Concurrent_Steps
begin

text \<open>
  What the frames of a thread carry (a lock, bytes of a counter, the right to write to a session, an
  operation), and for each action of \<open>Concurrent_Steps\<close> that it hands on exactly what it takes. The
  invariants of \<open>Concurrent_Safety\<close> are sums over all frames, and are kept for that reason.
\<close>

subsection \<open>What a frame carries\<close>

text \<open>The lock of a session, held by at most one frame.\<close>

fun locks_of :: "nat \<Rightarrow> frame \<Rightarrow> nat" where
  "locks_of p (Enq (EnqCheck q _)) = of_bool (q = p)"
| "locks_of p (Enq (EnqLoad q _)) = of_bool (q = p)"
| "locks_of p (Enq (EnqReserve q _ _)) = of_bool (q = p)"
| "locks_of p (Enq (EnqPush q _)) = of_bool (q = p)"
| "locks_of p (Dis (DiscDrain q _)) = of_bool (q = p)"
| "locks_of p (Dis (DiscItem q _ _)) = of_bool (q = p)"
| "locks_of p _ = 0"

text \<open>Bytes that are in the counter of the session but neither in its queue nor with the kernel.\<close>

fun owed :: "nat \<Rightarrow> frame \<Rightarrow> nat" where
  "owed p (Wri (NextNew q item)) = (if q = p then item_bytes item else 0)"
| "owed p (Wri (NextDrop q item)) = (if q = p then item_bytes item else 0)"
| "owed p (Wri (NextTrack _ w)) = (if wo_session w = p then sc_TotalSize (wo_cursor w) else 0)"
| "owed p (Wri (PostLoad _ w)) = (if wo_session w = p then sc_TotalSize (wo_cursor w) else 0)"
| "owed p (Wri (PostSend _ w _)) = (if wo_session w = p then sc_TotalSize (wo_cursor w) else 0)"
| "owed p (Wri (WriteHandle _ w _ _)) = (if wo_session w = p then sc_TotalSize (wo_cursor w) else 0)"
| "owed p (Wri (FinSession _ w _)) = (if wo_session w = p then sc_TotalSize (wo_cursor w) else 0)"
| "owed p (Dis (DiscDrain q items)) = (if q = p then sum_list (map item_bytes items) else 0)"
| "owed p (Dis (DiscItem q item items)) = (if q = p then item_bytes item + sum_list (map item_bytes items) else 0)"
| "owed p _ = 0"

text \<open>The same for the global counter, which is reserved earlier and released later or earlier.\<close>

fun owed_global :: "frame \<Rightarrow> nat" where
  "owed_global (Enq (EnqPush q item)) = item_bytes item"
| "owed_global (Wri (NextNew q item)) = item_bytes item"
| "owed_global (Wri (NextDrop q item)) = item_bytes item"
| "owed_global (Wri (NextRelease q bytes)) = bytes"
| "owed_global (Wri (NextTrack _ w)) = sc_TotalSize (wo_cursor w)"
| "owed_global (Wri (PostLoad _ w)) = sc_TotalSize (wo_cursor w)"
| "owed_global (Wri (PostSend _ w _)) = sc_TotalSize (wo_cursor w)"
| "owed_global (Wri (WriteHandle _ w _ _)) = sc_TotalSize (wo_cursor w)"
| "owed_global (Wri (FinSession _ w _)) = sc_TotalSize (wo_cursor w)"
| "owed_global (Wri (FinGlobal _ w _)) = sc_TotalSize (wo_cursor w)"
| "owed_global (Dis (DiscDrain q items)) = sum_list (map item_bytes items)"
| "owed_global (Dis (DiscItem q item items)) = sum_list (map item_bytes items)"
| "owed_global _ = 0"

text \<open>The right to write to a session, and the address of an operation a thread owns.\<close>

fun writers_of :: "nat \<Rightarrow> frame \<Rightarrow> nat" where
  "writers_of p (Wri (NextPop q)) = of_bool (q = p)"
| "writers_of p (Wri (NextNew q _)) = of_bool (q = p)"
| "writers_of p (Wri (NextDrop q _)) = of_bool (q = p)"
| "writers_of p (Wri (NextRelease q _)) = of_bool (q = p)"
| "writers_of p (Wri (NextTrack _ w)) = of_bool (wo_session w = p)"
| "writers_of p (Wri (PostLoad _ w)) = of_bool (wo_session w = p)"
| "writers_of p (Wri (PostSend _ w _)) = of_bool (wo_session w = p)"
| "writers_of p (Wri (WriteHandle _ w _ _)) = of_bool (wo_session w = p)"
| "writers_of p (Wri (FinSession _ w _)) = of_bool (wo_session w = p)"
| "writers_of p (Wri (FinGlobal _ w _)) = of_bool (wo_session w = p)"
| "writers_of p (Wri (FinComplete _ w _)) = of_bool (wo_session w = p)"
| "writers_of p _ = 0"

fun owns :: "nat \<Rightarrow> frame \<Rightarrow> nat" where
  "owns a (Wri (NextTrack b _)) = of_bool (b = a)"
| "owns a (Wri (PostLoad b _)) = of_bool (b = a)"
| "owns a (Wri (PostSend b _ _)) = of_bool (b = a)"
| "owns a (Wri (WriteHandle b _ _ _)) = of_bool (b = a)"
| "owns a (Wri (FinSession b _ _)) = of_bool (b = a)"
| "owns a (Wri (FinGlobal b _ _)) = of_bool (b = a)"
| "owns a (Wri (FinComplete b _ _)) = of_bool (b = a)"
| "owns a _ = 0"

text \<open>A call of \<open>Disconnect\<close> that has not yet begun; one that has begun and not yet emptied the queue;
  one that has begun and not yet counted the connection down. And a call of \<open>Enqueue\<close> that has found
  the session alive.\<close>

fun calls_of :: "nat \<Rightarrow> frame \<Rightarrow> nat" where
  "calls_of p (Dis (DiscStart q)) = of_bool (q = p)"
| "calls_of p _ = 0"

fun closing :: "nat \<Rightarrow> frame \<Rightarrow> nat" where
  "closing p (Dis (DiscState q)) = of_bool (q = p)"
| "closing p (Dis (DiscRemove q)) = of_bool (q = p)"
| "closing p (Dis (DiscSocket q)) = of_bool (q = p)"
| "closing p (Dis (DiscClose q _)) = of_bool (q = p)"
| "closing p (Dis (DiscLock q)) = of_bool (q = p)"
| "closing p _ = 0"

fun past_check :: "nat \<Rightarrow> frame \<Rightarrow> nat" where
  "past_check p (Enq (EnqLoad q _)) = of_bool (q = p)"
| "past_check p (Enq (EnqReserve q _ _)) = of_bool (q = p)"
| "past_check p (Enq (EnqPush q _)) = of_bool (q = p)"
| "past_check p _ = 0"

fun uncounted :: "frame \<Rightarrow> nat" where
  "uncounted (Dis (DiscStart _)) = 0"
| "uncounted (Dis (DiscInvoke _)) = 0"
| "uncounted (Dis _) = 1"
| "uncounted _ = 0"

text \<open>An accept that has passed the limit and not yet inserted its session; one that has inserted the
  session and not yet counted it.\<close>

fun admitted :: "frame \<Rightarrow> nat" where
  "admitted (Acc (AccOption _)) = 1"
| "admitted (Acc (AccAssociate _)) = 1"
| "admitted (Acc (AccId _)) = 1"
| "admitted (Acc (AccGeneration _ _)) = 1"
| "admitted (Acc (AccInsert _ _)) = 1"
| "admitted _ = 0"

fun inserted :: "frame \<Rightarrow> nat" where
  "inserted (Acc (AccCount _)) = 1"
| "inserted (Acc (AccActive _)) = 1"
| "inserted _ = 0"

text \<open>A thread handles one accept at a time; below the top of its stack are only calls that wait for the
  frames above them.\<close>

fun accepting :: "frame \<Rightarrow> nat" where
  "accepting (Acc (AccLimit _)) = 1"
| "accepting f = admitted f + inserted f"

fun waiting :: "frame \<Rightarrow> bool" where
  "waiting (Dis (DiscStart _)) = True"
| "waiting (Sto StopWait) = True"
| "waiting _ = False"

text \<open>A frame speaks of accepted sessions and of allocated operations. Inside \<open>Enqueue\<close>, after the
  session limit was tested, the item still fits: only the holder of the lock adds to the counter.\<close>

definition fits_session :: "nat \<Rightarrow> OutboundItem \<Rightarrow> 'app Server \<Rightarrow> bool" where
  "fits_session p item s \<longleftrightarrow>
     unat (se_queued_bytes (sess p s)) + item_bytes item \<le> unat (cfg_max_session_queued_bytes (srv_config s))"

definition item_ok :: "nat \<Rightarrow> OutboundItem \<Rightarrow> 'app Server \<Rightarrow> bool" where
  "item_ok p item s \<longleftrightarrow> p < length (srv_store s) \<and> length (oi_header item) \<le> send_header_capacity"

definition op_ok :: "nat \<Rightarrow> WriteOperation \<Rightarrow> 'app Server \<Rightarrow> bool" where
  "op_ok a w s \<longleftrightarrow> wo_session w < length (srv_store s) \<and> a < length (srv_writes s)"

fun enqueue_ok :: "enqueue_frame \<Rightarrow> 'app Server \<Rightarrow> bool" where
  "enqueue_ok (EnqLock p item) s = item_ok p item s"
| "enqueue_ok (EnqCheck p item) s = item_ok p item s"
| "enqueue_ok (EnqLoad p item) s = (item_ok p item s \<and> fits_session p item s)"
| "enqueue_ok (EnqReserve p item _) s = (item_ok p item s \<and> fits_session p item s)"
| "enqueue_ok (EnqPush p item) s = (item_ok p item s \<and> fits_session p item s)"

fun write_ok :: "write_frame \<Rightarrow> 'app Server \<Rightarrow> bool" where
  "write_ok (NextPop p) s = (p < length (srv_store s))"
| "write_ok (NextNew p item) s = item_ok p item s"
| "write_ok (NextDrop p item) s = item_ok p item s"
| "write_ok (NextRelease p bytes) s = (p < length (srv_store s))"
| "write_ok (NextTrack a w) s = op_ok a w s"
| "write_ok (PostLoad a w) s = op_ok a w s"
| "write_ok (PostSend a w k) s = op_ok a w s"
| "write_ok (WriteHandle a w b n) s = op_ok a w s"
| "write_ok (FinSession a w b) s = op_ok a w s"
| "write_ok (FinGlobal a w b) s = op_ok a w s"
| "write_ok (FinComplete a w b) s = op_ok a w s"

fun disconnect_session :: "disconnect_frame \<Rightarrow> nat" where
  "disconnect_session (DiscStart p) = p"
| "disconnect_session (DiscState p) = p"
| "disconnect_session (DiscRemove p) = p"
| "disconnect_session (DiscSocket p) = p"
| "disconnect_session (DiscClose p _) = p"
| "disconnect_session (DiscLock p) = p"
| "disconnect_session (DiscDrain p _) = p"
| "disconnect_session (DiscItem p _ _) = p"
| "disconnect_session (DiscInbound p) = p"
| "disconnect_session (DiscActive p) = p"
| "disconnect_session (DiscInvoke p) = p"

fun accept_ok :: "accept_frame \<Rightarrow> 'app Server \<Rightarrow> bool" where
  "accept_ok (AccCount p) s = (p < length (srv_store s))"
| "accept_ok (AccActive p) s = (p < length (srv_store s))"
| "accept_ok (AccConnect p) s = (p < length (srv_store s))"
| "accept_ok (ReadNew p) s = (p < length (srv_store s))"
| "accept_ok (ReadTrack p _) s = (p < length (srv_store s))"
| "accept_ok (ReadLoad p _) s = (p < length (srv_store s))"
| "accept_ok (ReadPost p _ _) s = (p < length (srv_store s))"
| "accept_ok (ReadAbort p) s = (p < length (srv_store s))"
| "accept_ok _ s = True"

fun stop_ok :: "stop_frame \<Rightarrow> 'app Server \<Rightarrow> bool" where
  "stop_ok (StopShard k found) s = (\<forall>p \<in> set found. p < length (srv_store s))"
| "stop_ok _ s = True"

fun frame_ok :: "frame \<Rightarrow> 'app Server \<Rightarrow> bool" where
  "frame_ok (Enq f) s = enqueue_ok f s"
| "frame_ok (Wri f) s = write_ok f s"
| "frame_ok (Dis f) s = (disconnect_session f < length (srv_store s))"
| "frame_ok (Acc f) s = accept_ok f s"
| "frame_ok (Sto f) s = stop_ok f s"

subsection \<open>Actions conserve what frames carry\<close>

abbreviation carried :: "(frame \<Rightarrow> nat) \<Rightarrow> frame list \<Rightarrow> nat" where
  "carried g fs \<equiv> sum_list (map g fs)"

text \<open>Bytes of a session in its queue and with the kernel, and of all sessions.\<close>

definition resting :: "nat \<Rightarrow> 'app Server \<Rightarrow> nat" where
  "resting p s = queue_total (sess p s) + flying p (srv_writes s)"

definition resting_global :: "'app Server \<Rightarrow> nat" where
  "resting_global s = sum_list (map queue_total (srv_store s)) + osum (\<lambda>w. sc_TotalSize (wo_cursor w)) (srv_writes s)"

lemma frame_exhaust:
  obtains
    (EnqLock) x y where "f = Enq (EnqLock x y)"
  | (EnqCheck) x y where "f = Enq (EnqCheck x y)"
  | (EnqLoad) x y where "f = Enq (EnqLoad x y)"
  | (EnqReserve) x y z where "f = Enq (EnqReserve x y z)"
  | (EnqPush) x y where "f = Enq (EnqPush x y)"
  | (NextPop) x where "f = Wri (NextPop x)"
  | (NextNew) x y where "f = Wri (NextNew x y)"
  | (NextDrop) x y where "f = Wri (NextDrop x y)"
  | (NextRelease) x y where "f = Wri (NextRelease x y)"
  | (NextTrack) x y where "f = Wri (NextTrack x y)"
  | (PostLoad) x y where "f = Wri (PostLoad x y)"
  | (PostSend) x y z where "f = Wri (PostSend x y z)"
  | (WriteHandle) x y z u where "f = Wri (WriteHandle x y z u)"
  | (FinSession) x y z where "f = Wri (FinSession x y z)"
  | (FinGlobal) x y z where "f = Wri (FinGlobal x y z)"
  | (FinComplete) x y z where "f = Wri (FinComplete x y z)"
  | (DiscStart) x where "f = Dis (DiscStart x)"
  | (DiscState) x where "f = Dis (DiscState x)"
  | (DiscRemove) x where "f = Dis (DiscRemove x)"
  | (DiscSocket) x where "f = Dis (DiscSocket x)"
  | (DiscClose) x y where "f = Dis (DiscClose x y)"
  | (DiscLock) x where "f = Dis (DiscLock x)"
  | (DiscDrain) x y where "f = Dis (DiscDrain x y)"
  | (DiscItem) x y z where "f = Dis (DiscItem x y z)"
  | (DiscInbound) x where "f = Dis (DiscInbound x)"
  | (DiscActive) x where "f = Dis (DiscActive x)"
  | (DiscInvoke) x where "f = Dis (DiscInvoke x)"
  | (AccRunning) x where "f = Acc (AccRunning x)"
  | (AccLimit) x where "f = Acc (AccLimit x)"
  | (AccOption) x where "f = Acc (AccOption x)"
  | (AccAssociate) x where "f = Acc (AccAssociate x)"
  | (AccId) x where "f = Acc (AccId x)"
  | (AccGeneration) x y where "f = Acc (AccGeneration x y)"
  | (AccInsert) x y where "f = Acc (AccInsert x y)"
  | (AccCount) x where "f = Acc (AccCount x)"
  | (AccActive) x where "f = Acc (AccActive x)"
  | (AccConnect) x where "f = Acc (AccConnect x)"
  | (AccClose) x where "f = Acc (AccClose x)"
  | (ReadNew) x where "f = Acc (ReadNew x)"
  | (ReadTrack) x y where "f = Acc (ReadTrack x y)"
  | (ReadLoad) x y where "f = Acc (ReadLoad x y)"
  | (ReadPost) x y z where "f = Acc (ReadPost x y z)"
  | (ReadAbort) x where "f = Acc (ReadAbort x)"
  | (StopExchange) "f = Sto StopExchange"
  | (StopFlag) "f = Sto StopFlag"
  | (StopListen) "f = Sto StopListen"
  | (StopShard) x y where "f = Sto (StopShard x y)"
  | (StopWait) "f = Sto StopWait"
proof (cases f)
  case (Enq e)
  with that(1-5) show thesis by (cases e) simp_all
next
  case (Wri w)
  with that(6-16) show thesis by (cases w) simp_all
next
  case (Dis d)
  with that(17-27) show thesis by (cases d) simp_all
next
  case (Acc a)
  with that(28-43) show thesis by (cases a) simp_all
next
  case (Sto t)
  with that(44-48) show thesis by (cases t) simp_all
qed

text \<open>Whatever an action does, if it need not wait.\<close>

definition ensures :: "'app effect \<Rightarrow> (frame list \<Rightarrow> 'app Server \<Rightarrow> nat set \<Rightarrow> bool) \<Rightarrow> bool" where
  "ensures e P \<longleftrightarrow> (\<forall>fs s L. e = Some (fs, s, L) \<longrightarrow> P fs s L)"

lemma ensures_simps [simp]:
  "ensures None P"
  "ensures (Some (fs, s, L)) P = P fs s L"
  "ensures (if c then e1 else e2) P = (if c then ensures e1 P else ensures e2 P)"
  "ensures (Some (if c then x else y)) P = (if c then ensures (Some x) P else ensures (Some y) P)"
  by (auto simp: ensures_def)

lemmas action_simps = refused_def o_def Let_def draw_def MonotonicMilliseconds_def ReleaseGlobalQueued_def send_failure_def
  count_rejected_def closesocket_def TrackOperation_def CompleteOperation_def fail_def StopEnd_def item_ok_def op_ok_def

lemmas action_splits = list.split prod.split sum.split option.split

lemma exec_locks:
  "locks_of p f \<le> of_bool (p \<in> L) \<Longrightarrow>
   ensures (exec hs f s L) (\<lambda>fs s' L'. of_bool (p \<in> L') + locks_of p f = of_bool (p \<in> L) + carried (locks_of p) fs)"
  by (cases f rule: frame_exhaust) (simp_all add: action_simps split: action_splits)

text \<open>An address is owned by one thread or by the kernel, and then its operation is on the heap.\<close>

definition with_kernel :: "nat \<Rightarrow> 'app Server \<Rightarrow> nat" where
  "with_kernel a s = of_bool (a < length (srv_writes s) \<and> srv_writes s ! a \<noteq> None)"

lemma exec_owns:
  "frame_ok f s \<Longrightarrow> owns a f + with_kernel a s \<le> 1 \<Longrightarrow>
   ensures (exec hs f s L) (\<lambda>fs s' L'.
     carried (owns a) fs + with_kernel a s' \<le> owns a f + with_kernel a s + of_bool (a = length (srv_writes s)))"
  by (cases f rule: frame_exhaust)
    (simp_all add: action_simps with_kernel_def nth_append nth_list_update split: action_splits)

lemma osum_post:
  "with_kernel a s = 0 \<Longrightarrow> a < length (srv_writes s) \<Longrightarrow>
   osum g ((srv_writes s)[a := Some w]) = osum g (srv_writes s) + g w"
  using osum_update [of a "srv_writes s" g "Some w"] by (auto simp: with_kernel_def split: option.splits)

lemma item_cursor:
  "length (oi_header item) \<le> send_header_capacity \<Longrightarrow> sc_new (oi_header item) (Some (oi_payload item)) = Inr cur \<Longrightarrow>
   sc_TotalSize cur = item_bytes item"
  by (auto simp: sc_new_def sc_TotalSize_def item_bytes_def)

lemma item_cursor_error:
  "length (oi_header item) \<le> send_header_capacity \<Longrightarrow> sc_new (oi_header item) (Some (oi_payload item)) \<noteq> Inl e"
  by (simp add: sc_new_def)

lemma TotalSize_Consume [simp]: "sc_TotalSize (sc_Consume n c) = sc_TotalSize c"
  by (simp add: sc_Consume_def sc_TotalSize_def Let_def)

lemma fits_session_add:
  "fits_session p item s \<Longrightarrow>
   unat (se_queued_bytes (srv_store s ! p) + of_nat (item_bytes item)) = unat (se_queued_bytes (srv_store s ! p)) + item_bytes item"
  unfolding fits_session_def sess_def by (rule unat_add_of_nat)

lemma exec_session:
  assumes "frame_ok f s" and "\<And>a. owns a f = 1 \<Longrightarrow> with_kernel a s = 0" and "p < length (srv_store s)"
    and "owed p f \<le> unat (se_queued_bytes (sess p s))"
  shows "ensures (exec hs f s L) (\<lambda>fs s' L'.
     unat (se_queued_bytes (sess p s')) + resting p s + owed p f = unat (se_queued_bytes (sess p s)) + resting p s' + carried (owed p) fs)"
  using assms
proof (cases f rule: frame_exhaust)
  case (EnqPush q item)
  with assms show ?thesis by (auto simp: fits_session_add resting_def queue_total_def sess_def nth_list_update item_ok_def)
qed (simp_all add: action_simps resting_def flying_def queue_total_def sess_def nth_list_update nth_append osum_post item_cursor
      item_cursor_error unat_sub_of_nat split: action_splits if_split_asm)

text \<open>The reservation of \<open>Enqueue\<close>: a compare-and-swap that succeeds keeps the global limit.\<close>

lemma not_exceeds: "\<not> exceeds n used limit \<longleftrightarrow> unat used + n \<le> unat limit"
  by (auto simp: exceeds_def)

lemma not_exceeds_add: "\<not> exceeds n used limit \<Longrightarrow> unat (used + of_nat n) = unat used + n"
  unfolding not_exceeds by (rule unat_add_of_nat)

lemma queue_total_update [simp]:
  "queue_total (c\<lparr>se_send_queue := q\<rparr>) = sum_list (map item_bytes q)"
  "queue_total (c\<lparr>se_queued_bytes := n\<rparr>) = queue_total c"
  "queue_total (c\<lparr>se_write_active := b\<rparr>) = queue_total c"
  "queue_total (c\<lparr>se_disconnect_started := b\<rparr>) = queue_total c"
  "queue_total (c\<lparr>se_inbound_accounted := n\<rparr>) = queue_total c"
  "queue_total (c\<lparr>se_state := st\<rparr>) = queue_total c"
  "queue_total (c\<lparr>se_socket := k\<rparr>) = queue_total c"
  "queue_total (new_session h socket config now) = 0"
  by (simp_all add: queue_total_def new_session_def)

lemma sum_queues_keep [simp]:
  "p < length xs \<Longrightarrow> queue_total c = queue_total (xs ! p) \<Longrightarrow>
   sum_list (map queue_total (xs[p := c])) = sum_list (map queue_total xs)"
  by (simp add: map_update_same)

lemma resting_global_set_sess:
  "p < length (srv_store s) \<Longrightarrow>
   resting_global (set_sess p f s) + queue_total (sess p s) = resting_global s + queue_total (f (sess p s))"
  using sum_list_map_update [of p "srv_store s" queue_total "f (srv_store s ! p)"]
  by (simp add: resting_global_def set_sess_def sess_def)

lemma exec_global:
  assumes "frame_ok f s" and "\<And>a. owns a f = 1 \<Longrightarrow> with_kernel a s = 0"
    and "owed_global f \<le> unat (m_queued_bytes (srv_metrics s))"
  shows "ensures (exec hs f s L) (\<lambda>fs s' L'.
     unat (m_queued_bytes (srv_metrics s')) + resting_global s + owed_global f =
     unat (m_queued_bytes (srv_metrics s)) + resting_global s' + carried owed_global fs)"
  using assms
proof (cases f rule: frame_exhaust)
  case (EnqPush p item)
  then show ?thesis using assms resting_global_set_sess [of p s "\<lambda>c. c\<lparr>se_queued_bytes := se_queued_bytes c + of_nat (item_bytes item),
      se_send_queue := se_send_queue c @ [item], se_write_active := True\<rparr>"]
    by (simp add: item_ok_def resting_global_def queue_total_def)
next
  case (NextPop p)
  then show ?thesis using assms resting_global_set_sess [of p s "\<lambda>c. c\<lparr>se_send_queue := tl (se_send_queue c)\<rparr>"]
    by (cases "se_send_queue (sess p s)") (simp_all add: resting_global_def queue_total_def sess_def)
next
  case (NextNew p item)
  then show ?thesis using assms by (auto simp: action_simps resting_global_def item_cursor item_cursor_error split: sum.splits)
next
  case (DiscLock p)
  then show ?thesis using assms resting_global_set_sess [of p s "\<lambda>c. c\<lparr>se_send_queue := []\<rparr>"]
    by (simp add: queue_total_def)
next
  case (DiscDrain p items)
  then show ?thesis using assms by (cases items) (simp_all add: action_simps resting_global_def unat_sub_of_nat)
qed (simp_all add: action_simps resting_global_def set_sess_def sess_def osum_post item_cursor
      not_exceeds_add item_cursor_error unat_sub_of_nat split: action_splits if_split_asm)

lemma exec_limits:
  assumes "frame_ok f s" and "owed_global f \<le> unat (m_queued_bytes (srv_metrics s))"
    and "unat (m_queued_bytes (srv_metrics s)) \<le> unat (cfg_max_global_queued_bytes (srv_config s))"
  shows "ensures (exec hs f s L) (\<lambda>fs s' L'. srv_config s' = srv_config s \<and> length (srv_store s) \<le> length (srv_store s') \<and>
    length (srv_writes s) \<le> length (srv_writes s') \<and>
    unat (m_queued_bytes (srv_metrics s')) \<le> unat (cfg_max_global_queued_bytes (srv_config s)))"
  using assms
proof (cases f rule: frame_exhaust)
  case (DiscDrain p items)
  then show ?thesis using assms by (cases items) (simp_all add: action_simps unat_sub_of_nat)
qed (simp_all add: action_simps not_exceeds_add not_exceeds unat_sub_of_nat split: action_splits if_split_asm)

text \<open>Only the holder of the lock adds to the counter of a session.\<close>

lemma exec_queued:
  assumes "frame_ok f s" and "p < length (srv_store s)" and "owed p f \<le> unat (se_queued_bytes (sess p s))"
    and "unat (se_queued_bytes (sess p s)) \<le> unat (cfg_max_session_queued_bytes (srv_config s))"
  shows "ensures (exec hs f s L) (\<lambda>fs s' L'.
    (locks_of p f = 0 \<longrightarrow> unat (se_queued_bytes (sess p s')) \<le> unat (se_queued_bytes (sess p s))) \<and>
    unat (se_queued_bytes (sess p s')) \<le> unat (cfg_max_session_queued_bytes (srv_config s)))"
  using assms
proof (cases f rule: frame_exhaust)
  case (EnqPush q item)
  with assms show ?thesis by (auto simp: fits_session_add fits_session_def sess_def nth_list_update item_ok_def)
qed (auto simp: action_simps sess_def nth_list_update nth_append unat_sub_of_nat split: action_splits if_split_asm)

subsection \<open>Frames stay meaningful\<close>

definition queue_ok :: "'app Server \<Rightarrow> bool" where
  "queue_ok s \<longleftrightarrow> (\<forall>p < length (srv_store s). \<forall>item \<in> set (se_send_queue (srv_store s ! p)).
     length (oi_header item) \<le> send_header_capacity)"

definition registry_ok :: "'app Server \<Rightarrow> bool" where
  "registry_ok s \<longleftrightarrow> sr_wf (srv_sessions s) \<and> ran (sr_entries (srv_sessions s)) \<subseteq> {..<length (srv_store s)}"

lemma exec_queue_ok:
  assumes "frame_ok f s" and "queue_ok s"
  shows "ensures (exec hs f s L) (\<lambda>fs s' L'. queue_ok s')"
  using assms
proof (cases f rule: frame_exhaust)
  case (NextPop p)
  with assms show ?thesis
    by (cases "se_send_queue (sess p s)") (auto simp: queue_ok_def sess_def nth_list_update)
next
  case (EnqPush p item)
  with assms show ?thesis by (auto simp: item_ok_def queue_ok_def nth_list_update)
next
  case (AccInsert k h)
  with assms show ?thesis by (auto simp: queue_ok_def MonotonicMilliseconds_def new_session_def nth_append)
qed (auto simp: action_simps queue_ok_def nth_list_update split: action_splits if_split_asm)

definition ops_ok :: "'app Server \<Rightarrow> bool" where
  "ops_ok s \<longleftrightarrow> (\<forall>w. Some w \<in> set (srv_writes s) \<longrightarrow> wo_session w < length (srv_store s))"

lemma exec_ops_ok:
  assumes "frame_ok f s" and "ops_ok s"
  shows "ensures (exec hs f s L) (\<lambda>fs s' L'. ops_ok s')"
  using assms
proof (cases f rule: frame_exhaust)
  case (PostSend a w k)
  with assms show ?thesis
    by (auto simp: action_simps ops_ok_def dest!: set_update_subset_insert [THEN subsetD])
qed (auto simp: action_simps ops_ok_def less_SucI split: action_splits if_split_asm)

lemma exec_registry_ok:
  assumes "frame_ok f s" and "registry_ok s"
  shows "ensures (exec hs f s L) (\<lambda>fs s' L'. registry_ok s')"
  using assms
proof (cases f rule: frame_exhaust)
  case (DiscRemove p)
  let ?r = "sr_Remove (deref s) (se_handle (sess p s)) (srv_sessions s)"
  have "sr_wf (srv_sessions s)" using assms(2) by (simp add: registry_ok_def)
  from sr.remove_entries [OF this, of "deref s" "se_handle (sess p s)"]
  have "ran (sr_entries ?r) \<subseteq> ran (sr_entries (srv_sessions s))" by (auto simp: ran_def)
  with DiscRemove assms show ?thesis by (auto simp: registry_ok_def sr.remove_wf)
next
  case (AccInsert k h)
  have "ran (sr_entries (sr_Insert h p r)) \<subseteq> insert p (ran (sr_entries r))" if "sr_wf r" for p and r :: "nat registry"
    using sr.insert_entries [OF that, of h p] by (auto simp: ran_def)
  with AccInsert assms show ?thesis
    by (fastforce simp: registry_ok_def MonotonicMilliseconds_def sr.insert_wf)
qed (simp_all add: action_simps registry_ok_def split: action_splits if_split_asm)

text \<open>The frames an action leaves are meaningful, and so stay those of the other threads.\<close>

lemma exec_frames_ok:
  assumes "frame_ok f s" and "queue_ok s" and "registry_ok s"
  shows "ensures (exec hs f s L) (\<lambda>fs s' L'. \<forall>g \<in> set fs. frame_ok g s')"
  using assms
proof (cases f rule: frame_exhaust)
  case (NextPop p)
  with assms show ?thesis
    by (cases "se_send_queue (sess p s)") (auto simp: item_ok_def queue_ok_def sess_def)
next
  case (StopShard k found)
  have "set (map snd (srv_sessions s ! k)) \<subseteq> {..<length (srv_store s)}" if "k < ShardCount"
  proof -
    have "srv_sessions s ! k \<in> set (srv_sessions s)" using that assms(3) by (simp add: registry_ok_def sr_wf_def)
    then have "set (map snd (srv_sessions s ! k)) \<subseteq> set (sr_Snapshot (srv_sessions s))" by (auto simp: sr_Snapshot_def)
    then show ?thesis using assms(3) sr.snapshot_entries by (fastforce simp: registry_ok_def)
  qed
  with StopShard assms show ?thesis by auto
qed (auto simp: action_simps fits_session_def not_exceeds split: action_splits if_split_asm)

lemma exec_other_ok:
  assumes "frame_ok f s" and "frame_ok g s" and "\<And>p. locks_of p f + locks_of p g \<le> 1"
    and "\<And>p. p < length (srv_store s) \<Longrightarrow> owed p f \<le> unat (se_queued_bytes (sess p s))"
    and "\<And>p. p < length (srv_store s) \<Longrightarrow> unat (se_queued_bytes (sess p s)) \<le> unat (cfg_max_session_queued_bytes (srv_config s))"
    and "owed_global f \<le> unat (m_queued_bytes (srv_metrics s))"
    and "unat (m_queued_bytes (srv_metrics s)) \<le> unat (cfg_max_global_queued_bytes (srv_config s))"
    and "exec hs f s L = Some (fs, s', L')"
  shows "frame_ok g s'"
proof -
  have grow: "srv_config s' = srv_config s" "length (srv_store s) \<le> length (srv_store s')" "length (srv_writes s) \<le> length (srv_writes s')"
    using exec_limits [OF assms(1,6,7), of hs L] assms(8) by simp_all
  have "fits_session p item s'" if "locks_of p g = 1" "fits_session p item s" "p < length (srv_store s)" for p item
  proof -
    have "locks_of p f = 0" using assms(3) [of p] that(1) by simp
    then show ?thesis using exec_queued [OF assms(1) that(3) assms(4) [OF that(3)] assms(5) [OF that(3)], of hs L] assms(8) that(2) grow(1)
      by (simp add: fits_session_def)
  qed
  with assms(2) grow show ?thesis
    by (cases g rule: frame_exhaust) (auto simp: item_ok_def op_ok_def)
qed

lemma exec_waiting: "ensures (exec hs f s L) (\<lambda>fs s' L'. \<forall>g \<in> set (tl fs). waiting g)"
proof (cases f rule: frame_exhaust)
  case (StopShard k found)
  then show ?thesis by (cases found) auto
qed (simp_all add: action_simps split: action_splits)

subsection \<open>Writers\<close>

text \<open>With \<open>n\<close> frames that have the right to write and \<open>d\<close> pending calls of \<open>Disconnect\<close>: there is at most
  one writer, the kernel included; a queue that is not empty has one, unless the session is dead or
  about to be disconnected.\<close>

definition writer_ok :: "nat \<Rightarrow> 'app Server \<Rightarrow> nat \<Rightarrow> nat \<Rightarrow> bool" where
  "writer_ok p s n d \<longleftrightarrow>
     n + writes_of p (srv_writes s) \<le> 1 \<and>
     (n + writes_of p (srv_writes s) = 1 \<longrightarrow> se_write_active (sess p s)) \<and>
     (se_write_active (sess p s) \<and> n + writes_of p (srv_writes s) = 0 \<longrightarrow> se_disconnect_started (sess p s) \<or> 0 < d) \<and>
     (se_send_queue (sess p s) \<noteq> [] \<longrightarrow> se_write_active (sess p s))"

lemma exec_writer:
  assumes "frame_ok f s" and "\<And>a. owns a f = 1 \<Longrightarrow> with_kernel a s = 0" and "p < length (srv_store s)"
    and "writer_ok p s (n + writers_of p f) (d + calls_of p f)"
  shows "ensures (exec hs f s L) (\<lambda>fs s' L'. writer_ok p s' (n + carried (writers_of p) fs) (d + carried (calls_of p) fs))"
  using assms
  by (cases f rule: frame_exhaust)
    (auto simp: action_simps writer_ok_def writes_of_def sess_def nth_list_update nth_append osum_post item_cursor_error
      split: action_splits if_split_asm)

text \<open>With \<open>r\<close> frames of \<open>Disconnect\<close> before the queue is emptied and \<open>e\<close> frames of \<open>Enqueue\<close> that found
  the session alive: when neither is left, the queue of a dead session is empty for good.\<close>

definition drain_ok :: "nat \<Rightarrow> 'app Server \<Rightarrow> nat \<Rightarrow> nat \<Rightarrow> bool" where
  "drain_ok p s r e \<longleftrightarrow>
     r \<le> 1 \<and> (\<not> se_disconnect_started (sess p s) \<longrightarrow> r = 0) \<and>
     (se_disconnect_started (sess p s) \<and> r = 0 \<longrightarrow> se_send_queue (sess p s) = [] \<and> e = 0)"

lemma exec_drain:
  assumes "frame_ok f s" and "p < length (srv_store s)" and "e + past_check p f \<le> of_bool (p \<in> L)"
    and "drain_ok p s (r + closing p f) (e + past_check p f)"
  shows "ensures (exec hs f s L) (\<lambda>fs s' L'. drain_ok p s' (r + carried (closing p) fs) (e + carried (past_check p) fs))"
  using assms
  by (cases f rule: frame_exhaust)
    (auto simp: action_simps drain_ok_def sess_def nth_list_update nth_append split: action_splits if_split_asm)

subsection \<open>Connections\<close>

lemma alive_count_keep:
  "p < length xs \<Longrightarrow> alive c = alive (xs ! p) \<Longrightarrow> length (filter alive (xs[p := c])) = length (filter alive xs)"
  by (intro length_filter_cong map_update_same)

lemma active_kill:
  assumes "p < length (srv_store s)" and "alive (sess p s)"
  shows "Suc (active (set_sess p (\<lambda>c. c\<lparr>se_disconnect_started := True\<rparr>) s)) = active s"
  using assms length_filter_update [of p "srv_store s" alive "(srv_store s ! p)\<lparr>se_disconnect_started := True\<rparr>"]
  by (simp add: active_def set_sess_def sess_def alive_def)

lemma exec_active:
  assumes "frame_ok f s"
  shows "ensures (exec hs f s L) (\<lambda>fs s' L'.
     m_active_connections (srv_metrics s') - of_nat (active s' + carried uncounted fs) + of_nat (carried inserted fs) =
     m_active_connections (srv_metrics s) - of_nat (active s + uncounted f) + of_nat (inserted f))"
  using assms
proof (cases f rule: frame_exhaust)
  case (DiscStart p)
  then show ?thesis using assms active_kill [of p s, symmetric] by (auto simp: alive_def algebra_simps)
qed (auto simp: action_simps alive_count_keep alive_def active_def new_session_def algebra_simps split: action_splits if_split_asm)

lemma exec_admitted:
  assumes "frame_ok f s"
  shows "ensures (exec hs f s L) (\<lambda>fs s' L'.
     active s' + carried admitted fs \<le> active s + admitted f +
       of_bool (carried admitted fs = 1 \<and> accepting f = 1 \<and> m_active_connections (srv_metrics s) < cfg_max_connections (srv_config s)
         \<and> admitted f = 0 \<and> inserted f = 0))"
  using assms
proof (cases f rule: frame_exhaust)
  case (DiscStart p)
  then show ?thesis using assms active_kill [of p s] by (auto simp: alive_def)
qed (auto simp: action_simps alive_count_keep alive_def active_def new_session_def split: action_splits if_split_asm)

subsection \<open>New sessions\<close>

text \<open>A session is added fresh, and no frame speaks of it before.\<close>

lemma exec_new:
  "ensures (exec hs f s L) (\<lambda>fs s' L'. length (srv_store s) < length (srv_store s') \<longrightarrow>
     length (srv_store s') = Suc (length (srv_store s)) \<and> srv_writes s' = srv_writes s \<and>
     se_send_queue (sess (length (srv_store s)) s') = [] \<and> se_queued_bytes (sess (length (srv_store s)) s') = 0 \<and>
     \<not> se_write_active (sess (length (srv_store s)) s') \<and> \<not> se_disconnect_started (sess (length (srv_store s)) s') \<and>
     fs = [Acc (AccCount (length (srv_store s)))])"
  by (cases f rule: frame_exhaust)
    (auto simp: action_simps sess_def nth_append new_session_def split: action_splits)

lemma frame_fresh:
  assumes "frame_ok f s" and "length (srv_store s) \<le> p"
  shows "owed p f = 0" and "writers_of p f = 0" and "calls_of p f = 0" and "closing p f = 0" and "past_check p f = 0"
  using assms by (cases f rule: frame_exhaust; auto simp: item_ok_def op_ok_def)+

lemma past_check_locks: "past_check p f \<le> locks_of p f"
  by (cases f rule: frame_exhaust) simp_all

end
