(* ===== verification/Concurrent_Safety.thy ===== *)
theory Concurrent_Safety
  imports Concurrent_Frames
begin

text \<open>
  What holds in every interleaving of the threads: exact byte counters within their limits, at most
  one write per session and no lost wake-up, an empty queue after a disconnect, and a bound on the
  number of connections. The invariant is a sum over the frames of all threads; the lemmas of
  \<open>Concurrent_Frames\<close> say that each action keeps the sum.
\<close>

subsection \<open>Sums over all threads\<close>

definition tally :: "(frame \<Rightarrow> nat) \<Rightarrow> frame list list \<Rightarrow> nat" where
  "tally g ts = sum_list (map (carried g) ts)"

lemma tally_update: "i < length ts \<Longrightarrow> tally g (ts[i := st]) + carried g (ts ! i) = tally g ts + carried g st"
  unfolding tally_def by (rule sum_list_map_update)

lemma tally_run:
  assumes "i < length ts" and "ts ! i = f # rest"
  shows "tally g (ts[i := fs @ rest]) + g f = tally g ts + carried g fs"
  using tally_update [OF assms(1), of g "fs @ rest"] assms(2) by simp

lemma tally_member: "i < length ts \<Longrightarrow> carried g (ts ! i) \<le> tally g ts"
  unfolding tally_def using elem_le_sum_list_map [of "ts ! i" ts "carried g"] by simp

lemma tally_top: "i < length ts \<Longrightarrow> ts ! i = f # rest \<Longrightarrow> g f \<le> tally g ts"
  using tally_member [of i ts g] by simp

lemma tally_le: "(\<And>f. f \<in> set (concat ts) \<Longrightarrow> g f \<le> h f) \<Longrightarrow> tally g ts \<le> tally h ts"
  unfolding tally_def by (intro sum_list_mono) (auto intro!: sum_list_mono)

lemma tally_zero: "(\<And>f. f \<in> set (concat ts) \<Longrightarrow> g f = 0) \<Longrightarrow> tally g ts = 0"
  by (auto simp: tally_def)

lemma tally_idle [simp]: "tally g (replicate n []) = 0"
  by (simp add: tally_def sum_list_replicate)

text \<open>Two frames at different places of the stacks count twice.\<close>

lemma total_two: "f # rest = st \<Longrightarrow> g \<in> set rest \<Longrightarrow> h f + h g \<le> carried h st"
  using elem_le_sum_list_map [of g rest h] by auto

lemma tally_two:
  assumes "i < length ts" and "ts ! i = f # rest" and "g \<in> set rest \<or> (\<exists>j < length ts. j \<noteq> i \<and> g \<in> set (ts ! j))"
  shows "h f + h g \<le> tally h ts"
proof -
  consider "g \<in> set rest" | j where "j < length ts" "j \<noteq> i" "g \<in> set (ts ! j)" using assms(3) by blast
  then show ?thesis
  proof cases
    case 1
    then show ?thesis using total_two [of f rest "ts ! i" g h] tally_member [OF assms(1), of h] assms(2) by simp
  next
    case 2
    have "h f \<le> carried h (ts ! i)" using assms(2) by simp
    moreover have "carried h (ts ! i) + tally h (ts[i := []]) = tally h ts" using tally_update [OF assms(1), of h "[]"] by simp
    moreover have "h g \<le> tally h (ts[i := []])"
      using tally_member [of j "ts[i := []]" h] elem_le_sum_list_map [OF 2(3), of h] 2(1,2) by simp
    ultimately show ?thesis by simp
  qed
qed

subsection \<open>The invariant\<close>

definition frames_inv :: "'app Machine \<Rightarrow> bool" where
  "frames_inv m \<longleftrightarrow>
     (\<forall>f \<in> set (concat (mc_threads m)). frame_ok f (mc_server m)) \<and>
     (\<forall>st \<in> set (mc_threads m). \<forall>f \<in> set (tl st). waiting f) \<and>
     queue_ok (mc_server m) \<and> registry_ok (mc_server m) \<and>
     ops_ok (mc_server m) \<and>
     (\<forall>p. tally (locks_of p) (mc_threads m) = of_bool (p \<in> mc_locks m)) \<and>
     (\<forall>a. tally (owns a) (mc_threads m) + with_kernel a (mc_server m) \<le> 1)"

definition session_bytes :: "nat \<Rightarrow> 'app Server \<Rightarrow> nat \<Rightarrow> bool" where
  "session_bytes p s n \<longleftrightarrow> unat (se_queued_bytes (sess p s)) = resting p s + n \<and>
     unat (se_queued_bytes (sess p s)) \<le> unat (cfg_max_session_queued_bytes (srv_config s))"

definition global_bytes :: "'app Server \<Rightarrow> nat \<Rightarrow> bool" where
  "global_bytes s n \<longleftrightarrow> unat (m_queued_bytes (srv_metrics s)) = resting_global s + n \<and>
     unat (m_queued_bytes (srv_metrics s)) \<le> unat (cfg_max_global_queued_bytes (srv_config s))"

definition bytes_inv :: "'app Machine \<Rightarrow> bool" where
  "bytes_inv m \<longleftrightarrow>
     (\<forall>p < length (srv_store (mc_server m)). session_bytes p (mc_server m) (tally (owed p) (mc_threads m))) \<and>
     global_bytes (mc_server m) (tally owed_global (mc_threads m))"

definition writers_inv :: "'app Machine \<Rightarrow> bool" where
  "writers_inv m \<longleftrightarrow> (\<forall>p < length (srv_store (mc_server m)).
     writer_ok p (mc_server m) (tally (writers_of p) (mc_threads m)) (tally (calls_of p) (mc_threads m)) \<and>
     drain_ok p (mc_server m) (tally (closing p) (mc_threads m)) (tally (past_check p) (mc_threads m)))"

definition machine_inv :: "'app Machine \<Rightarrow> bool" where
  "machine_inv m \<longleftrightarrow> frames_inv m \<and> bytes_inv m \<and> writers_inv m"

subsection \<open>A thread runs\<close>

text \<open>What is known when thread \<open>i\<close> executes its top frame.\<close>

lemma run_facts:
  assumes "machine_inv m" and "i < length (mc_threads m)" and "mc_threads m ! i = f # rest"
  shows "frame_ok f (mc_server m)"
    and "\<And>a. owns a f = 1 \<Longrightarrow> with_kernel a (mc_server m) = 0"
    and "\<And>a. owns a f + with_kernel a (mc_server m) \<le> 1"
    and "\<And>p. locks_of p f \<le> of_bool (p \<in> mc_locks m)"
    and "\<And>p. p < length (srv_store (mc_server m)) \<Longrightarrow> owed p f \<le> unat (se_queued_bytes (sess p (mc_server m)))"
    and "owed_global f \<le> unat (m_queued_bytes (srv_metrics (mc_server m)))"
proof -
  have inv: "frames_inv m" "bytes_inv m" using assms(1) by (simp_all add: machine_inv_def)
  have "f \<in> set (concat (mc_threads m))" using assms(2,3) by (metis UN_I list.set_intros(1) nth_mem set_concat)
  with inv(1) show "frame_ok f (mc_server m)" by (auto simp: frames_inv_def)
  have own: "owns a f + with_kernel a (mc_server m) \<le> 1" for a
  proof -
    have "tally (owns a) (mc_threads m) + with_kernel a (mc_server m) \<le> 1" using inv(1) by (simp add: frames_inv_def)
    then show ?thesis using tally_top [OF assms(2,3), of "owns a"] by linarith
  qed
  then show "owns a f + with_kernel a (mc_server m) \<le> 1" for a .
  show "owns a f = 1 \<Longrightarrow> with_kernel a (mc_server m) = 0" for a using own [of a] by simp
  show "locks_of p f \<le> of_bool (p \<in> mc_locks m)" for p
    using inv(1) tally_top [OF assms(2,3), of "locks_of p"] by (simp add: frames_inv_def)
  show "owed p f \<le> unat (se_queued_bytes (sess p (mc_server m)))" if "p < length (srv_store (mc_server m))" for p
    using inv(2) that tally_top [OF assms(2,3), of "owed p"] by (auto simp: bytes_inv_def session_bytes_def)
  show "owed_global f \<le> unat (m_queued_bytes (srv_metrics (mc_server m)))"
    using inv(2) tally_top [OF assms(2,3), of owed_global] by (auto simp: bytes_inv_def global_bytes_def)
qed

text \<open>The machine after thread \<open>i\<close> has executed its top frame.\<close>

abbreviation stepped :: "'app Machine \<Rightarrow> nat \<Rightarrow> frame list \<Rightarrow> frame list \<Rightarrow> 'app Server \<Rightarrow> nat set \<Rightarrow> 'app Machine" where
  "stepped m i fs rest s L \<equiv> \<lparr>mc_server = s, mc_locks = L, mc_threads = (mc_threads m)[i := fs @ rest]\<rparr>"

lemma run_limits:
  assumes "machine_inv m"
  shows "unat (m_queued_bytes (srv_metrics (mc_server m))) \<le> unat (cfg_max_global_queued_bytes (srv_config (mc_server m)))"
    and "p < length (srv_store (mc_server m)) \<Longrightarrow>
      unat (se_queued_bytes (sess p (mc_server m))) \<le> unat (cfg_max_session_queued_bytes (srv_config (mc_server m)))"
  using assms unfolding machine_inv_def bytes_inv_def session_bytes_def global_bytes_def by blast+

lemma in_stepped:
  assumes "i < length ts" and "ts ! i = f # rest" and "g \<in> set (concat (ts[i := fs @ rest]))" and "g \<notin> set fs"
  shows "g \<in> set rest \<or> (\<exists>j < length ts. j \<noteq> i \<and> g \<in> set (ts ! j))" and "g \<in> set (concat ts)"
proof -
  show *: "g \<in> set rest \<or> (\<exists>j < length ts. j \<noteq> i \<and> g \<in> set (ts ! j))"
  proof -
    obtain j where j: "j < length ts" "g \<in> set (ts[i := fs @ rest] ! j)"
      using assms(3) by (auto simp: set_conv_nth [of "ts[i := fs @ rest]"])
    then show ?thesis using assms(1,4) by (cases "j = i") auto
  qed
  have "set rest \<subseteq> set (ts ! i)" using assms(2) by auto
  with * show "g \<in> set (concat ts)" using assms(1) by (auto simp: set_conv_nth [of ts])
qed

lemma run_frame_ok:
  assumes "machine_inv m" and "i < length (mc_threads m)" and "mc_threads m ! i = f # rest"
    and "exec hs f (mc_server m) (mc_locks m) = Some (fs, s, L)"
    and "g \<in> set (concat ((mc_threads m)[i := fs @ rest]))"
  shows "frame_ok g s"
proof (cases "g \<in> set fs")
  case True
  then show ?thesis using exec_frames_ok [OF run_facts(1) [OF assms(1-3)], of hs "mc_locks m"] assms(1,4)
    by (simp add: machine_inv_def frames_inv_def)
next
  case False
  note place = in_stepped [OF assms(2,3,5) False]
  have "frame_ok g (mc_server m)" using place(2) assms(1) by (auto simp: machine_inv_def frames_inv_def)
  moreover have "locks_of p f + locks_of p g \<le> 1" for p
  proof -
    have "tally (locks_of p) (mc_threads m) \<le> 1" using assms(1) by (simp add: machine_inv_def frames_inv_def)
    then show ?thesis using tally_two [OF assms(2,3) place(1), of "locks_of p"] by simp
  qed
  ultimately show ?thesis
    using exec_other_ok [OF run_facts(1) [OF assms(1-3)] _ _ run_facts(5) [OF assms(1-3)] run_limits(2) [OF assms(1)]
        run_facts(6) [OF assms(1-3)] run_limits(1) [OF assms(1)] assms(4)] by blast
qed

lemma run_waiting:
  assumes "machine_inv m" and "i < length (mc_threads m)" and "mc_threads m ! i = f # rest"
    and "exec hs f (mc_server m) (mc_locks m) = Some (fs, s, L)"
    and "st \<in> set ((mc_threads m)[i := fs @ rest])" and "g \<in> set (tl st)"
  shows "waiting g"
proof -
  have old: "\<forall>st \<in> set (mc_threads m). \<forall>f \<in> set (tl st). waiting f" using assms(1) by (simp add: machine_inv_def frames_inv_def)
  with assms(2,3) have "\<forall>g \<in> set rest. waiting g" by (metis list.sel(3) nth_mem)
  moreover have "\<forall>g \<in> set (tl fs). waiting g" using exec_waiting [of hs f "mc_server m" "mc_locks m"] assms(4) by simp
  ultimately have "\<forall>g \<in> set (tl (fs @ rest)). waiting g" by (cases fs; cases rest) auto
  moreover have "st = fs @ rest \<or> st \<in> set (mc_threads m)" using assms(5) set_update_subset_insert by fastforce
  ultimately show ?thesis using old assms(6) by blast
qed

lemma run_owners:
  assumes "machine_inv m" and "i < length (mc_threads m)" and "mc_threads m ! i = f # rest"
    and "exec hs f (mc_server m) (mc_locks m) = Some (fs, s, L)"
  shows "tally (owns a) ((mc_threads m)[i := fs @ rest]) + with_kernel a s \<le> 1"
proof -
  have e: "carried (owns a) fs + with_kernel a s \<le>
      owns a f + with_kernel a (mc_server m) + of_bool (a = length (srv_writes (mc_server m)))"
    using exec_owns [OF run_facts(1,3) [OF assms(1-3)], of hs "mc_locks m" a] assms(4) by simp
  have o: "tally (owns a) (mc_threads m) + with_kernel a (mc_server m) \<le> 1"
    using assms(1) by (simp add: machine_inv_def frames_inv_def)
  have "tally (owns a) (mc_threads m) = 0" if "a = length (srv_writes (mc_server m))"
  proof (rule tally_zero)
    fix g assume "g \<in> set (concat (mc_threads m))"
    then have "frame_ok g (mc_server m)" using assms(1) by (auto simp: machine_inv_def frames_inv_def)
    then show "owns a g = 0" using that by (cases g rule: frame_exhaust) (simp_all add: op_ok_def)
  qed
  moreover have "with_kernel a (mc_server m) = 0" if "a = length (srv_writes (mc_server m))"
    using that by (simp add: with_kernel_def)
  ultimately show ?thesis using e o tally_run [OF assms(2,3), of "owns a" fs]
    by (cases "a = length (srv_writes (mc_server m))") simp_all
qed

lemma run_frames:
  assumes "machine_inv m" and "i < length (mc_threads m)" and "mc_threads m ! i = f # rest"
    and "exec hs f (mc_server m) (mc_locks m) = Some (fs, s, L)"
  shows "frames_inv (stepped m i fs rest s L)"
proof -
  note ok = run_facts(1) [OF assms(1-3)]
  have old: "queue_ok (mc_server m)" "registry_ok (mc_server m)" "ops_ok (mc_server m)"
    "\<And>p. tally (locks_of p) (mc_threads m) = of_bool (p \<in> mc_locks m)"
    using assms(1) by (simp_all add: machine_inv_def frames_inv_def)
  have "queue_ok s" using exec_queue_ok [OF ok old(1), of hs "mc_locks m"] assms(4) by simp
  moreover have "registry_ok s" using exec_registry_ok [OF ok old(2), of hs "mc_locks m"] assms(4) by simp
  moreover have "ops_ok s" using exec_ops_ok [OF ok old(3), of hs "mc_locks m"] assms(4) by simp
  moreover have "tally (locks_of p) ((mc_threads m)[i := fs @ rest]) = of_bool (p \<in> L)" for p
    using exec_locks [OF run_facts(4) [OF assms(1-3), of p], of hs "mc_server m"] assms(4)
      tally_run [OF assms(2,3), of "locks_of p" fs] old(4) [of p] by simp
  ultimately show ?thesis
    using run_frame_ok [OF assms] run_waiting [OF assms] run_owners [OF assms] unfolding frames_inv_def by simp
qed

text \<open>Nothing speaks of a session before it is added.\<close>

lemma ops_fresh: "ops_ok s \<Longrightarrow> length (srv_store s) \<le> p \<Longrightarrow> flying p (srv_writes s) = 0 \<and> writes_of p (srv_writes s) = 0"
  by (force simp: ops_ok_def flying_def writes_of_def osum_def split: option.splits)

lemma tally_fresh:
  assumes "machine_inv m" and "length (srv_store (mc_server m)) \<le> p"
  shows "tally (owed p) (mc_threads m) = 0" and "tally (writers_of p) (mc_threads m) = 0" and "tally (calls_of p) (mc_threads m) = 0"
    and "tally (closing p) (mc_threads m) = 0" and "tally (past_check p) (mc_threads m) = 0"
proof -
  have "\<forall>f \<in> set (concat (mc_threads m)). frame_ok f (mc_server m)" using assms(1) by (simp add: machine_inv_def frames_inv_def)
  then show "tally (owed p) (mc_threads m) = 0" "tally (writers_of p) (mc_threads m) = 0" "tally (calls_of p) (mc_threads m) = 0"
    "tally (closing p) (mc_threads m) = 0" "tally (past_check p) (mc_threads m) = 0"
    using frame_fresh [OF _ assms(2)] by (blast intro: tally_zero)+
qed

lemma run_new:
  assumes "machine_inv m" and "i < length (mc_threads m)" and "mc_threads m ! i = f # rest"
    and "exec hs f (mc_server m) (mc_locks m) = Some (fs, s, L)"
    and "p < length (srv_store s)" and "\<not> p < length (srv_store (mc_server m))"
  shows "se_send_queue (sess p s) = []" and "se_queued_bytes (sess p s) = 0" and "\<not> se_write_active (sess p s)"
    and "\<not> se_disconnect_started (sess p s)" and "flying p (srv_writes s) = 0" and "writes_of p (srv_writes s) = 0"
    and "tally (owed p) ((mc_threads m)[i := fs @ rest]) = 0" and "tally (writers_of p) ((mc_threads m)[i := fs @ rest]) = 0"
    and "tally (closing p) ((mc_threads m)[i := fs @ rest]) = 0" and "tally (past_check p) ((mc_threads m)[i := fs @ rest]) = 0"
proof -
  have "length (srv_store (mc_server m)) < length (srv_store s)" using assms(5,6) by simp
  note grown = exec_new [of hs f "mc_server m" "mc_locks m", unfolded assms(4), simplified, rule_format, OF this]
  then have p: "p = length (srv_store (mc_server m))" using assms(5,6) by simp
  with grown have fs: "fs = [Acc (AccCount p)]" and ws: "srv_writes s = srv_writes (mc_server m)"
    and q: "se_send_queue (sess p s) = []" "se_queued_bytes (sess p s) = 0" "\<not> se_write_active (sess p s)"
      "\<not> se_disconnect_started (sess p s)"
    by simp_all
  show "se_send_queue (sess p s) = []" "se_queued_bytes (sess p s) = 0" "\<not> se_write_active (sess p s)"
    "\<not> se_disconnect_started (sess p s)" by (fact q)+
  have "ops_ok (mc_server m)" using assms(1) by (simp add: machine_inv_def frames_inv_def)
  then show "flying p (srv_writes s) = 0" "writes_of p (srv_writes s) = 0" using ops_fresh [of "mc_server m" p] p ws by simp_all
  have le: "length (srv_store (mc_server m)) \<le> p" using p by simp
  note t = tally_fresh [OF assms(1) le]
  show "tally (owed p) ((mc_threads m)[i := fs @ rest]) = 0" "tally (writers_of p) ((mc_threads m)[i := fs @ rest]) = 0"
    "tally (closing p) ((mc_threads m)[i := fs @ rest]) = 0" "tally (past_check p) ((mc_threads m)[i := fs @ rest]) = 0"
    using tally_run [OF assms(2,3), of "owed p" fs] tally_run [OF assms(2,3), of "writers_of p" fs]
      tally_run [OF assms(2,3), of "closing p" fs] tally_run [OF assms(2,3), of "past_check p" fs] t fs by simp_all
qed

lemma run_bytes:
  assumes "machine_inv m" and "i < length (mc_threads m)" and "mc_threads m ! i = f # rest"
    and "exec hs f (mc_server m) (mc_locks m) = Some (fs, s, L)"
  shows "bytes_inv (stepped m i fs rest s L)"
proof -
  note facts = run_facts [OF assms(1-3)] and lim = run_limits [OF assms(1)]
  have old: "\<And>p. p < length (srv_store (mc_server m)) \<Longrightarrow>
      unat (se_queued_bytes (sess p (mc_server m))) = resting p (mc_server m) + tally (owed p) (mc_threads m)"
    "unat (m_queued_bytes (srv_metrics (mc_server m))) = resting_global (mc_server m) + tally owed_global (mc_threads m)"
    using assms(1) by (simp_all add: machine_inv_def bytes_inv_def session_bytes_def global_bytes_def)
  have cfg: "srv_config s = srv_config (mc_server m)"
    and glim: "unat (m_queued_bytes (srv_metrics s)) \<le> unat (cfg_max_global_queued_bytes (srv_config s))"
    using exec_limits [OF facts(1,6) lim(1), of hs "mc_locks m"] assms(4) by simp_all
  have "unat (m_queued_bytes (srv_metrics s)) = resting_global s + tally owed_global ((mc_threads m)[i := fs @ rest])"
    using exec_global [OF facts(1,2,6), of hs "mc_locks m"] assms(4) old(2) tally_run [OF assms(2,3), of owed_global fs] by simp
  moreover have "unat (se_queued_bytes (sess p s)) = resting p s + tally (owed p) ((mc_threads m)[i := fs @ rest]) \<and>
      unat (se_queued_bytes (sess p s)) \<le> unat (cfg_max_session_queued_bytes (srv_config s))" if p: "p < length (srv_store s)" for p
  proof (cases "p < length (srv_store (mc_server m))")
    case True
    then show ?thesis
      using exec_session [OF facts(1,2) True facts(5) [OF True], of hs "mc_locks m"] assms(4) old(1) [OF True]
        tally_run [OF assms(2,3), of "owed p" fs] cfg
        exec_queued [OF facts(1) True facts(5) [OF True] lim(2) [OF True], of hs "mc_locks m"] by simp
  next
    case False
    then show ?thesis using run_new [OF assms p False] by (simp add: resting_def queue_total_def)
  qed
  ultimately show ?thesis using glim unfolding bytes_inv_def session_bytes_def global_bytes_def Machine.select_convs by blast
qed

lemma run_writers:
  assumes "machine_inv m" and "i < length (mc_threads m)" and "mc_threads m ! i = f # rest"
    and "exec hs f (mc_server m) (mc_locks m) = Some (fs, s, L)"
  shows "writers_inv (stepped m i fs rest s L)"
proof -
  note facts = run_facts [OF assms(1-3)]
  have "writer_ok p s (tally (writers_of p) ((mc_threads m)[i := fs @ rest])) (tally (calls_of p) ((mc_threads m)[i := fs @ rest])) \<and>
      drain_ok p s (tally (closing p) ((mc_threads m)[i := fs @ rest])) (tally (past_check p) ((mc_threads m)[i := fs @ rest]))"
    if p: "p < length (srv_store s)" for p
  proof (cases "p < length (srv_store (mc_server m))")
    case True
    let ?n = "\<lambda>g. tally g (mc_threads m) - g f"
    have sum: "?n g + g f = tally g (mc_threads m)" "?n g + carried g fs = tally g ((mc_threads m)[i := fs @ rest])" for g
      using tally_top [OF assms(2,3), of g] tally_run [OF assms(2,3), of g fs] by simp_all
    have old: "writer_ok p (mc_server m) (?n (writers_of p) + writers_of p f) (?n (calls_of p) + calls_of p f)"
      "drain_ok p (mc_server m) (?n (closing p) + closing p f) (?n (past_check p) + past_check p f)"
      using assms(1) True unfolding sum by (simp_all add: machine_inv_def writers_inv_def)
    have "tally (past_check p) (mc_threads m) \<le> tally (locks_of p) (mc_threads m)" by (rule tally_le) (rule past_check_locks)
    then have "?n (past_check p) + past_check p f \<le> of_bool (p \<in> mc_locks m)"
      using assms(1) unfolding sum by (simp add: machine_inv_def frames_inv_def)
    from exec_drain [OF facts(1) True this old(2), of hs] exec_writer [OF facts(1,2) True old(1), of hs "mc_locks m"]
    show ?thesis using assms(4) by (simp add: sum)
  next
    case False
    then show ?thesis using run_new [OF assms p False] by (simp add: writer_ok_def drain_ok_def)
  qed
  then show ?thesis by (simp add: writers_inv_def)
qed

lemma machine_inv_run:
  assumes "machine_inv m" and "i < length (mc_threads m)" and "mc_threads m ! i = f # rest"
    and "exec hs f (mc_server m) (mc_locks m) = Some (fs, s, L)"
  shows "machine_inv (stepped m i fs rest s L)"
  using run_frames [OF assms] run_bytes [OF assms] run_writers [OF assms] by (simp add: machine_inv_def)

subsection \<open>The other steps\<close>

text \<open>Changes of the stacks alone, after which the frames carry the same.\<close>

lemma machine_inv_threads:
  assumes "machine_inv m" and "\<forall>f \<in> set (concat ts). frame_ok f (mc_server m)" and "\<forall>st \<in> set ts. \<forall>f \<in> set (tl st). waiting f"
    and "\<And>p. tally (locks_of p) ts = tally (locks_of p) (mc_threads m)" and "\<And>a. tally (owns a) ts = tally (owns a) (mc_threads m)"
    and "\<And>p. tally (owed p) ts = tally (owed p) (mc_threads m)" and "tally owed_global ts = tally owed_global (mc_threads m)"
    and "\<And>p. tally (writers_of p) ts = tally (writers_of p) (mc_threads m)" and "\<And>p. tally (closing p) ts = tally (closing p) (mc_threads m)"
    and "\<And>p. tally (past_check p) ts = tally (past_check p) (mc_threads m)"
    and "\<And>p. tally (calls_of p) (mc_threads m) \<le> tally (calls_of p) ts"
  shows "machine_inv (m\<lparr>mc_threads := ts\<rparr>)"
proof -
  have more: "writer_ok p s n d'" if "writer_ok p s n d" "d \<le> d'" for p n d d' and s :: "'a Server"
    using that by (auto simp: writer_ok_def)
  have "writers_inv (m\<lparr>mc_threads := ts\<rparr>)"
    using assms(1) more [OF _ assms(11)] by (simp add: machine_inv_def writers_inv_def assms(8-10))
  moreover have "bytes_inv (m\<lparr>mc_threads := ts\<rparr>)" using assms(1) by (simp add: machine_inv_def bytes_inv_def assms(6,7))
  moreover have "frames_inv (m\<lparr>mc_threads := ts\<rparr>)" using assms(1-3) by (simp add: machine_inv_def frames_inv_def assms(4,5))
  ultimately show ?thesis by (simp add: machine_inv_def)
qed

lemma frames_replaced:
  assumes "i < length ts" and "\<forall>f \<in> set (concat ts). P f" and "\<forall>f \<in> set st. P f"
  shows "\<forall>f \<in> set (concat (ts[i := st])). P f"
  using assms set_update_subset_insert [of ts i st] by fastforce

lemma waiting_replaced:
  assumes "\<forall>st \<in> set ts. \<forall>f \<in> set (tl st). waiting f" and "\<forall>f \<in> set (tl st). waiting f"
  shows "\<forall>st \<in> set (ts[i := st]). \<forall>f \<in> set (tl st). waiting f"
  using assms set_update_subset_insert [of ts i st] by blast

lemma machine_inv_call:
  assumes "machine_inv m" and "i < length (mc_threads m)" and "mc_threads m ! i = []" and "callable f (mc_server m)"
  shows "machine_inv (m\<lparr>mc_threads := (mc_threads m)[i := [f]]\<rparr>)"
proof -
  have "frame_ok f (mc_server m)" "locks_of p f = 0" "owns p f = 0" "owed p f = 0" "owed_global f = 0" "writers_of p f = 0"
    "closing p f = 0" "past_check p f = 0" for p
    using assms(4) by (cases f rule: frame_exhaust; simp add: item_ok_def)+
  moreover have "tally g ((mc_threads m)[i := [f]]) = tally g (mc_threads m) + g f" for g
    using tally_update [OF assms(2), of g "[f]"] assms(3) by simp
  ultimately show ?thesis using assms(1)
    by (intro machine_inv_threads frames_replaced waiting_replaced assms(2)) (simp_all add: machine_inv_def frames_inv_def)
qed

lemma machine_inv_spurious:
  assumes "machine_inv m" and "i < length (mc_threads m)" and "mc_threads m ! i = Enq (EnqReserve p item c) # rest"
  shows "machine_inv (m\<lparr>mc_threads := (mc_threads m)[i := Enq (EnqReserve p item c') # rest]\<rparr>)"
proof -
  let ?ts = "(mc_threads m)[i := Enq (EnqReserve p item c') # rest]"
  have same: "tally g ?ts = tally g (mc_threads m)"
    if "g (Enq (EnqReserve p item c')) = g (Enq (EnqReserve p item c))" for g
    using tally_run [OF assms(2,3), of g "[Enq (EnqReserve p item c')]"] that by simp
  have "set rest \<subseteq> set (concat (mc_threads m))" using assms(2,3) by (auto simp: set_conv_nth [of "mc_threads m"])
  moreover have "\<forall>f \<in> set rest. waiting f" using assms by (metis frames_inv_def list.sel(3) machine_inv_def nth_mem)
  moreover have "tally (locks_of q) ?ts = tally (locks_of q) (mc_threads m)" "tally (owns q) ?ts = tally (owns q) (mc_threads m)"
    "tally (owed q) ?ts = tally (owed q) (mc_threads m)" "tally owed_global ?ts = tally owed_global (mc_threads m)"
    "tally (writers_of q) ?ts = tally (writers_of q) (mc_threads m)" "tally (closing q) ?ts = tally (closing q) (mc_threads m)"
    "tally (past_check q) ?ts = tally (past_check q) (mc_threads m)" "tally (calls_of q) ?ts = tally (calls_of q) (mc_threads m)" for q
    by (rule same; simp)+
  ultimately show ?thesis using assms(1) run_facts(1) [OF assms]
    by (intro machine_inv_threads frames_replaced waiting_replaced assms(2)) (auto simp: machine_inv_def frames_inv_def)
qed

lemma machine_inv_completion:
  assumes inv: "machine_inv m" and i: "i < length (mc_threads m)" "mc_threads m ! i = []"
    and a: "a < length (srv_writes (mc_server m))" "srv_writes (mc_server m) ! a = Some w"
  shows "machine_inv (m\<lparr>mc_server := (mc_server m)\<lparr>srv_writes := (srv_writes (mc_server m))[a := None]\<rparr>,
    mc_threads := (mc_threads m)[i := [Wri (WriteHandle a w ok n)]]\<rparr>)"
proof -
  let ?f = "Wri (WriteHandle a w ok n)" and ?s = "mc_server m" and ?ts = "(mc_threads m)[i := [Wri (WriteHandle a w ok n)]]"
  let ?s' = "(mc_server m)\<lparr>srv_writes := (srv_writes (mc_server m))[a := None]\<rparr>"
  have t: "tally g ?ts = tally g (mc_threads m) + g ?f" for g using tally_update [OF i(1), of g "[?f]"] i(2) by simp
  have sess: "sess p ?s' = sess p ?s" for p by (simp add: sess_def)
  have o: "osum g (srv_writes ?s') + g w = osum g (srv_writes ?s)" for g using osum_delete [OF a, of g] by simp
  have ok: "ops_ok ?s" "\<forall>f \<in> set (concat (mc_threads m)). frame_ok f ?s" "queue_ok ?s" "registry_ok ?s"
      "\<forall>st \<in> set (mc_threads m). \<forall>f \<in> set (tl st). waiting f"
      "\<And>p. tally (locks_of p) (mc_threads m) = of_bool (p \<in> mc_locks m)"
      "\<And>b. tally (owns b) (mc_threads m) + with_kernel b ?s \<le> 1"
    using inv by (simp_all add: machine_inv_def frames_inv_def)
  have "wo_session w < length (srv_store ?s)" using ok(1) a by (metis nth_mem ops_ok_def)
  moreover have "frame_ok f ?s' = frame_ok f ?s" for f
    by (cases f rule: frame_exhaust) (simp_all add: item_ok_def op_ok_def fits_session_def sess)
  ultimately have "\<forall>f \<in> set (concat ?ts). frame_ok f ?s'" using ok(2) a i(1) by (intro frames_replaced) (simp_all add: op_ok_def)
  moreover have "\<forall>st \<in> set ?ts. \<forall>f \<in> set (tl st). waiting f" using ok(5) by (intro waiting_replaced) simp_all
  moreover have "ops_ok ?s'" using ok(1) set_update_subset_insert [of "srv_writes ?s" a None] by (auto simp: ops_ok_def)
  moreover have "queue_ok ?s'" "registry_ok ?s'" using ok(3,4) by (simp_all add: queue_ok_def registry_ok_def)
  moreover have "tally (owns b) ?ts + with_kernel b ?s' \<le> 1" for b
    using ok(7) [of b] a unfolding t by (auto simp: with_kernel_def nth_list_update split: if_splits)
  ultimately have "frames_inv (m\<lparr>mc_server := ?s', mc_threads := ?ts\<rparr>)"
    using ok(6) by (simp add: frames_inv_def t)
  moreover have "bytes_inv (m\<lparr>mc_server := ?s', mc_threads := ?ts\<rparr>)"
  proof -
    have "session_bytes p ?s' (n + owed p ?f) = session_bytes p ?s n" for p n
      using o [of "\<lambda>w. if wo_session w = p then sc_TotalSize (wo_cursor w) else 0"]
      by (auto simp: session_bytes_def resting_def flying_def sess)
    moreover have "global_bytes ?s' (n + owed_global ?f) = global_bytes ?s n" for n
      using o [of "\<lambda>w. sc_TotalSize (wo_cursor w)"] by (auto simp: global_bytes_def resting_global_def)
    ultimately show ?thesis using inv by (simp add: machine_inv_def bytes_inv_def t)
  qed
  moreover have "writers_inv (m\<lparr>mc_server := ?s', mc_threads := ?ts\<rparr>)"
  proof -
    have "writer_ok p ?s' (n + writers_of p ?f) d = writer_ok p ?s n d" for p n d
      using o [of "\<lambda>w. if wo_session w = p then 1 else 0"] by (auto simp: writer_ok_def writes_of_def sess)
    moreover have "drain_ok p ?s' r e = drain_ok p ?s r e" for p r e by (simp add: drain_ok_def sess)
    ultimately show ?thesis using inv by (simp add: machine_inv_def writers_inv_def t)
  qed
  ultimately show ?thesis by (simp add: machine_inv_def)
qed

lemma view_fields:
  assumes "write_view s' = write_view s"
  shows "srv_config s' = srv_config s" and "srv_sessions s' = srv_sessions s" and "srv_writes s' = srv_writes s"
    and "m_queued_bytes (srv_metrics s') = m_queued_bytes (srv_metrics s)"
    and "m_active_connections (srv_metrics s') = m_active_connections (srv_metrics s)"
    and "length (srv_store s') = length (srv_store s)"
    and "map queue_total (srv_store s') = map queue_total (srv_store s)"
    and "map alive (srv_store s') = map alive (srv_store s)"
    and "p < length (srv_store s) \<Longrightarrow> se_send_queue (sess p s') = se_send_queue (sess p s)"
    and "p < length (srv_store s) \<Longrightarrow> se_queued_bytes (sess p s') = se_queued_bytes (sess p s)"
    and "p < length (srv_store s) \<Longrightarrow> se_write_active (sess p s') = se_write_active (sess p s)"
    and "p < length (srv_store s) \<Longrightarrow> se_disconnect_started (sess p s') = se_disconnect_started (sess p s)"
proof -
  let ?v = "\<lambda>c. (se_send_queue c, se_queued_bytes c, se_write_active c, se_disconnect_started c)"
  have v: "map ?v (srv_store s') = map ?v (srv_store s)" using assms by (simp add: write_view_def)
  show "srv_config s' = srv_config s" "srv_sessions s' = srv_sessions s" "srv_writes s' = srv_writes s"
    "m_queued_bytes (srv_metrics s') = m_queued_bytes (srv_metrics s)"
    "m_active_connections (srv_metrics s') = m_active_connections (srv_metrics s)" using assms by (simp_all add: write_view_def)
  show len: "length (srv_store s') = length (srv_store s)" using arg_cong [OF v, of length] by simp
  show "map queue_total (srv_store s') = map queue_total (srv_store s)"
    using arg_cong [OF v, of "map (\<lambda>(q, _). sum_list (map item_bytes q))"] by (simp add: o_def queue_total_def [abs_def])
  show "map alive (srv_store s') = map alive (srv_store s)"
    using arg_cong [OF v, of "map (\<lambda>(_, _, _, d). \<not> d)"] by (simp add: o_def alive_def [abs_def])
  assume "p < length (srv_store s)"
  then have "?v (sess p s') = ?v (sess p s)" using arg_cong [OF v, of "\<lambda>l. l ! p"] len by (simp add: sess_def)
  then show "se_send_queue (sess p s') = se_send_queue (sess p s)" "se_queued_bytes (sess p s') = se_queued_bytes (sess p s)"
    "se_write_active (sess p s') = se_write_active (sess p s)"
    "se_disconnect_started (sess p s') = se_disconnect_started (sess p s)" by simp_all
qed

lemma machine_inv_other:
  assumes "machine_inv m" and "write_view s = write_view (mc_server m)"
  shows "machine_inv (m\<lparr>mc_server := s\<rparr>)"
proof -
  note v = view_fields [OF assms(2)]
  have "frame_ok f s = frame_ok f (mc_server m)" for f
    using v(1,3,6,10) by (cases f rule: frame_exhaust) (auto simp: item_ok_def op_ok_def fits_session_def)
  moreover have "queue_ok s = queue_ok (mc_server m)" using v(6,9) by (simp add: queue_ok_def sess_def)
  moreover have "registry_ok s = registry_ok (mc_server m)" "ops_ok s = ops_ok (mc_server m)"
    "with_kernel a s = with_kernel a (mc_server m)" for a
    using v(2,3,6) by (simp_all add: registry_ok_def ops_ok_def with_kernel_def)
  ultimately have "frames_inv (m\<lparr>mc_server := s\<rparr>)" using assms(1) by (simp add: machine_inv_def frames_inv_def)
  moreover have "bytes_inv (m\<lparr>mc_server := s\<rparr>)"
  proof -
    have "session_bytes p s n = session_bytes p (mc_server m) n" if "p < length (srv_store (mc_server m))" for p n
      using v(1,3) v(9,10) [OF that] by (simp add: session_bytes_def resting_def queue_total_def)
    moreover have "global_bytes s n = global_bytes (mc_server m) n" for n
      using v(1,3,4,7) by (simp add: global_bytes_def resting_global_def)
    ultimately show ?thesis using assms(1) v(6) by (simp add: machine_inv_def bytes_inv_def)
  qed
  moreover have "writers_inv (m\<lparr>mc_server := s\<rparr>)"
    using assms(1) v(3,6,9,11,12) by (simp add: machine_inv_def writers_inv_def writer_ok_def drain_ok_def)
  ultimately show ?thesis by (simp add: machine_inv_def)
qed

subsection \<open>Every interleaving\<close>

lemma machine_inv_step: "machine_step hs m m' \<Longrightarrow> machine_inv m \<Longrightarrow> machine_inv m'"
  by (induction rule: machine_step.induct)
    (simp_all add: machine_inv_run machine_inv_spurious machine_inv_call machine_inv_completion machine_inv_other)

text \<open>Every write belongs to one session.\<close>

lemma sum_flying:
  assumes "\<forall>w. Some w \<in> set ws \<longrightarrow> wo_session w < n"
  shows "(\<Sum>p \<leftarrow> [0..<n]. flying p ws) = osum (\<lambda>w. sc_TotalSize (wo_cursor w)) ws"
  using assms
proof (induction ws)
  case Nil
  then show ?case by (simp add: flying_def osum_def)
next
  case (Cons x ws)
  have "(\<Sum>p \<leftarrow> [0..<n]. if k = p then m else 0) = m" if "k < n" for k m :: nat
    using that by (simp add: sum_list_distinct_conv_sum_set)
  then have "(\<Sum>p \<leftarrow> [0..<n]. case_option 0 (\<lambda>w. if wo_session w = p then sc_TotalSize (wo_cursor w) else 0) x) =
      case_option 0 (\<lambda>w. sc_TotalSize (wo_cursor w)) x"
    using Cons.prems by (cases x) simp_all
  with Cons show ?case by (simp add: flying_def osum_def sum_list_addf)
qed

lemma sum_resting:
  assumes "ops_ok s" and "\<And>p. p < length (srv_store s) \<Longrightarrow> unat (se_queued_bytes (sess p s)) = resting p s"
  shows "sum_list (map (\<lambda>c. unat (se_queued_bytes c)) (srv_store s)) = resting_global s"
proof -
  have store: "map g (srv_store s) = map (\<lambda>p. g (sess p s)) [0..<length (srv_store s)]" for g :: "ClientSession \<Rightarrow> nat"
    by (intro nth_equalityI) (simp_all add: sess_def)
  have "sum_list (map (\<lambda>c. unat (se_queued_bytes c)) (srv_store s)) = (\<Sum>p \<leftarrow> [0..<length (srv_store s)]. resting p s)"
    unfolding store by (intro arg_cong [where f = sum_list] map_cong) (simp_all add: assms(2))
  also have "\<dots> = resting_global s"
    using sum_flying [of "srv_writes s" "length (srv_store s)"] assms(1)
    by (simp add: resting_def resting_global_def store sum_list_addf ops_ok_def)
  finally show ?thesis .
qed

text \<open>The threads start between two steps of the sequential model.\<close>

lemma machine_inv_begun:
  assumes "srv_inv None None s"
  shows "machine_inv \<lparr>mc_server = s, mc_locks = {}, mc_threads = replicate n []\<rparr>"
proof -
  have q: "queue_inv None s" and d: "directory_inv s" using assms by (simp_all add: srv_inv_def)
  have sq: "sess_queue_inv False (srv_config s) (srv_writes s) p (sess p s)" if "p < length (srv_store s)" for p
    using q that by (simp add: queue_inv_def sess_def)
  have ops: "ops_ok s" using q by (simp add: queue_inv_def ops_ok_def)
  have "queue_ok s" using sq by (simp add: queue_ok_def sess_queue_inv_def sess_def)
  moreover have "registry_ok s" using d by (auto simp: directory_inv_def registry_ok_def ran_def)
  moreover have "session_bytes p s 0" if "p < length (srv_store s)" for p
    using sq [OF that] by (simp add: session_bytes_def sess_queue_inv_def resting_def queue_total_def)
  moreover from this have "global_bytes s 0"
    using q sum_resting [OF ops] by (simp add: queue_inv_def global_bytes_def session_bytes_def)
  moreover have "writer_ok p s 0 0 \<and> drain_ok p s 0 0" if "p < length (srv_store s)" for p
    using sq [OF that] by (auto simp: sess_queue_inv_def writer_ok_def drain_ok_def split: if_splits)
  ultimately show ?thesis using ops
    by (simp add: machine_inv_def frames_inv_def bytes_inv_def writers_inv_def with_kernel_def)
qed

lemma interleaved_inv:
  assumes "interleaved hs n s m" and "srv_inv None None s"
  shows "machine_inv m"
  using assms by (induction rule: interleaved.induct) (auto intro: machine_inv_begun machine_inv_step)

end
