(* ===== verification/Concurrent_Connections.thy ===== *)
theory Concurrent_Connections
  imports Concurrent_Safety
begin

text \<open>
  The limit on connections when several workers accept at the same time. \<open>HandleAccept\<close> reads
  \<open>active_connections\<close>, and adds to it only after the session is in the directory; \<open>Disconnect\<close>
  takes from it, possibly before the session was counted. The counter is then wrong for a moment
  and may even wrap around, but each worker can pass the limit by at most one connection.
\<close>

text \<open>The counter, corrected by what the threads have still to count, and the sessions together with
  those that will still be inserted.\<close>

definition connections_inv :: "'app Machine \<Rightarrow> bool" where
  "connections_inv m \<longleftrightarrow>
     m_active_connections (srv_metrics (mc_server m)) =
       of_nat (active (mc_server m) + tally uncounted (mc_threads m)) - of_nat (tally inserted (mc_threads m)) \<and>
     active (mc_server m) + tally admitted (mc_threads m) \<le>
       unat (cfg_max_connections (srv_config (mc_server m))) + (length (mc_threads m) - 1)"

lemma tally_sum: "tally g ts + tally h ts = tally (\<lambda>f. g f + h f) ts"
  by (simp add: tally_def sum_list_addf)

text \<open>At most one frame of a stack is not waiting.\<close>

lemma carried_one:
  assumes "\<forall>f \<in> set (tl st). waiting f" and "\<And>f. waiting f \<Longrightarrow> g f = 0" and "\<And>f. g f \<le> 1"
  shows "carried g st \<le> 1"
proof (cases st)
  case (Cons f rest)
  then have "carried g rest = 0" using assms(1,2) by (simp add: sum_list_eq_0_iff)
  moreover have "carried g st = g f + carried g rest" using Cons by simp
  ultimately show ?thesis using assms(3) [of f] by linarith
qed simp

lemma tally_one:
  assumes "frames_inv m" and "\<And>f. waiting f \<Longrightarrow> g f = 0" and "\<And>f. g f \<le> 1"
  shows "tally g (mc_threads m) \<le> length (mc_threads m)"
proof -
  have "carried g st \<le> 1" if "st \<in> set (mc_threads m)" for st
    using carried_one [OF _ assms(2,3)] assms(1) that by (simp add: frames_inv_def)
  then have "tally g (mc_threads m) \<le> (\<Sum>st \<leftarrow> mc_threads m. 1)" unfolding tally_def by (intro sum_list_mono)
  then show ?thesis by (simp add: sum_list_triv)
qed

lemma accepting_one: "accepting f \<le> 1" "waiting f \<Longrightarrow> accepting f = 0" "admitted f + inserted f \<le> accepting f"
    "uncounted f \<le> 1" "waiting f \<Longrightarrow> uncounted f = 0"
  by (cases f rule: frame_exhaust; simp)+

text \<open>The test of the limit: what a worker sees when it passes.\<close>

lemma limit_passed:
  fixes counter limit :: u64
  assumes "counter = of_nat (a + d) - of_nat u" and "counter < limit" and "a + d < 2 ^ 64" and "u + p + 1 \<le> n"
  shows "a + p + 1 \<le> unat limit + (n - 1)"
proof (cases "u \<le> a + d")
  case True
  then have "counter = of_nat (a + d - u)" using assms(1) by (simp add: of_nat_diff)
  then have "unat counter = a + d - u" using assms(3) by (simp add: unat_of_nat)
  moreover have "unat counter < unat limit" using assms(2) by (simp add: word_less_nat_alt)
  ultimately show ?thesis using assms(4) True by simp
next
  case False
  then show ?thesis using assms(4) by simp
qed

lemma connections_run:
  assumes "machine_inv m" and "connections_inv m" and "i < length (mc_threads m)" and "mc_threads m ! i = f # rest"
    and "exec hs f (mc_server m) (mc_locks m) = Some (fs, s, L)"
    and "unat (cfg_max_connections (srv_config (mc_server m))) + 2 * length (mc_threads m) < 2 ^ 64"
  shows "connections_inv (stepped m i fs rest s L)"
proof -
  note facts = run_facts [OF assms(1,3,4)] and t = tally_run [OF assms(3,4), of _ fs] and top = tally_top [OF assms(3,4)]
  have fr: "frames_inv m" using assms(1) by (simp add: machine_inv_def)
  let ?ts = "(mc_threads m)[i := fs @ rest]" and ?n = "length (mc_threads m)"
  let ?c = "m_active_connections (srv_metrics (mc_server m))" and ?max = "cfg_max_connections (srv_config (mc_server m))"
  have old: "?c = of_nat (active (mc_server m) + tally uncounted (mc_threads m)) - of_nat (tally inserted (mc_threads m))"
    "active (mc_server m) + tally admitted (mc_threads m) \<le> unat ?max + (?n - 1)"
    using assms(2) by (simp_all add: connections_inv_def)
  have cfg: "srv_config s = srv_config (mc_server m)"
    using exec_limits [OF facts(1,6) run_limits(1) [OF assms(1)], of hs "mc_locks m"] assms(5) by simp
  have e: "m_active_connections (srv_metrics s) - of_nat (active s + carried uncounted fs) + of_nat (carried inserted fs) =
      ?c - of_nat (active (mc_server m) + uncounted f) + of_nat (inserted f)"
    using exec_active [OF facts(1), of hs "mc_locks m"] assms(5) by simp
  have w: "(of_nat (tally g ?ts) :: u64) = of_nat (tally g (mc_threads m)) + of_nat (carried g fs) - of_nat (g f)" for g
    using arg_cong [OF t [of g], of "of_nat :: nat \<Rightarrow> u64"] by (simp add: algebra_simps)
  have "m_active_connections (srv_metrics s) = of_nat (active s + tally uncounted ?ts) - of_nat (tally inserted ?ts)"
    using e old(1) by (simp add: w algebra_simps)
  moreover have "active s + tally admitted ?ts \<le> unat ?max + (?n - 1)"
  proof (cases "accepting f = 1 \<and> admitted f = 0 \<and> inserted f = 0 \<and> ?c < ?max")
    case True
    have "tally accepting (mc_threads m) \<le> ?n" by (rule tally_one [OF fr accepting_one(2,1)])
    moreover have "tally (\<lambda>f. inserted f + admitted f) ((mc_threads m)[i := rest]) \<le> tally accepting ((mc_threads m)[i := rest])"
      by (rule tally_le) (simp add: accepting_one(3) add.commute)
    ultimately have "tally inserted (mc_threads m) + tally admitted (mc_threads m) + 1 \<le> ?n"
      using True tally_run [OF assms(3,4), of accepting "[]"] tally_run [OF assms(3,4), of inserted "[]"]
        tally_run [OF assms(3,4), of admitted "[]"] by (simp add: tally_sum [symmetric])
    moreover have "tally uncounted (mc_threads m) \<le> ?n" by (rule tally_one [OF fr accepting_one(5,4)])
    then have "active (mc_server m) + tally uncounted (mc_threads m) < 2 ^ 64" using old(2) assms(6) by simp
    ultimately have "active (mc_server m) + tally admitted (mc_threads m) + 1 \<le> unat ?max + (?n - 1)"
      using limit_passed [OF old(1)] True by blast
    then show ?thesis using exec_admitted [OF facts(1), of hs "mc_locks m"] assms(5) t [of admitted] True
      by (cases "carried admitted fs = 1") simp_all
  next
    case False
    then have "active s + carried admitted fs \<le> active (mc_server m) + admitted f"
      using exec_admitted [OF facts(1), of hs "mc_locks m"] assms(5) by (auto split: if_splits)
    then show ?thesis using old(2) t [of admitted] by simp
  qed
  ultimately show ?thesis by (simp add: connections_inv_def cfg)
qed

lemma connections_step:
  assumes "machine_step hs m m'" and "machine_inv m" and "connections_inv m"
    and "unat (cfg_max_connections (srv_config (mc_server m))) + 2 * length (mc_threads m) < 2 ^ 64"
  shows "connections_inv m' \<and> length (mc_threads m') = length (mc_threads m) \<and> srv_config (mc_server m') = srv_config (mc_server m)"
  using assms
proof (induction rule: machine_step.induct)
  case (run i m f rest fs s L)
  then have "srv_config s = srv_config (mc_server m)"
    using exec_limits [OF run_facts(1,6) [OF run(4,1,2)] run_limits(1) [OF run(4)], of hs "mc_locks m"] by simp
  then show ?case using run connections_run [of m i f rest hs fs s L] by simp
next
  case (spurious i m p item current rest)
  then have "tally g ((mc_threads m)[i := Enq (EnqReserve p item c) # rest]) = tally g (mc_threads m)"
    if "g (Enq (EnqReserve p item c)) = g (Enq (EnqReserve p item current))" for g c
    using tally_run [of i "mc_threads m" _ rest g "[Enq (EnqReserve p item c)]"] that by simp
  then show ?case using spurious by (simp add: connections_inv_def)
next
  case (call i m f)
  then have "tally g ((mc_threads m)[i := [f]]) = tally g (mc_threads m) + g f" for g
    using tally_update [of i "mc_threads m" g "[f]"] by simp
  moreover have "uncounted f = 0" "inserted f = 0" "admitted f = 0" using call(3) by (cases f rule: frame_exhaust; simp)+
  ultimately show ?case using call by (simp add: connections_inv_def)
next
  case (completion i m a w n ok)
  then have "tally g ((mc_threads m)[i := [Wri (WriteHandle a w ok n)]]) = tally g (mc_threads m) + g (Wri (WriteHandle a w ok n))" for g
    using tally_update [of i "mc_threads m" g "[Wri (WriteHandle a w ok n)]"] by simp
  then show ?case using completion by (simp add: connections_inv_def active_def)
next
  case (other s m)
  note v = view_fields [OF other(1)]
  have "active s = active (mc_server m)" unfolding active_def by (rule length_filter_cong [OF v(8)])
  then show ?case using other v(1,5) by (simp add: connections_inv_def)
qed

lemma interleaved_connections:
  assumes "interleaved hs n s m" and "srv_inv None None s" and "unat (cfg_max_connections (srv_config s)) + 2 * n < 2 ^ 64"
  shows "connections_inv m \<and> length (mc_threads m) = n \<and> srv_config (mc_server m) = srv_config s"
  using assms
proof (induction rule: interleaved.induct)
  case begun
  then show ?case by (simp add: connections_inv_def srv_inv_def directory_inv_def)
next
  case (continued m m')
  then show ?case using connections_step [OF continued(2) interleaved_inv [OF continued(1)]] by simp
qed

end
