(* ===== verification/Stop_Drain.thy ===== *)
theory Stop_Drain
  imports Server_Run
begin

text \<open>
  \<open>Stop\<close> waits until no operation is outstanding. A server that is not running has no live session,
  so every completion that arrives while \<open>Stop\<close> waits ends one operation and starts none: the wait
  ends after as many completions as there were operations in flight.
\<close>

subsection \<open>A server that is not running has no live session\<close>

definition quiet :: "'app Server \<Rightarrow> bool" where
  "quiet s \<longleftrightarrow> srv_running s \<or> (\<forall>c \<in> set (srv_store s). \<not> alive c)"

lemma keeps_quiet: "keeps s t \<Longrightarrow> quiet s \<Longrightarrow> quiet t"
  by (auto simp: keeps_def quiet_def list_all2_conv_all_nth all_set_conv_all_nth)

lemma fold_Disconnect_dead:
  "\<forall>p \<in> set ps. p < length (srv_store s) \<Longrightarrow> q \<in> set ps \<or> \<not> alive (sess q s) \<Longrightarrow> q < length (srv_store s) \<Longrightarrow>
     \<not> alive (sess q (fold (Disconnect od) ps s))"
proof (induction ps arbitrary: s)
  case (Cons p ps)
  have "\<not> alive (sess q (Disconnect od p s))" if "\<not> alive (sess q s)"
    using that keepsD(6) [OF keeps_Disconnect [OF keeps_refl], of q s od p] Cons.prems(3) by blast
  then show ?case using Cons by auto
qed simp

lemma StopBegin_dead:
  assumes "srv_inv None None s"
  shows "\<forall>c \<in> set (srv_store (StopBegin od s)). \<not> alive c"
proof -
  define s2 where "s2 = (case srv_listen_socket s of None \<Rightarrow> s\<lparr>srv_running := False, srv_stopping := True\<rparr>
    | Some socket \<Rightarrow> closesocket socket (s\<lparr>srv_running := False, srv_stopping := True, srv_listen_socket := None\<rparr>))"
  have same: "srv_store s2 = srv_store s" "srv_sessions s2 = srv_sessions s"
    by (simp_all add: s2_def closesocket_def split: option.split)
  have snap: "set (sr_Snapshot (srv_sessions s2)) = {p. p < length (srv_store s2) \<and> alive (sess p s2)}"
    using directory_snapshot [OF assms] by (simp add: same sess_def)
  have eq: "StopBegin od s = fold (Disconnect od) (sr_Snapshot (srv_sessions s2)) s2"
    by (simp add: StopBegin_def s2_def Let_def cong: option.case_cong)
  have len: "length (srv_store (fold (Disconnect od) ps t)) = length (srv_store t)" for ps and t :: "'a Server"
    by (induction ps arbitrary: t) simp_all
  have "\<not> alive (sess q (StopBegin od s))" if "q < length (srv_store s2)" for q
    unfolding eq by (rule fold_Disconnect_dead) (use snap that in auto)
  then show ?thesis by (auto simp: in_set_conv_nth sess_def eq len)
qed

lemma Disconnect_stopping [simp]:
  "srv_stopping (Disconnect od p s) = srv_stopping s" "srv_listen_socket (Disconnect od p s) = srv_listen_socket s"
  by (simp_all add: Disconnect_def DropQueue_eq InvokeSession_def CloseSocket_def ReleaseInbound_def Let_def split: option.split)

lemma StopBegin_fields [simp]:
  "srv_outstanding (StopBegin od s) = srv_outstanding s" "srv_initialized (StopBegin od s) = srv_initialized s"
  "srv_stopping (StopBegin od s)" "\<not> srv_running (StopBegin od s)" "in_flight (StopBegin od s) = in_flight s"
  "srv_listen_socket (StopBegin od s) = None"
proof -
  have "srv_outstanding (fold (Disconnect od) ps t) = srv_outstanding t" "srv_initialized (fold (Disconnect od) ps t) = srv_initialized t"
    "srv_stopping (fold (Disconnect od) ps t) = srv_stopping t" "srv_running (fold (Disconnect od) ps t) = srv_running t"
    "srv_listen_socket (fold (Disconnect od) ps t) = srv_listen_socket t"
    "in_flight (fold (Disconnect od) ps t) = in_flight t" for ps and t :: "'a Server"
    by (induction ps arbitrary: t) (simp_all add: in_flight_def accepts_def)
  then show "srv_outstanding (StopBegin od s) = srv_outstanding s" "srv_initialized (StopBegin od s) = srv_initialized s"
    "srv_stopping (StopBegin od s)" "\<not> srv_running (StopBegin od s)" "in_flight (StopBegin od s) = in_flight s"
    "srv_listen_socket (StopBegin od s) = None"
    by (simp_all add: StopBegin_def closesocket_def in_flight_def accepts_def Let_def split: option.split)
qed

lemma Stop_quiet: "srv_inv None None s \<Longrightarrow> quiet s \<Longrightarrow> quiet (Stop od s)"
  using StopBegin_dead [of s od] by (auto simp: Stop_def quiet_def Let_def StopEnd_def)

lemma PostNewAccept_running [simp]: "srv_running (snd (PostNewAccept s)) = srv_running s"
  by (simp add: PostNewAccept_def PostAccept_def result_simps fail_def TrackOperation_def CompleteOperation_def DestroyAccept_def
      split: option.split sum.split)

lemma PostAccepts_running [simp]: "srv_running (snd (PostAccepts n s)) = srv_running s"
  by (induction n arbitrary: s) (simp_all add: case_prod_unfold)

lemma Start_quiet:
  assumes "srv_inv None None s" and "quiet s"
  shows "quiet (snd (Start od s))"
proof (cases "srv_initialized s \<and> \<not> srv_running s")
  case True
  let ?s1 = "snd (draw (s\<lparr>srv_running := True, srv_stopping := False\<rparr>))"
  let ?s2 = "snd (PostAccepts (unat (cfg_accept_depth (srv_config s))) ?s1)"
  have "srv_inv None None (s\<lparr>srv_running := True\<rparr>)"
    by (rule srv_inv_change_ops [OF assms(1)])
      (use assms(1) True in \<open>auto simp: srv_inv_def ops_inv_def in_flight_def accepts_def life_inv_def\<close>)
  then have s1: "srv_inv None None ?s1" by simp
  have on: "srv_running ?s1" "srv_running ?s2" by simp_all
  then have "quiet ?s2" "quiet (Stop od ?s1)" "quiet (Stop od ?s2)"
    using Stop_quiet [OF s1] Stop_quiet [OF PostAccepts_inv [OF s1]] by (simp_all add: quiet_def)
  moreover have "snd (Start od s) \<in> {Stop od ?s1, ?s2, Stop od ?s2}"
    using True by (simp add: Start_def case_prod_unfold case_bool_if)
  ultimately show ?thesis by auto
next
  case False
  then have "snd (Start od s) = s" by (auto simp: Start_def)
  with assms(2) show ?thesis by simp
qed

lemma Initialize_running [simp]: "srv_running (snd (Initialize debug slot_size s)) = srv_running s"
proof -
  have "srv_running (snd (draws n s)) = srv_running s" "srv_running (snd (WinsockStart s)) = srv_running s" for n and s :: "'a Server"
    by (induction n arbitrary: s) (simp_all add: result_simps WinsockStart_def)
  then show ?thesis
    by (simp add: Initialize_def result_simps fail_def closesocket_def split: option.split sum.split)
qed

text \<open>Accept completions.\<close>

lemma accept_running [simp]:
  "srv_running (set_accept_socket slot x s) = srv_running s" "srv_running (DestroyAccept slot s) = srv_running s"
  "srv_running (closesocket k s) = srv_running s" "srv_running (snd (RepostAccept slot s)) = srv_running s"
  by (simp_all add: set_accept_socket_def DestroyAccept_def RepostAccept_def PostAccept_def closesocket_def fail_def result_simps
      split: option.split sum.split)

lemma AcceptSession_running [simp]: "srv_running (snd (AcceptSession hs socket s)) = srv_running s"
  by (simp add: AcceptSession_def InsertSession_def PostRead_def PostReadOp_def DeleteRead_def InvokeSession_def TrackOperation_def
      CompleteOperation_def result_simps split: option.split)

lemma HandleAccept_running: "srv_running (HandleAccept hs slot ok s) = srv_running s"
  by (simp add: HandleAccept_def result_simps CompleteOperation_def split: option.split)

lemma HandleAccept_off:
  assumes "\<not> srv_running s"
  shows "HandleAccept hs slot ok s =
    (let s4 = CompleteOperation (DestroyAccept slot (set_accept_socket slot None s))
     in case accept_socket slot s of None \<Rightarrow> s4 | Some socket \<Rightarrow> closesocket socket s4)"
  using assms by (simp add: HandleAccept_def RepostAccept_def Let_def)

subsection \<open>Completions while Stop waits\<close>

lemma accepts_closesocket [simp]: "in_flight (closesocket k s) = in_flight s" "StopWaiting (closesocket k s) = StopWaiting s"
  by (simp_all add: closesocket_def in_flight_def accepts_def StopWaiting_def)

lemma drain_accept:
  assumes inv: "srv_inv None None s" and pool: "srv_accept_pool s = Some pool" and slot: "slot \<in> live pool" and wait: "StopWaiting s"
  shows "StopWaiting (HandleAccept hs slot ok s)" and "Suc (in_flight (HandleAccept hs slot ok s)) = in_flight s"
proof -
  let ?pool = "pool\<lparr>pool_slots := (pool_slots pool)[slot := Storage None]\<rparr>"
  let ?r = "pool_Destroy (Some (slot_ptr ?pool slot)) ?pool"
  let ?s4 = "CompleteOperation (DestroyAccept slot (set_accept_socket slot None s))"
  note u = storage_update [OF srv_inv_poolD [OF inv pool] slot, of None]
  have live: "slot \<in> live ?pool" using slot u(2) by simp
  note d = pool_Destroy_ok [OF u(1) live]
  have s4: "?s4 = s\<lparr>srv_accept_pool := Some (snd ?r), srv_outstanding := srv_outstanding s - 1\<rparr>"
    using d(1) by (simp add: DestroyAccept_def set_accept_socket_def pool CompleteOperation_def slot_ptr_def case_prod_unfold)
  have "Suc (card (live (snd ?r))) = card (live pool)" using card.remove [OF finite_live live] u(2) by (simp only: d(3))
  then have "Suc (in_flight ?s4) = in_flight s" unfolding s4 by (simp add: in_flight_def accepts_def pool)
  moreover have "StopWaiting ?s4" using wait unfolding s4 by (simp add: StopWaiting_def)
  moreover have off: "\<not> srv_running s" using wait by (simp add: StopWaiting_def)
  ultimately show "StopWaiting (HandleAccept hs slot ok s)" "Suc (in_flight (HandleAccept hs slot ok s)) = in_flight s"
    by (simp_all add: HandleAccept_off [OF off] Let_def split: option.split)
qed

lemma drain_write:
  assumes inv: "srv_inv None None s" and a: "a < length (srv_writes s)" "srv_writes s ! a = Some w"
    and dead: "quiet s" and wait: "StopWaiting s"
  shows "StopWaiting (HandleWrite od a ok n s)" and "Suc (in_flight (HandleWrite od a ok n s)) = in_flight s"
proof -
  let ?p = "wo_session w"
  have p: "?p < length (srv_store s)" using srv_inv_write [OF inv] a by (metis nth_mem)
  have gone: "\<not> alive (srv_store s ! ?p)" using dead wait p by (simp add: quiet_def StopWaiting_def)
  then have empty: "se_send_queue (srv_store s ! ?p) = []" and sock: "se_socket (srv_store s ! ?p) = None"
    using srv_inv_session(1) [OF inv p] inv p by (auto simp: sess_queue_inv_def alive_def srv_inv_def directory_inv_def)
  have settle: "StopWaiting (FinishWrite od a succeeded t)" "Suc (in_flight (FinishWrite od a succeeded t)) = in_flight s"
    if t: "srv_store t = srv_store s" "srv_writes t ! a = Some v" "wo_session v = ?p" "length (srv_writes t) = length (srv_writes s)"
      "in_flight t = in_flight s" "StopWaiting t" for t v succeeded
  proof -
    let ?u = "SettleWrite a succeeded t"
    have store: "se_send_queue (sess ?p ?u) = []" "se_disconnect_started (sess ?p ?u)"
      using gone empty p t(1) by (simp_all add: SettleWrite_changes [OF t(2)] sess_def t(3) alive_def)
    have a': "a < length (srv_writes t)" using a(1) t(4) by simp
    have "Suc (in_flight ?u) = in_flight s" "StopWaiting ?u"
      using flight_update(3) [OF a' t(2)] t(5,6) by (simp_all add: in_flight_def accepts_def SettleWrite_changes [OF t(2)] StopWaiting_def)
    moreover have "Disconnect od ?p ?u = ?u" using store by (simp add: Disconnect_def)
    moreover have "StartNextWrite od ?p ?u = set_sess ?p (\<lambda>c. c\<lparr>se_write_active := False\<rparr>) ?u"
      using store by (simp add: StartNextWrite_def)
    ultimately show "StopWaiting (FinishWrite od a succeeded t)" "Suc (in_flight (FinishWrite od a succeeded t)) = in_flight s"
      by (cases succeeded; simp add: FinishWrite_def t(2,3) Let_def StopWaiting_def in_flight_def accepts_def)+
  qed
  let ?s1 = "s\<lparr>srv_writes := (srv_writes s)[a := Some (w\<lparr>wo_cursor := sc_Consume n (wo_cursor w)\<rparr>)],
    srv_wire_log := srv_wire_log s @ [(?p, take n (write_buffers w))]\<rparr>"
  have "in_flight ?s1 = in_flight s" using a by (simp add: in_flight_def accepts_def osum_update_diff)
  then have s1: "StopWaiting (FinishWrite od a k ?s1)" "Suc (in_flight (FinishWrite od a k ?s1)) = in_flight s" for k
    using settle [of ?s1 "w\<lparr>wo_cursor := sc_Consume n (wo_cursor w)\<rparr>" k] a wait by (simp_all add: StopWaiting_def)
  have post: "PostWrite a ?s1 = (False, ?s1)" using a sock by (simp add: PostWrite_def sess_def)
  show "StopWaiting (HandleWrite od a ok n s)" "Suc (in_flight (HandleWrite od a ok n s)) = in_flight s"
    using s1 settle [OF refl a(2) refl refl refl wait] by (simp_all add: HandleWrite_def a(2) Let_def post)
qed

context message_application
begin

lemma HandleRead_running:
  assumes inv: "srv_inv None sk s" and a: "a < length (srv_reads s)"
  shows "srv_running (HandleRead hs a ok bytes s) = srv_running s"
proof (cases "srv_reads s ! a")
  case (Some p)
  let ?s1 = "set_sess p (\<lambda>c. c\<lparr>se_last_activity_ms := fst (MonotonicMilliseconds s)\<rparr>) (snd (MonotonicMilliseconds s))"
  have "srv_inv None sk ?s1" "p < length (srv_store ?s1)"
    using inv srv_inv_read [OF inv a Some] by (simp_all add: srv_inv_set_sess se_view_def)
  then have "srv_running (ProcessIncoming hs p bytes ?s1) = srv_running s"
    using ProcessIncoming_ok(2) [of sk ?s1 p bytes] by (simp add: steady_def)
  then show ?thesis
    by (simp add: HandleRead_def Some result_simps DeleteRead_def CompleteOperation_def PostReadOp_def split: option.split)
qed (simp add: HandleRead_def)

lemma HandleRead_dead:
  assumes inv: "srv_inv None sk s" and a: "a < length (srv_reads s)" "srv_reads s ! a = Some p" and "\<not> srv_running s" and "quiet s"
  shows "HandleRead hs a ok bytes s = DeleteRead a s"
proof -
  have "p < length (srv_store s)" by (rule srv_inv_read [OF inv a])
  with assms have dead: "\<not> alive (sess p s)" by (simp add: quiet_def sess_def)
  then show ?thesis by (simp add: HandleRead_def a(2) alive_def)
qed

lemma WorkerDispatch_quiet:
  assumes inv: "srv_inv None None s" and "deliverable c s" and "quiet s"
  shows "quiet (WorkerDispatch hs c s)"
proof (cases c)
  case (AcceptDone slot ok)
  show ?thesis
  proof (cases "srv_running s")
    case False
    with assms(3) show ?thesis
      by (simp add: AcceptDone HandleAccept_off quiet_def CompleteOperation_def Let_def split: option.split)
  qed (simp add: AcceptDone quiet_def HandleAccept_running)
next
  case (ReadDone a ok bytes)
  with assms(2) obtain p where a: "a < length (srv_reads s)" "srv_reads s ! a = Some p" by auto
  show ?thesis
  proof (cases "srv_running s")
    case False
    with assms(3) show ?thesis
      using HandleRead_dead [OF inv a False assms(3)] by (simp add: ReadDone quiet_def DeleteRead_def CompleteOperation_def)
  qed (simp add: ReadDone quiet_def HandleRead_running [OF inv a(1)])
next
  case (WriteDone a ok n)
  then show ?thesis using keeps_quiet [OF keeps_HandleWrite [OF keeps_refl] assms(3)] by simp
qed

lemma server_step_quiet:
  assumes "server_step hs debug slot_size s t" and "srv_inv None None s" and "quiet s"
  shows "quiet t"
  using assms
proof (induction rule: server_step.induct)
  case (initialize s)
  then show ?case by (simp add: quiet_def)
next
  case (stop_end s)
  then show ?case by (simp add: quiet_def StopEnd_def)
next
  case (timer s)
  have "keeps s (fold (TimerCheck (on_disconnect hs) now) ps t)" if "keeps s t" for now ps t
    using that by (induction ps arbitrary: t) (simp_all add: keeps_TimerCheck)
  then have "keeps s (TimerPass (on_disconnect hs) s)"
    by (simp add: TimerPass_def case_prod_unfold keeps_basic(5))
  then show ?case using keeps_quiet timer by blast
qed (simp_all add: Start_quiet Stop_quiet WorkerDispatch_quiet keeps_quiet [OF keeps_ServerSend [OF keeps_refl]]
    keeps_quiet [OF keeps_ServerClose [OF keeps_refl]])

lemma reachable_quiet:
  assumes "reachable hs debug slot_size s0 s" and "srv_inv None None s0" and "4 \<le> slot_size" and "slot_size < 2 ^ 32" and "quiet s0"
  shows "quiet s"
  using assms
proof (induction rule: reachable.induct)
  case (stepped s t)
  then show ?case using server_step_quiet reachable_ok by blast
qed

lemma drain_step:
  assumes inv: "srv_inv None None s" and dead: "quiet s" and wait: "StopWaiting s" and del: "deliverable c s"
  shows "StopWaiting (WorkerDispatch hs c s)" and "Suc (in_flight (WorkerDispatch hs c s)) = in_flight s"
proof -
  have "StopWaiting (WorkerDispatch hs c s) \<and> Suc (in_flight (WorkerDispatch hs c s)) = in_flight s"
  proof (cases c)
    case (AcceptDone slot ok)
    with del obtain pool where "srv_accept_pool s = Some pool" "slot \<in> live pool"
      using deliverable_accept [of slot ok s] by blast
    then show ?thesis using drain_accept [OF inv _ _ wait] AcceptDone by simp
  next
    case (ReadDone a ok bytes)
    with del obtain p where a: "a < length (srv_reads s)" "srv_reads s ! a = Some p" by auto
    have off: "\<not> srv_running s" using wait by (simp add: StopWaiting_def)
    show ?thesis
      using osum_delete [OF a, of "\<lambda>_. 1"] wait
      by (simp add: ReadDone HandleRead_dead [OF inv a off dead] DeleteRead_def CompleteOperation_def StopWaiting_def in_flight_def accepts_def)
  next
    case (WriteDone a ok n)
    with del obtain w where "a < length (srv_writes s)" "srv_writes s ! a = Some w" by (auto split: option.splits)
    then show ?thesis using drain_write [OF inv _ _ dead wait] WriteDone by simp
  qed
  then show "StopWaiting (WorkerDispatch hs c s)" "Suc (in_flight (WorkerDispatch hs c s)) = in_flight s" by simp_all
qed

end

text \<open>Completions that arrive one after the other.\<close>

fun completes :: "'app Handlers \<Rightarrow> completion list \<Rightarrow> 'app Server \<Rightarrow> bool" where
  "completes hs [] s = True"
| "completes hs (c # cs) s = (deliverable c s \<and> completes hs cs (WorkerDispatch hs c s))"

lemma osum_pos: "0 < osum f xs \<Longrightarrow> \<exists>i x. i < length xs \<and> xs ! i = Some x"
  using osum_zero [of xs f] by (metis in_set_conv_nth less_irrefl)

lemma in_flight_deliverable:
  assumes inv: "srv_inv None None s" and "0 < in_flight s" and "\<not> srv_running s"
  shows "\<exists>c. deliverable c s"
proof -
  consider "0 < accepts s" | "0 < osum (\<lambda>_. 1) (srv_reads s)" | "0 < osum (\<lambda>_. 1) (srv_writes s)"
    using assms(2) by (auto simp: in_flight_def)
  then show ?thesis
  proof cases
    case 1
    then obtain pool slot where "srv_accept_pool s = Some pool" "slot \<in> live pool"
      by (auto simp: accepts_def card_gt_0_iff split: option.splits)
    then have "deliverable (AcceptDone slot False) s" using assms(3) by (simp add: live_def)
    then show ?thesis ..
  next
    case 2
    then obtain a p where "a < length (srv_reads s)" "srv_reads s ! a = Some p" using osum_pos by blast
    then have "deliverable (ReadDone a False []) s" by simp
    then show ?thesis ..
  next
    case 3
    then obtain a w where "a < length (srv_writes s)" "srv_writes s ! a = Some w" using osum_pos by blast
    then have "deliverable (WriteDone a False 0) s" by simp
    then show ?thesis ..
  qed
qed

context message_application
begin

lemma drain_run:
  assumes "srv_inv None None s" and "quiet s" and "StopWaiting s" and "completes hs cs s"
  shows "StopWaiting (fold (WorkerDispatch hs) cs s)" and "srv_inv None None (fold (WorkerDispatch hs) cs s)"
    and "in_flight (fold (WorkerDispatch hs) cs s) + length cs = in_flight s"
proof -
  have "StopWaiting (fold (WorkerDispatch hs) cs s) \<and> srv_inv None None (fold (WorkerDispatch hs) cs s) \<and>
      in_flight (fold (WorkerDispatch hs) cs s) + length cs = in_flight s"
    using assms
  proof (induction cs arbitrary: s)
    case (Cons c cs)
    then have del: "deliverable c s" by simp
    have next_state: "srv_inv None None (WorkerDispatch hs c s)" "quiet (WorkerDispatch hs c s)" "StopWaiting (WorkerDispatch hs c s)"
      "Suc (in_flight (WorkerDispatch hs c s)) = in_flight s"
      using Cons.prems del WorkerDispatch_ok WorkerDispatch_quiet drain_step by blast+
    then show ?case using Cons.IH [OF next_state(1-3)] Cons.prems(4) by auto
  qed simp
  then show "StopWaiting (fold (WorkerDispatch hs) cs s)" "srv_inv None None (fold (WorkerDispatch hs) cs s)"
    "in_flight (fold (WorkerDispatch hs) cs s) + length cs = in_flight s" by simp_all
qed

lemma drain_exists:
  assumes "srv_inv None None s" and "quiet s" and "StopWaiting s"
  shows "\<exists>cs. completes hs cs s \<and> length cs = in_flight s"
  using assms
proof (induction "in_flight s" arbitrary: s)
  case 0
  then have "completes hs [] s \<and> length [] = in_flight s" by simp
  then show ?case by blast
next
  case (Suc n)
  have "\<not> srv_running s" using Suc.prems(3) by (simp add: StopWaiting_def)
  then obtain c where c: "deliverable c s" using in_flight_deliverable [OF Suc.prems(1)] Suc.hyps(2) by auto
  have t: "srv_inv None None (WorkerDispatch hs c s)" "quiet (WorkerDispatch hs c s)" "StopWaiting (WorkerDispatch hs c s)"
    "Suc (in_flight (WorkerDispatch hs c s)) = in_flight s"
    using Suc.prems c WorkerDispatch_ok WorkerDispatch_quiet drain_step by blast+
  then obtain cs where "completes hs cs (WorkerDispatch hs c s)" "length cs = in_flight (WorkerDispatch hs c s)"
    using Suc.hyps(1) [OF _ t(1-3)] Suc.hyps(2) by auto
  with c t(4) have "completes hs (c # cs) s \<and> length (c # cs) = in_flight s" by simp
  then show ?case by blast
qed

end

subsection \<open>Starting\<close>

lemma DestroyAccept_counts:
  "srv_outstanding (DestroyAccept slot s) = srv_outstanding s" "srv_reads (DestroyAccept slot s) = srv_reads s"
  "srv_writes (DestroyAccept slot s) = srv_writes s"
  by (simp_all add: DestroyAccept_def fail_def result_simps split: option.split sum.split)

lemma PostNewAccept_counts:
  "srv_outstanding (snd (PostNewAccept s)) = srv_outstanding s + (if fst (PostNewAccept s) then 1 else 0)"
  "srv_reads (snd (PostNewAccept s)) = srv_reads s" "srv_writes (snd (PostNewAccept s)) = srv_writes s"
proof -
  have o: "srv_reads (snd (OpenSocket s)) = srv_reads s" "srv_writes (snd (OpenSocket s)) = srv_writes s" for s :: "'a Server"
    by (simp_all add: OpenSocket_def result_simps)
  show "srv_outstanding (snd (PostNewAccept s)) = srv_outstanding s + (if fst (PostNewAccept s) then 1 else 0)"
    "srv_reads (snd (PostNewAccept s)) = srv_reads s" "srv_writes (snd (PostNewAccept s)) = srv_writes s"
    by (simp_all add: PostNewAccept_def PostAccept_def result_simps fail_def TrackOperation_def CompleteOperation_def
        DestroyAccept_counts o count_rejected_def split: option.split sum.split)
qed

lemma PostNewAccept_accepts:
  assumes "srv_inv st sk s"
  shows "accepts (snd (PostNewAccept s)) = accepts s + (if fst (PostNewAccept s) then 1 else 0)"
proof -
  have word: "(of_nat (accepts s) :: size_t) = srv_outstanding s - of_nat (osum (\<lambda>_. 1) (srv_reads s)) - of_nat (osum (\<lambda>_. 1) (srv_writes s))"
    if "srv_inv st sk s" for s :: "'a Server"
    using that by (simp add: srv_inv_def ops_inv_def in_flight_def)
  note t = PostNewAccept_inv [OF assms]
  let ?k = "if fst (PostNewAccept s) then 1 else 0 :: nat"
  have "(of_nat (accepts (snd (PostNewAccept s))) :: size_t) = of_nat (accepts s + ?k)"
    using word [OF t] word [OF assms] by (simp add: PostNewAccept_counts)
  then have "unat (of_nat (accepts (snd (PostNewAccept s))) :: size_t) = unat (of_nat (accepts s + ?k) :: size_t)" by (simp only:)
  then show ?thesis using accepts_bound [OF t] accepts_bound [OF assms] by (simp add: unat_of_nat del: of_nat_add split: if_splits)
qed

lemma PostAccepts_accepts:
  "srv_inv st sk s \<Longrightarrow> accepts (snd (PostAccepts n s)) = accepts s + fst (PostAccepts n s)"
  by (induction n arbitrary: s) (simp_all add: case_prod_unfold PostNewAccept_accepts PostNewAccept_inv)

lemma Start_result:
  assumes inv: "srv_inv None None s" and init: "srv_initialized s" and off: "\<not> srv_running s"
  shows "fst (Start od s) = srv_running (snd (Start od s))" and "fst (Start od s) \<Longrightarrow> 0 < accepts (snd (Start od s))"
proof -
  let ?s1 = "snd (draw (s\<lparr>srv_running := True, srv_stopping := False\<rparr>))"
  let ?n = "unat (cfg_accept_depth (srv_config s))"
  have "srv_inv None None (s\<lparr>srv_running := True\<rparr>)"
    by (rule srv_inv_change_ops [OF inv])
      (use inv init in \<open>auto simp: srv_inv_def ops_inv_def in_flight_def accepts_def life_inv_def\<close>)
  then have "accepts (snd (PostAccepts ?n ?s1)) = accepts ?s1 + fst (PostAccepts ?n ?s1)" by (intro PostAccepts_accepts) simp
  moreover have "\<not> srv_running (Stop od t)" for t :: "'a Server" by (simp add: Stop_def Let_def StopEnd_def)
  ultimately show "fst (Start od s) = srv_running (snd (Start od s))" "fst (Start od s) \<Longrightarrow> 0 < accepts (snd (Start od s))"
    using init off by (simp_all add: Start_def case_prod_unfold case_bool_if split: if_splits)
qed

subsection \<open>The states of the program\<close>

text \<open>A state the program can reach, for any generated message code, any answers of the operating system and
  any clocks. \<open>config_ok\<close> limits \<open>--max-message-bytes\<close> to what a length prefix can hold;
  \<open>slot_size\<close> is the size of a pool slot, which holds at least a pointer.\<close>

definition program_state :: "(byte list \<Rightarrow> NetworkMessage option) \<Rightarrow> (NetworkMessage \<Rightarrow> byte list) \<Rightarrow> options \<Rightarrow> (nat \<Rightarrow> u64)
    \<Rightarrow> bool \<Rightarrow> nat \<Rightarrow> size_t \<Rightarrow> (nat \<Rightarrow> bool) \<Rightarrow> (nat \<Rightarrow> int) \<Rightarrow> Router Server \<Rightarrow> bool" where
  "program_state parse build o1 unix debug slot_size cores oracle clock s \<longleftrightarrow>
     config_ok (server_config o1) \<and> 4 \<le> slot_size \<and> slot_size < 2 ^ 32 \<and>
     reachable (main_handlers parse build o1 unix) debug slot_size (srv_new cores (server_config o1) oracle clock rt_new) s"

lemma program_state_ok:
  assumes "program_state parse build o1 unix debug slot_size cores oracle clock s"
  shows "srv_inv None None s" and "identities_live s" and "quiet s"
proof -
  let ?s0 = "srv_new cores (server_config o1) oracle clock rt_new"
  have a: "reachable (main_handlers parse build o1 unix) debug slot_size ?s0 s" "4 \<le> slot_size" "slot_size < 2 ^ 32"
    "srv_inv None None ?s0"
    using assms by (simp_all add: program_state_def srv_new_inv)
  have b: "identities_live ?s0" "quiet ?s0"
    by (simp_all add: identities_live_def srv_new_def rt_new_def live_handles_def quiet_def)
      (use rt_inv_new in \<open>simp add: rt_new_def\<close>)
  show "srv_inv None None s" by (rule main_app.reachable_ok [OF a(1) a(4) a(2,3)])
  show "identities_live s" by (rule main_app.reachable_holds [OF a(1) a(4) a(2,3) b(1)])
  show "quiet s" by (rule main_app.reachable_quiet [OF a(1) a(4) a(2,3) b(2)])
qed

lemma Initialize_listening:
  "\<not> srv_initialized s \<Longrightarrow> fst (Initialize debug slot_size s) \<Longrightarrow> srv_listen_socket (snd (Initialize debug slot_size s)) \<noteq> None"
  by (auto simp: Initialize_def split: prod.splits option.splits sum.splits bool.splits if_splits)

lemma Initialize_initialized: "fst (Initialize debug slot_size s) \<Longrightarrow> srv_initialized (snd (Initialize debug slot_size s))"
  by (auto simp: Initialize_def split: prod.splits option.splits sum.splits bool.splits if_splits)

text \<open>The start sequence of \<open>main\<close> is a run of the program and tells truly whether the server runs.\<close>

lemma main_start_running:
  assumes "srv_inv None None s" and "4 \<le> slot_size" and "slot_size < 2 ^ 32" and "\<not> srv_running s"
  shows "fst (main_start od debug slot_size s) \<longleftrightarrow> srv_running (snd (main_start od debug slot_size s))"
proof -
  let ?s1 = "snd (Initialize debug slot_size s)"
  have "srv_inv None None ?s1" "\<not> srv_running ?s1" using Initialize_inv [OF assms(1-3)] assms(4) by simp_all
  then show ?thesis using Start_result(1) [OF _ Initialize_initialized, of debug slot_size s od]
    by (auto simp: main_start_def case_prod_unfold case_bool_if)
qed

lemma main_start_state:
  assumes "config_ok (server_config o1)" and "4 \<le> slot_size" and "slot_size < 2 ^ 32"
  shows "program_state parse build o1 unix debug slot_size cores oracle clock
    (snd (main_start (Some OnDisconnect) debug slot_size (srv_new cores (server_config o1) oracle clock rt_new)))"
proof -
  let ?hs = "main_handlers parse build o1 unix" and ?s0 = "srv_new cores (server_config o1) oracle clock rt_new :: Router Server"
  let ?s1 = "snd (Initialize debug slot_size ?s0)"
  have new: "\<not> srv_initialized ?s0" "\<not> srv_stopping ?s0" by (simp_all add: srv_new_def)
  have one: "reachable ?hs debug slot_size ?s0 ?s1"
    by (rule stepped [OF created initialize]) (simp add: StopWaiting_def new)
  have "reachable ?hs debug slot_size ?s0 (snd (Start (Some OnDisconnect) ?s1))" if "fst (Initialize debug slot_size ?s0)"
    using stepped [OF one server_step.start] Initialize_listening [OF new(1) that] by (simp add: StopWaiting_def)
  with one assms show ?thesis by (simp add: program_state_def main_start_def case_prod_unfold case_bool_if)
qed

end
