(* ===== verification/Concurrent_Races.thy ===== *)
theory Concurrent_Races
  imports Concurrent_Connections Stop_Drain
begin

text \<open>
  Interleavings that the code does not exclude, found by running the threads of
  \<open>Concurrent_Steps\<close> under a schedule: the connection limit is passed, a connection is refused
  although none is active, \<open>Stop\<close> misses a session that is being accepted, and a write is posted on a
  socket that was closed. The bounds of \<open>Concurrent_Safety\<close> and \<open>Concurrent_Connections\<close> hold for
  these runs too.
\<close>

subsection \<open>Schedules\<close>

text \<open>A move of thread \<open>i\<close>: it makes a call, or executes its top frame.\<close>

datatype move = Call nat frame | Go nat

fun play :: "'app Handlers \<Rightarrow> move \<Rightarrow> 'app Machine \<Rightarrow> 'app Machine option" where
  "play hs (Call i f) m =
    (if i < length (mc_threads m) \<and> mc_threads m ! i = [] \<and> callable f (mc_server m)
     then Some (m\<lparr>mc_threads := (mc_threads m)[i := [f]]\<rparr>) else None)"
| "play hs (Go i) m =
    (if i < length (mc_threads m) then
       (case mc_threads m ! i of
          [] \<Rightarrow> None
        | f # rest \<Rightarrow>
            (case exec hs f (mc_server m) (mc_locks m) of
               None \<Rightarrow> None
             | Some (fs, s, L) \<Rightarrow> Some \<lparr>mc_server = s, mc_locks = L, mc_threads = (mc_threads m)[i := fs @ rest]\<rparr>))
     else None)"

fun plays :: "'app Handlers \<Rightarrow> move list \<Rightarrow> 'app Machine \<Rightarrow> 'app Machine option" where
  "plays hs [] m = Some m"
| "plays hs (x # xs) m = (case play hs x m of None \<Rightarrow> None | Some m1 \<Rightarrow> plays hs xs m1)"

lemma play_step: "play hs x m = Some m' \<Longrightarrow> machine_step hs m m'"
  by (cases x) (auto intro: machine_step.run machine_step.call split: if_splits list.splits option.splits)

lemma plays_interleaved: "interleaved hs n s m \<Longrightarrow> plays hs xs m = Some m' \<Longrightarrow> interleaved hs n s m'"
  by (induction xs arbitrary: m) (auto split: option.splits dest!: play_step intro: interleaved.continued)

definition played :: "'app Handlers \<Rightarrow> nat \<Rightarrow> 'app Server \<Rightarrow> move list \<Rightarrow> ('app Machine \<Rightarrow> bool) \<Rightarrow> bool" where
  "played hs n s xs P \<longleftrightarrow>
    (case plays hs xs \<lparr>mc_server = s, mc_locks = {}, mc_threads = replicate n []\<rparr> of None \<Rightarrow> False | Some m \<Rightarrow> P m)"

lemma played_interleaved: "played hs n s xs P \<Longrightarrow> \<exists>m. interleaved hs n s m \<and> P m"
  unfolding played_def using plays_interleaved [OF interleaved.begun] by (fastforce split: option.splits)

subsection \<open>A started server\<close>

definition race_config :: ServerConfig where
  "race_config = default_config\<lparr>cfg_accept_depth := 2, cfg_worker_count := 2, cfg_max_connections := 1\<rparr>"

definition race_options :: options where
  "race_options = (initial_options None None)\<lparr>opt_config := race_config\<rparr>"

definition race_handlers :: "Router Handlers" where
  "race_handlers = main_handlers (\<lambda>_. None) (\<lambda>_. []) race_options (\<lambda>_. 0)"

text \<open>Every call to the operating system succeeds.\<close>

definition race_new :: "Router Server" where
  "race_new = srv_new 2 race_config (\<lambda>_. True) (\<lambda>_. 0) rt_new"

definition race_server :: "Router Server" where
  "race_server = snd (main_start (Some OnDisconnect) False 8 race_new)"

lemma race_new_eq:
  "srv_config race_new = race_config" "srv_oracle race_new = (\<lambda>_. True)" "srv_clock race_new = (\<lambda>_. 0)"
  "srv_winsock_started race_new = False" "srv_open_sockets race_new = []"
  "srv_next_socket race_new = 0" "srv_ticks race_new = 0" "srv_initialized race_new = False"
  "srv_outstanding race_new = 0" "srv_running race_new = False" "srv_next_session_id race_new = 1"
  "srv_next_generation race_new = 1" "srv_store race_new = []" "srv_sessions race_new = sr_new"
  "srv_metrics race_new = zero_metrics" "srv_reads race_new = []" "srv_writes race_new = []" "srv_accepted_log race_new = []"
  by (simp_all add: race_new_def srv_new_def normalized_config_def race_config_def default_config_def)

lemma draws_succeed: "srv_oracle s = (\<lambda>_. True) \<Longrightarrow> draws n s = (True, s\<lparr>srv_ticks := srv_ticks s + n\<rparr>)"
  by (induction n arbitrary: s) (simp_all add: draw_def)

lemma race_server_eq:
  "race_server = race_new\<lparr>srv_winsock_started := True, srv_open_sockets := [2, 1, 0], srv_next_socket := 3, srv_ticks := 14,
     srv_accept_pool := Some \<lparr>pool_debug = False, pool_slot_size = 8, pool_slots = [Storage (Some 1), Storage (Some 2)],
       pool_free_head = None, pool_allocated = []\<rparr>,
     srv_completion_port := True, srv_listen_socket := Some 0, srv_initialized := True,
     srv_running := True, srv_stopping := False, srv_outstanding := 2\<rparr>"
proof -
  have new: "cfg_accept_depth race_config = 2" by (simp add: race_config_def)
  have two: "PostAccepts 2 s = PostAccepts (Suc (Suc 0)) s" for s :: "Router Server" by (simp add: numeral_2_eq_2)
  have slots: "[0..<2] = [0, 1 :: nat]" by (simp add: upt_rec)
  show ?thesis
    unfolding race_server_def main_start_def
    by (simp add: Initialize_def WinsockStart_def OpenSocket_def draw_def draws_succeed race_new_eq new pool_new_def size_max_def
        Start_def PostNewAccept_def pool_Create_def PostAccept_def TrackOperation_def slot_next_def Let_def two slots)
qed

lemma race_server_state:
  "program_state (\<lambda>_. None) (\<lambda>_. []) race_options (\<lambda>_. 0) False 8 2 (\<lambda>_. True) (\<lambda>_. 0) race_server"
proof -
  have config: "server_config race_options = race_config" "config_ok race_config"
    by (simp_all add: server_config_def race_options_def initial_options_def config_ok_def race_config_def default_config_def)
  then show ?thesis using main_start_state [of race_options 8] by (simp add: race_server_def race_new_def)
qed

definition race_item :: OutboundItem where
  "race_item = \<lparr>oi_header = [], oi_payload = [1], oi_close_after = False\<rparr>"

subsection \<open>The schedules\<close>

lemmas race_simps = played_def race_server_eq race_new_eq race_config_def race_handlers_def action_simps count_def set_sess_def sess_def
  InvokeSession_def ReleaseInbound_def new_session_def zero_metrics_def active_def alive_def numeral_eq_Suc

text \<open>Both workers read the counter before either has added to it.\<close>

definition limit_schedule :: "move list" where
  "limit_schedule = [Call 0 (Acc (AccRunning 1)), Call 1 (Acc (AccRunning 2)), Go 0, Go 0, Go 1, Go 1] @ replicate 12 (Go 0) @ replicate 12 (Go 1)"

lemma limit_played:
  "played race_handlers 2 race_server limit_schedule (\<lambda>m. mc_threads m = [[], []] \<and> active (mc_server m) = 2 \<and>
     cfg_max_connections (srv_config (mc_server m)) = 1)"
  by (simp add: limit_schedule_def race_simps)

text \<open>Worker 0 has inserted its session and not yet counted it; worker 1 disconnects it, so the counter
  wraps around; worker 2 reads it.\<close>

definition refuse_schedule :: "move list" where
  "refuse_schedule = Call 0 (Acc (AccRunning 1)) # replicate 7 (Go 0) @
     Call 1 (Dis (DiscStart 0)) # replicate 9 (Go 1) @ Call 2 (Acc (AccRunning 2)) # replicate 2 (Go 2)"

lemma refuse_played:
  "played race_handlers 3 race_server refuse_schedule (\<lambda>m. active (mc_server m) = 0 \<and>
     m_active_connections (srv_metrics (mc_server m)) = -1 \<and> m_rejected_connections (srv_metrics (mc_server m)) = 1 \<and>
     mc_threads m ! 2 = [Acc (AccClose 2)])"
  by (simp add: refuse_schedule_def race_simps)

text \<open>Worker 0 has seen that the server runs; \<open>Stop\<close> then looks for sessions and finds none; worker 0
  goes on.\<close>

definition stop_schedule :: "move list" where
  "stop_schedule = [Call 0 (Acc (AccRunning 1)), Go 0, Call 1 (Sto StopExchange)] @ replicate 36 (Go 1) @ replicate 13 (Go 0)"

lemma stop_played:
  "played race_handlers 2 race_server stop_schedule (\<lambda>m. mc_threads m = [[], [Sto StopWait]] \<and> \<not> srv_running (mc_server m) \<and>
     alive (sess 0 (mc_server m)) \<and> srv_reads (mc_server m) = [Some 0] \<and> srv_outstanding (mc_server m) = 3)"
  by (simp add: stop_schedule_def race_simps sr_new_def ShardCount_def)

text \<open>Thread 0 has loaded the socket of the session for \<open>WSASend\<close>; thread 1 disconnects the session and
  closes the socket.\<close>

definition socket_schedule :: "move list" where
  "socket_schedule = Call 0 (Acc (AccRunning 1)) # replicate 14 (Go 0) @
     Call 0 (Enq (EnqLock 0 race_item)) # replicate 9 (Go 0) @ Call 1 (Dis (DiscStart 0)) # replicate 5 (Go 1)"

lemma race_item_fits:
  "\<not> exceeds (item_bytes race_item) 0 (cfg_max_session_queued_bytes default_config)"
  "\<not> exceeds (item_bytes race_item) 0 (cfg_max_global_queued_bytes default_config)"
  "length (oi_header race_item) \<le> send_header_capacity"
  "sc_new (oi_header race_item) (Some (oi_payload race_item)) =
     Inr \<lparr>sc_header = replicate 16 0, sc_header_size = 0, sc_payload = Some [1], sc_sent = 0\<rparr>"
  by (simp_all add: exceeds_def item_bytes_def race_item_def default_config_def sc_new_def send_header_capacity_def)

lemma socket_played:
  "played race_handlers 2 race_server socket_schedule (\<lambda>m. \<exists>w. mc_threads m ! 0 = [Wri (PostSend 0 w 1)] \<and>
     1 \<notin> set (srv_open_sockets (mc_server m)))"
  by (simp add: socket_schedule_def race_simps race_item_fits)

end
