(* ===== verification/Example_Run.thy ===== *)
theory Example_Run
  imports Stop_Drain
begin

text \<open>
  A concrete run of the program, on which the properties of reachable states are exercised: the
  server starts, accepts a connection, receives a raw frame with an \<open>Authenticate\<close> message, answers it,
  and is told to stop while the answer is being sent. Every call to the operating system succeeds. The
  clock stands still until the answer is under way and then jumps by 100 seconds.
\<close>

definition example_options :: options where
  "example_options = (initial_options (Some ''t'') None)\<lparr>opt_config := default_config\<lparr>cfg_accept_depth := 1\<rparr>\<rparr>"

definition example_message :: NetworkMessage where
  "example_message = \<lparr>nm_protocol_version = 1, nm_request_id = 5, nm_sequence_id = 0, nm_sent_at_ms = 0,
     nm_payload = PayloadAuthenticate (Some (Some ''t''))\<rparr>"

definition example_handlers :: "Router Handlers" where
  "example_handlers = main_handlers (\<lambda>b. Some example_message) (\<lambda>m. [7]) example_options (\<lambda>n. 0)"

definition example_clock :: "nat \<Rightarrow> int" where
  "example_clock n = (if n < 25 then 0 else 100000)"

definition example_new :: "Router Server" where
  "example_new = srv_new 1 (server_config example_options) (\<lambda>_. True) example_clock rt_new"

definition example_initialized :: "Router Server" where
  "example_initialized = snd (Initialize False 8 example_new)"

definition example_started :: "Router Server" where
  "example_started = snd (Start (on_disconnect example_handlers) example_initialized)"

definition example_accepted :: "Router Server" where
  "example_accepted = WorkerDispatch example_handlers (AcceptDone 0 True) example_started"

lemma example_config: "srv_config example_new = default_config\<lparr>cfg_accept_depth := 1, cfg_worker_count := 1\<rparr>"
  by (simp add: example_new_def srv_new_def normalized_config_def server_config_def example_options_def
      initial_options_def default_config_def max_def)

lemma example_config_ok: "config_ok (server_config example_options)"
  by (simp add: config_ok_def server_config_def example_options_def initial_options_def default_config_def)

lemma draws_True: "srv_oracle s = (\<lambda>_. True) \<Longrightarrow> draws n s = (True, s\<lparr>srv_ticks := srv_ticks s + n\<rparr>)"
  by (induction n arbitrary: s) (simp_all add: draw_def)

lemma example_initialized_eq:
  "example_initialized = example_new\<lparr>srv_winsock_started := True, srv_open_sockets := [0], srv_next_socket := 1, srv_ticks := 9,
     srv_accept_pool := Some \<lparr>pool_debug = False, pool_slot_size = 8, pool_slots = [NextFree None], pool_free_head = Some 0, pool_allocated = []\<rparr>,
     srv_completion_port := True, srv_listen_socket := Some 0, srv_initialized := True\<rparr>"
proof -
  have new: "srv_oracle example_new = (\<lambda>_. True)" "srv_winsock_started example_new = False" "srv_open_sockets example_new = []"
      "srv_next_socket example_new = 0" "srv_ticks example_new = 0" "srv_initialized example_new = False"
    by (simp_all add: example_new_def srv_new_def)
  show ?thesis
    unfolding example_initialized_def
    by (simp add: Initialize_def WinsockStart_def OpenSocket_def draw_def draws_True new example_config pool_new_def size_max_def)
qed

lemma example_started_eq:
  "example_started = example_initialized\<lparr>srv_running := True, srv_stopping := False, srv_ticks := 12, srv_open_sockets := [1, 0], srv_next_socket := 2,
     srv_accept_pool := Some \<lparr>pool_debug = False, pool_slot_size = 8, pool_slots = [Storage (Some 1)], pool_free_head = None, pool_allocated = []\<rparr>,
     srv_outstanding := 1\<rparr>"
proof -
  have new: "srv_oracle example_new = (\<lambda>_. True)" "srv_outstanding example_new = 0" "srv_running example_new = False"
    by (simp_all add: example_new_def srv_new_def)
  show ?thesis
    unfolding example_started_def
    by (simp add: Start_def draw_def example_initialized_eq new example_config PostNewAccept_def OpenSocket_def pool_Create_def
        PostAccept_def TrackOperation_def slot_next_def Let_def)
qed

definition example_session :: ClientSession where
  "example_session = (new_session \<lparr>sh_id = 1, sh_generation = 1\<rparr> 1 (srv_config example_new) 0)\<lparr>se_state := Handshaking\<rparr>"

lemma example_accepted_eq:
  "example_accepted = example_started\<lparr>srv_ticks := 19, srv_open_sockets := [2, 1, 0], srv_next_socket := 3,
     srv_accept_pool := Some \<lparr>pool_debug = False, pool_slot_size = 8, pool_slots = [Storage (Some 2)], pool_free_head = None, pool_allocated = []\<rparr>,
     srv_next_session_id := 2, srv_next_generation := 2, srv_store := [example_session],
     srv_sessions := sr_Insert \<lparr>sh_id = 1, sh_generation = 1\<rparr> 0 sr_new,
     srv_metrics := zero_metrics\<lparr>m_accepted_connections := 1, m_active_connections := 1\<rparr>,
     srv_reads := [Some 0], srv_outstanding := 2\<rparr>"
proof -
  have new: "srv_oracle example_new = (\<lambda>_. True)" "srv_clock example_new = example_clock" "srv_next_session_id example_new = 1"
      "srv_next_generation example_new = 1" "srv_store example_new = []" "srv_sessions example_new = sr_new"
      "srv_metrics example_new = zero_metrics" "srv_reads example_new = []" "cfg_max_connections (srv_config example_new) = 10000"
    by (simp_all add: example_new_def srv_new_def normalized_config_def server_config_def example_options_def
        initial_options_def default_config_def)
  show ?thesis
    unfolding example_accepted_def
    by (simp add: HandleAccept_def accept_socket_def set_accept_socket_def AcceptSession_def InsertSession_def MonotonicMilliseconds_def
        PostRead_def PostReadOp_def RepostAccept_def OpenSocket_def PostAccept_def draw_def TrackOperation_def count_def sess_def
        InvokeSession_def example_handlers_def example_started_eq example_initialized_eq new example_session_def new_session_def
        zero_metrics_def example_clock_def Let_def)
qed

lemma example_accepted_fields [simp]:
  "srv_store example_accepted = [example_session]" "alive example_session"
  "srv_reads example_accepted = [Some 0]" "srv_running example_accepted" "srv_writes example_accepted = []"
  by (simp_all add: example_accepted_eq example_session_def new_session_def alive_def example_started_eq example_initialized_eq
      example_new_def srv_new_def)

text \<open>The session sends a frame of one byte, the router answers with another one, and the socket takes
  three bytes of the answer.\<close>

definition example_read :: "Router Server" where
  "example_read = WorkerDispatch example_handlers (ReadDone 0 True [0, 0, 0, 1, 9]) example_accepted"

definition example_partial :: "Router Server" where
  "example_partial = WorkerDispatch example_handlers (WriteDone 0 True 3) example_read"

lemma example_config_fields:
  "cfg_max_session_inbound_bytes (srv_config example_new) = 2097152" "cfg_max_message_bytes (srv_config example_new) = 1048576"
  "cfg_max_global_inbound_bytes (srv_config example_new) = 268435456" "cfg_max_messages_per_second (srv_config example_new) = 10000"
  "cfg_malformed_message_limit (srv_config example_new) = 3" "cfg_max_session_queued_bytes (srv_config example_new) = 4194304"
  "cfg_idle_timeout (srv_config example_new) = 60000" "cfg_max_global_queued_bytes (srv_config example_new) = 536870912" "cfg_receive_buffer_bytes (srv_config example_new) = 8192"
  by (simp_all add: example_new_def srv_new_def normalized_config_def server_config_def example_options_def
        initial_options_def default_config_def max_def)

definition example_decoder :: "nat \<Rightarrow> LengthPrefixedAccumulator" where
  "example_decoder cursor = (lpa_new 1048576 2097152)\<lparr>lpa_buffer := [0, 0, 0, 1, 9], lpa_cursor := cursor\<rparr>"

lemma example_decoding:
  "lpa_Append [0, 0, 0, 1, 9] (lpa_new 1048576 2097152) = (True, example_decoder 0)"
  "lpa_Next (example_decoder 0) = (MessageReady, [9], example_decoder 5)"
  "lpa_Next (example_decoder 5) = (NeedMoreData, [], example_decoder 5)"
  "lpa_BufferedBytes (example_decoder 0) = 5" "lpa_BufferedBytes (example_decoder 5) = 0"
  by (simp_all add: lpa_Append_def lpa_new_def lpa_CompactIfUseful_def compact_def example_decoder_def lpa_Next_def HeaderSize_def
      be32_def lpa_BufferedBytes_def Let_def)

lemma example_not_http: "\<not> possible_http [0, 0, 0, 1, 9]"
  by (simp add: possible_http_def GetPrefix_def bytes_of_string_def Let_def)

definition example_open :: ClientSession where
  "example_open = example_session\<lparr>se_state := Open, se_transport := RawTcp, se_raw_decoder := example_decoder 5,
     se_rate_window_messages := 1\<rparr>"

lemma example_new_fields:
  "srv_oracle example_new = (\<lambda>_. True)" "srv_clock example_new = example_clock" "srv_writes example_new = []"
  "srv_accepted_log example_new = []" "srv_wire_log example_new = []" "srv_app example_new = rt_new"
  by (simp_all add: example_new_def srv_new_def)

lemmas example_states = example_accepted_eq example_started_eq example_initialized_eq example_new_fields example_config_fields

lemmas raw_loop_unroll = raw_loop.simps(2) [where fuel = "pred_numeral k" for k, folded numeral_eq_Suc]

definition example_cursor :: "nat \<Rightarrow> SendCursor" where
  "example_cursor n = \<lparr>sc_header = [0, 0, 0, 1] @ replicate 12 0, sc_header_size = 4, sc_payload = Some [7], sc_sent = n\<rparr>"

lemma example_sending:
  "sc_new [0, 0, 0, 1] (Some [7]) = Inr (example_cursor 0)" "sc_Consume 3 (example_cursor 0) = example_cursor 3"
  "\<not> sc_Complete (example_cursor 3)" "sc_Remaining (example_cursor 0) = 5" "EncodeLength (Suc 0) = Inr [0, 0, 0, 1]"
  "sc_HeaderRemainder (example_cursor 0) = [0, 0, 0, 1]" "sc_PayloadRemainder (example_cursor 0) = [7]"
  "sc_HeaderRemainder (example_cursor 3) = [1]" "sc_PayloadRemainder (example_cursor 3) = [7]"
  by (simp_all add: sc_new_def send_header_capacity_def example_cursor_def sc_Consume_def sc_Remaining_def sc_TotalSize_def
      sc_Complete_def EncodeLength_def sc_HeaderRemainder_def sc_PayloadRemainder_def Let_def)

definition example_router :: Router where
  "example_router = rt_new\<lparr>rt_principals := [\<lparr>sh_id = 1, sh_generation = 1\<rparr> \<mapsto> ''service-user''], rt_sequence := 2\<rparr>"

lemma example_authenticator: "authenticator example_options ''t'' = Some ''service-user''"
  by (simp add: authenticator_def ConstantTimeEqual_eq example_options_def initial_options_def)

text \<open>Sending one byte to an open raw session with nothing queued.\<close>

lemma example_send:
  assumes "srv_sessions s = sr_Insert \<lparr>sh_id = 1, sh_generation = 1\<rparr> 0 sr_new" and "srv_store s = [c]"
    and "se_handle c = \<lparr>sh_id = 1, sh_generation = 1\<rparr>" and "se_state c = Open" and "se_transport c = RawTcp" and "se_socket c = Some k"
    and "\<not> se_disconnect_started c" and "se_queued_bytes c = 0" and "se_send_queue c = []" and "\<not> se_write_active c"
    and "srv_config s = srv_config example_new" and "srv_oracle s = (\<lambda>_. True)" and "m_queued_bytes (srv_metrics s) = 0"
    and "srv_writes s = []" and "srv_accepted_log s = []"
  shows "ServerSend od \<lparr>sh_id = 1, sh_generation = 1\<rparr> (Some [7]) s =
    (True, s\<lparr>srv_ticks := srv_ticks s + 2, srv_store := [c\<lparr>se_queued_bytes := 5, se_write_active := True\<rparr>],
       srv_metrics := (srv_metrics s)\<lparr>m_queued_bytes := 5\<rparr>, srv_outstanding := srv_outstanding s + 1,
       srv_writes := [Some \<lparr>wo_session = 0, wo_cursor = example_cursor 0, wo_close_after = False\<rparr>],
       srv_accepted_log := [(0, [0, 0, 0, 1, 7])]\<rparr>)"
proof -
  have "FindSession \<lparr>sh_id = 1, sh_generation = 1\<rparr> s = Some 0"
    using assms by (simp add: FindSession_def sr_Find_def deref_def sess_def sr_Insert_def sr_new_def shard_of_def ShardCount_def)
  then show ?thesis
    using assms
    by (simp add: ServerSend_def Enqueue_def ReserveGlobalQueued_def StartNextWrite_def PostWrite_def draw_def TrackOperation_def
        count_def set_sess_def sess_def item_bytes_def item_wire_def example_sending example_config_fields Let_def)
qed

lemma example_read_eq:
  "example_read = example_accepted\<lparr>srv_ticks := 24, srv_store := [example_open\<lparr>se_queued_bytes := 5, se_write_active := True\<rparr>],
     srv_metrics := zero_metrics\<lparr>m_accepted_connections := 1, m_active_connections := 1, m_received_messages := 1, m_queued_bytes := 5\<rparr>,
     srv_outstanding := 3, srv_app := example_router,
     srv_writes := [Some \<lparr>wo_session = 0, wo_cursor = example_cursor 0, wo_close_after = False\<rparr>],
     srv_accepted_log := [(0, [0, 0, 0, 1, 7])]\<rparr>"
  unfolding example_read_def
  by (simp add: HandleRead_def MonotonicMilliseconds_def ProcessIncoming_def ProcessDetection_def ProcessRaw_def sess_def
    UpdateInboundAccounting_def set_sess_def count_def example_not_http Let_def example_states raw_loop_unroll
    DeliverMessage_def example_handlers_def Handle_def server_env_def example_message_def ProtocolVersion_def handle_authenticate_def
    ValidString_def MaxTextLength_def example_authenticator reply_def example_send
    rate_tick_def example_decoding PostReadOp_def draw_def example_open_def rt_new_def
    example_session_def new_session_def zero_metrics_def example_router_def example_clock_def)

lemma example_partial_eq:
  "example_partial = example_read\<lparr>srv_ticks := 25, srv_writes := [Some \<lparr>wo_session = 0, wo_cursor = example_cursor 3, wo_close_after = False\<rparr>],
     srv_wire_log := [(0, [0, 0, 0])]\<rparr>"
  unfolding example_partial_def
  by (simp add: HandleWrite_def PostWrite_def draw_def example_sending sess_def write_buffers_def
      example_read_eq example_states example_open_def example_session_def new_session_def Let_def)

definition example_stopping :: "Router Server" where
  "example_stopping = Stop (on_disconnect example_handlers) example_partial"

lemma example_reachable:
  "reachable example_handlers False 8 example_new example_accepted"
  "reachable example_handlers False 8 example_new example_partial"
  "reachable example_handlers False 8 example_new example_stopping"
proof -
  have off: "srv_stopping example_new = False" by (simp add: example_new_def srv_new_def)
  have "reachable example_handlers False 8 example_new example_initialized"
    unfolding example_initialized_def
    by (rule stepped [OF created initialize]) (simp add: StopWaiting_def off)
  then have "reachable example_handlers False 8 example_new example_started"
    unfolding example_started_def
    by (rule stepped [OF _ start]) (simp add: StopWaiting_def example_initialized_eq off)
  then show accepted: "reachable example_handlers False 8 example_new example_accepted"
    unfolding example_accepted_def
    by (rule stepped [OF _ completed])
      (simp add: example_started_eq example_initialized_eq pool_capacity_def example_new_def srv_new_def)
  have "reachable example_handlers False 8 example_new example_read"
    unfolding example_read_def
    by (rule stepped [OF accepted completed]) (simp add: example_states)
  then show part: "reachable example_handlers False 8 example_new example_partial"
    unfolding example_partial_def
    by (rule stepped [OF _ completed]) (simp add: example_read_eq example_sending)
  show "reachable example_handlers False 8 example_new example_stopping"
    unfolding example_stopping_def by (rule stepped [OF part stop])
qed

lemma example_program:
  "reachable example_handlers False 8 example_new s \<Longrightarrow>
     program_state (\<lambda>b. Some example_message) (\<lambda>m. [7]) example_options (\<lambda>n. 0) False 8 1 (\<lambda>_. True) example_clock s"
  by (simp add: program_state_def example_config_ok example_handlers_def example_new_def)

lemma example_stopping_waits: "StopWaiting example_stopping" "in_flight example_stopping = 3"
proof -
  have "srv_running example_partial" "srv_outstanding example_partial = 3" "srv_initialized example_partial"
    by (simp_all add: example_partial_eq example_read_eq example_states)
  moreover have "in_flight example_partial = 3"
  proof -
    have "{i. i = 0 \<and> is_storage ([Storage (Some (2 :: nat))] ! i)} = {0 :: nat}" by auto
    then show ?thesis
      by (simp add: example_partial_eq example_read_eq example_states in_flight_def accepts_def osum_def live_def pool_capacity_def)
  qed
  ultimately show "StopWaiting example_stopping" "in_flight example_stopping = 3"
    by (simp_all add: example_stopping_def Stop_def StopWaiting_def Let_def)
qed

lemmas example_program_states = example_reachable [THEN example_program]

end
