(* ===== verification/Concurrent_Properties.thy ===== *)
theory Concurrent_Properties
  imports Concurrent_Alone Concurrent_Races Example_Run
begin

text \<open>
  What holds when the threads of the program interleave, and what does not. The properties start from any state
  the program reaches and let any number of threads run from there.
\<close>

lemma interleaved_ok:
  assumes "program_state parse build o1 unix debug slot_size cores oracle clock s" and "interleaved hs n s m"
  shows "machine_inv m"
  using interleaved_inv [OF assms(2)] program_state_ok(1) [OF assms(1)] .

text \<open>A run in which both workers of a server that allows one connection accept one.\<close>

lemma limit_run:
  obtains m where "interleaved race_handlers 2 race_server m" and "mc_threads m = [[], []]" and "active (mc_server m) = 2"
    and "cfg_max_connections (srv_config (mc_server m)) = 1" and "0 < length (srv_store (mc_server m))"
proof -
  obtain m where m: "interleaved race_handlers 2 race_server m" "mc_threads m = [[], []]" "active (mc_server m) = 2"
    "cfg_max_connections (srv_config (mc_server m)) = 1"
    using played_interleaved [OF limit_played] by blast
  then have "srv_store (mc_server m) \<noteq> []" by (auto simp: active_def)
  with m that show ?thesis by blast
qed

subsection \<open>Safety\<close>

text \<open>C10. Byte accounting under concurrency. However the threads interleave inside \<open>Enqueue\<close>, the write
  completions and \<open>Disconnect\<close>, the global counter and each session's counter are at every moment the bytes in
  the queues and with the kernel plus what the threads hold, such as an item taken from a queue and not
  yet posted. Neither counter ever passes its limit or wraps around, although the global one is changed
  without a lock.\<close>

theorem conc_accounting:
  assumes "program_state parse build o1 unix debug slot_size cores oracle clock s" and "interleaved hs n s m"
  shows "let t = mc_server m in
    unat (m_queued_bytes (Metrics t)) = resting_global t + tally owed_global (mc_threads m) \<and>
    unat (m_queued_bytes (Metrics t)) \<le> unat (cfg_max_global_queued_bytes (srv_config t)) \<and>
    (\<forall>p < length (srv_store t). unat (se_queued_bytes (sess p t)) = resting p t + tally (owed p) (mc_threads m) \<and>
       unat (se_queued_bytes (sess p t)) \<le> unat (cfg_max_session_queued_bytes (srv_config t)))"
  using interleaved_ok [OF assms]
  unfolding machine_inv_def bytes_inv_def session_bytes_def global_bytes_def Metrics_def Let_def by blast

theorem conc_accounting_witness:
  "\<exists>m w. interleaved race_handlers 2 race_server m \<and> mc_threads m ! 0 = [Wri (PostSend 0 w 1)] \<and>
     unat (m_queued_bytes (Metrics (mc_server m))) = resting_global (mc_server m) + tally owed_global (mc_threads m)"
proof -
  obtain m w where m: "interleaved race_handlers 2 race_server m" "mc_threads m ! 0 = [Wri (PostSend 0 w 1)]"
    using played_interleaved [OF socket_played] by blast
  from conc_accounting [OF race_server_state this(1)] have
    "unat (m_queued_bytes (Metrics (mc_server m))) = resting_global (mc_server m) + tally owed_global (mc_threads m)"
    by (simp add: Let_def)
  with m show ?thesis by blast
qed

text \<open>C11. One writer per session, and no lost wake-up, under concurrency. At every moment at most one thread or
  kernel operation is sending for a session, so two messages never mix on the wire. When a live session has bytes
  queued, a writer is at work or a thread is about to disconnect it. Once \<open>Disconnect\<close> has emptied the queue of a
  session, nothing is ever queued there again.\<close>

theorem conc_single_writer:
  assumes "program_state parse build o1 unix debug slot_size cores oracle clock s" and "interleaved hs n s m"
    and "p < length (srv_store (mc_server m))"
  shows "let t = mc_server m; ts = mc_threads m; writers = tally (writers_of p) ts + writes_of p (srv_writes t) in
    writers \<le> 1 \<and>
    (se_send_queue (sess p t) \<noteq> [] \<and> \<not> se_disconnect_started (sess p t) \<longrightarrow> writers = 1 \<or> 0 < tally (calls_of p) ts) \<and>
    (se_disconnect_started (sess p t) \<and> tally (closing p) ts = 0 \<longrightarrow>
       se_send_queue (sess p t) = [] \<and> tally (past_check p) ts = 0)"
proof -
  have "writer_ok p (mc_server m) (tally (writers_of p) (mc_threads m)) (tally (calls_of p) (mc_threads m))"
    "drain_ok p (mc_server m) (tally (closing p) (mc_threads m)) (tally (past_check p) (mc_threads m))"
    using interleaved_ok [OF assms(1,2)] assms(3) by (simp_all add: machine_inv_def writers_inv_def)
  then show ?thesis unfolding writer_ok_def drain_ok_def Let_def by force
qed

theorem conc_single_writer_witness:
  "\<exists>m. interleaved race_handlers 2 race_server m \<and> 0 < length (srv_store (mc_server m)) \<and>
     tally (writers_of 0) (mc_threads m) + writes_of 0 (srv_writes (mc_server m)) \<le> 1"
proof -
  obtain m where m: "interleaved race_handlers 2 race_server m" "0 < length (srv_store (mc_server m))" by (rule limit_run)
  with conc_single_writer [OF race_server_state this] show ?thesis by (auto simp: Let_def)
qed

text \<open>C14. The stack of every thread is well formed in every interleaving: a frame speaks only of sessions that
  were accepted and of operations that were allocated, below the top are only calls that wait for it, a lock is
  held by exactly one frame, and an operation belongs to one thread or to the kernel but never to two of them, so that
  no completion is handled on freed memory.\<close>

theorem conc_frames_typed:
  assumes "program_state parse build o1 unix debug slot_size cores oracle clock s" and "interleaved hs n s m"
  shows "(\<forall>f \<in> set (concat (mc_threads m)). frame_ok f (mc_server m)) \<and>
    (\<forall>st \<in> set (mc_threads m). \<forall>f \<in> set (tl st). waiting f) \<and>
    (\<forall>p. tally (locks_of p) (mc_threads m) = of_bool (p \<in> mc_locks m)) \<and>
    (\<forall>a. tally (owns a) (mc_threads m) + with_kernel a (mc_server m) \<le> 1)"
  using interleaved_ok [OF assms] unfolding machine_inv_def frames_inv_def by blast

theorem conc_frames_typed_witness:
  "\<exists>m. interleaved race_handlers 2 race_server m \<and> mc_threads m = [[], [Sto StopWait]] \<and>
     (\<forall>p. tally (locks_of p) (mc_threads m) = of_bool (p \<in> mc_locks m))"
proof -
  obtain m where m: "interleaved race_handlers 2 race_server m" "mc_threads m = [[], [Sto StopWait]]"
    using played_interleaved [OF stop_played] by blast
  with conc_frames_typed [OF race_server_state this(1)] show ?thesis by blast
qed

text \<open>C12. The connection limit under concurrency. With \<open>n\<close> threads the live sessions exceed \<open>max_connections\<close>
  by at most \<open>n - 1\<close>, since the test and the increment are separate; the counter is exact up to the
  threads that are between inserting a session and counting it, or between disconnecting and uncounting.\<close>

theorem conc_connections:
  assumes "program_state parse build o1 unix debug slot_size cores oracle clock s" and "interleaved hs n s m"
    and "unat (cfg_max_connections (srv_config s)) + 2 * n < 2 ^ 64"
  shows "let t = mc_server m; ts = mc_threads m in
    active t \<le> unat (cfg_max_connections (srv_config s)) + (n - 1) \<and>
    m_active_connections (Metrics t) = of_nat (active t + tally uncounted ts) - of_nat (tally inserted ts)"
  using interleaved_connections [OF assms(2) program_state_ok(1) [OF assms(1)] assms(3)]
  by (auto simp: connections_inv_def Metrics_def Let_def)

text \<open>The bound is reached: two workers, a limit of one, two connections.\<close>

theorem conc_connections_witness:
  "\<exists>m. interleaved race_handlers 2 race_server m \<and> active (mc_server m) = 2 \<and>
     cfg_max_connections (srv_config race_server) = 1 \<and> m_active_connections (Metrics (mc_server m)) = 2"
proof -
  obtain m where m: "interleaved race_handlers 2 race_server m" "mc_threads m = [[], []]" "active (mc_server m) = 2"
    by (rule limit_run)
  have one: "cfg_max_connections (srv_config race_server) = 1" by (simp add: race_server_eq race_new_eq race_config_def)
  from conc_connections [OF race_server_state m(1)] show ?thesis
    using m one by (auto simp: Let_def tally_def)
qed

subsection \<open>Refinement\<close>

text \<open>C13. The actions of a thread refine the functions of the server. A thread that runs \<open>Enqueue\<close>,
  \<open>Disconnect\<close>, \<open>StartNextWrite\<close>, \<open>HandleWrite\<close>, \<open>AcceptSession\<close> or \<open>Stop\<close> without interference comes to its end,
  in exactly the state that the function computes, and with every lock released.\<close>

theorem conc_refines_sequential:
  assumes "program_state parse build o1 unix debug slot_size cores oracle clock s" and "p < length (srv_store s)"
    and "a < length (srv_writes s)" and "srv_writes s ! a = Some w" and "srv_running s"
  shows "let od = on_disconnect hs in
    (alone hs [Enq (EnqLock p item)] s {} t L \<longleftrightarrow> t = enqueue_or_close od p item s \<and> L = {}) \<and>
    (alone hs [Dis (DiscStart p)] s {} t L \<longleftrightarrow> t = Disconnect od p s \<and> L = {}) \<and>
    (alone hs [Wri (NextPop p)] s {} t L \<longleftrightarrow> t = StartNextWrite od p s \<and> L = {}) \<and>
    (alone hs [Wri (WriteHandle a w ok n)] (s\<lparr>srv_writes := (srv_writes s)[a := None]\<rparr>) {} t L \<longleftrightarrow>
       t = HandleWrite od a ok n s \<and> L = {}) \<and>
    (alone hs [Acc (AccRunning k)] s {} t L \<longleftrightarrow>
       t = (case AcceptSession hs k s of (True, s1) \<Rightarrow> s1 | (False, s1) \<Rightarrow> closesocket k s1) \<and> L = {}) \<and>
    (alone hs [Sto StopExchange] s {} t L \<longleftrightarrow> srv_outstanding s = 0 \<and> t = Stop od s \<and> L = {})"
proof -
  have inv: "srv_inv None None s" by (rule program_state_ok(1) [OF assms(1)])
  have w: "wo_session w < length (srv_store s)" using srv_inv_write(1) [OF inv] assms(3,4) by (metis nth_mem)
  have shards: "length (srv_sessions s) = ShardCount" using inv by (simp add: srv_inv_def directory_inv_def sr_wf_def)
  have snap: "\<forall>p \<in> set (sr_Snapshot (srv_sessions s)). p \<notin> {} \<and> p < length (srv_store s)" using directory_snapshot [OF inv] by auto
  have stop: "alone hs [Sto StopWait] (StopBegin (on_disconnect hs) s) {} t L \<longleftrightarrow> srv_outstanding s = 0 \<and> t = Stop (on_disconnect hs) s \<and> L = {}"
    using assms(5) by (auto simp: alone_Cons alone_Nil Stop_def Let_def)
  show ?thesis unfolding Let_def
    using alone_Enqueue [of p "{}" s hs item "[]"] alone_Disconnect [of p "{}" s hs "[]"] alone_StartNextWrite [of p "{}" s hs "[]"]
      alone_HandleWrite [of w "{}" s a hs ok n "[]"] alone_AcceptSession [OF assms(5), of "{}" hs k "[]"]
      alone_StopBegin [OF assms(5) shards snap, of hs "[]"] stop w assms(2-4)
    by (auto simp: alone_Nil)
qed

theorem conc_refines_sequential_witness:
  "alone example_handlers [Dis (DiscStart 0)] example_partial {} (Disconnect (on_disconnect example_handlers) 0 example_partial) {} \<and>
   (\<nexists>t L. alone example_handlers [Sto StopExchange] example_partial {} t L)"
proof -
  have s: "0 < length (srv_store example_partial)" "0 < length (srv_writes example_partial)" "srv_running example_partial"
    "srv_writes example_partial ! 0 = Some \<lparr>wo_session = 0, wo_cursor = example_cursor 3, wo_close_after = False\<rparr>"
    "srv_outstanding example_partial \<noteq> 0"
    by (simp_all add: example_partial_eq example_read_eq example_states)
  note refines = conc_refines_sequential [OF example_program_states(2) s(1,2,4,3), unfolded Let_def]
  have "alone example_handlers [Dis (DiscStart 0)] example_partial {} (Disconnect (on_disconnect example_handlers) 0 example_partial) {}"
    using refines [THEN conjunct2, THEN conjunct1] by simp
  moreover have "\<not> alone example_handlers [Sto StopExchange] example_partial {} t L" for t L
    using refines [THEN conjunct2, THEN conjunct2, THEN conjunct2, THEN conjunct2, THEN conjunct2] s(5) by simp
  ultimately show ?thesis by blast
qed

subsection \<open>Races\<close>

text \<open>C17. \<open>Stop\<close> can miss a session. A worker that has seen the server running accepts a connection while \<open>Stop\<close>
  looks through the registry; the new session is then live on a server that does not run, with a read in
  flight, and \<open>Stop\<close> waits for a client that nobody disconnects.\<close>

theorem conc_stop_misses:
  "\<exists>m. interleaved race_handlers 2 race_server m \<and> mc_threads m = [[], [Sto StopWait]] \<and> \<not> IsRunning (mc_server m) \<and>
     alive (sess 0 (mc_server m)) \<and> srv_reads (mc_server m) = [Some 0] \<and> srv_outstanding (mc_server m) \<noteq> 0"
  using played_interleaved [OF stop_played] by (force simp: IsRunning_def)

text \<open>C18. A write can be posted on a closed socket. Between the load of a session's socket and \<open>WSASend\<close>, another
  thread can disconnect the session and close the socket, whose number the system may by then have given to
  a new connection.\<close>

theorem conc_socket_closed:
  "\<exists>m w. interleaved race_handlers 2 race_server m \<and> mc_threads m ! 0 = [Wri (PostSend 0 w 1)] \<and>
     1 \<notin> set (srv_open_sockets (mc_server m))"
  using played_interleaved [OF socket_played] by blast

end
