(* ===== verification/Main_Program.thy ===== *)
theory Main_Program
  imports Stop_Drain
begin

text \<open>
  \<open>main\<close> of \<open>src/main.cpp\<close> from its first line to its last: the environment and the command line, start-up,
  the loop that prints metrics until a console signal asks for a stop, and \<open>server.Stop()\<close>. The main
  thread is a program counter beside the server; the console handler runs on a thread of its own between any two of
  its steps, and so do the workers and the timer.
\<close>

subsection \<open>Lines of output\<close>

text \<open>\<open>operator<<\<close> on an unsigned integer.\<close>

fun decimal :: "nat \<Rightarrow> string" where
  "decimal n = (if n < 10 then [char_of (48 + n)] else decimal (n div 10) @ [char_of (48 + n mod 10)])"

declare decimal.simps [simp del]

definition quoted :: "string \<Rightarrow> string" where
  "quoted s = CHR 0x22 # s @ [CHR 0x22]"

definition metric_fields :: "ServerMetrics \<Rightarrow> (string \<times> u64) list" where
  "metric_fields m =
    [(''active_connections'', m_active_connections m), (''accepted_connections'', m_accepted_connections m),
     (''received_messages'', m_received_messages m), (''sent_messages'', m_sent_messages m),
     (''malformed_messages'', m_malformed_messages m), (''send_failures'', m_send_failures m),
     (''queued_bytes'', m_queued_bytes m), (''inbound_bytes'', m_inbound_bytes m)]"

definition number_fields :: "(string \<times> u64) list \<Rightarrow> string" where
  "number_fields fs = concat (map (\<lambda>(k, v). '','' @ quoted k @ '':'' @ decimal (unat v)) fs)"

definition metrics_line :: "ServerMetrics \<Rightarrow> string" where
  "metrics_line m =
    ''{'' @ quoted ''event'' @ '':'' @ quoted ''metrics'' @ number_fields (metric_fields m) @ ''}'' @ [CHR 0x0A]"

definition ready_line :: "u16 \<Rightarrow> string" where
  "ready_line port =
    ''{'' @ quoted ''event'' @ '':'' @ quoted ''ready'' @ '','' @ quoted ''ready'' @ '':true,'' @ quoted ''port'' @ '':'' @
      decimal (unat port) @ ''}'' @ [CHR 0x0A]"

definition startup_failed_line :: string where
  "startup_failed_line = ''{'' @ quoted ''event'' @ '':'' @ quoted ''startup_failed'' @ ''}'' @ [CHR 0x0A]"

subsection \<open>State\<close>

text \<open>Where the main thread is: at the test of the loop, past it and about to wait, in \<open>wait_for\<close>,
  back from it, past the loop, waiting inside \<open>Stop\<close>, or returned.\<close>

datatype main_at = Looking | Entering | Waiting | Woken | Leaving | InStop | Exited int

record Program =
  pr_server :: "Router Server"
  pr_stop_requested :: bool
  pr_at :: main_at
  pr_out :: "string list"
  pr_err :: "string list"

text \<open>\<open>RequestStop\<close> sets the flag and notifies, without the mutex: only a thread that is already in
  \<open>wait_for\<close> is woken.\<close>

definition RequestStop :: "Program \<Rightarrow> Program" where
  "RequestStop p = p\<lparr>pr_stop_requested := True, pr_at := (if pr_at p = Waiting then Woken else pr_at p)\<rparr>"

text \<open>\<open>CTRL_C_EVENT\<close>, \<open>CTRL_CLOSE_EVENT\<close> and \<open>CTRL_SHUTDOWN_EVENT\<close>.\<close>

definition ConsoleHandler :: "u32 \<Rightarrow> Program \<Rightarrow> bool \<times> Program" where
  "ConsoleHandler sig p =
    (if sig = 0 \<or> sig = 2 \<or> sig = 6 then (True, RequestStop p) else (False, p))"

text \<open>\<open>dupenv\<close> is \<open>_dupenv_s\<close>: an error flag and the value, none for an unset variable.\<close>

definition Environment :: "(string \<Rightarrow> bool \<times> string option) \<Rightarrow> string \<Rightarrow> string option" where
  "Environment dupenv name = (case dupenv name of (failed, v) \<Rightarrow> if failed \<or> v = None then None else v)"

definition main_options :: "(string \<Rightarrow> bool \<times> string option) \<Rightarrow> string list \<Rightarrow> cpp_exception + options" where
  "main_options dupenv args =
    parse_args args (initial_options (Environment dupenv ''IOCP_AUTH_TOKEN'') (Environment dupenv ''IOCP_ALLOWED_ORIGIN''))"

text \<open>Up to the loop. \<open>early\<close>: the console handler, registered before the server is started, has already
  run.\<close>

definition main_begin :: "options \<Rightarrow> bool \<Rightarrow> bool \<Rightarrow> nat \<Rightarrow> Router Server \<Rightarrow> Program" where
  "main_begin o1 early debug slot_size s0 =
    (case main_start (Some OnDisconnect) debug slot_size s0 of
       (False, s) \<Rightarrow> \<lparr>pr_server = s, pr_stop_requested = early, pr_at = Exited 1, pr_out = [], pr_err = [startup_failed_line]\<rparr>
     | (True, s) \<Rightarrow> \<lparr>pr_server = s, pr_stop_requested = early, pr_at = Looking,
                     pr_out = [ready_line (cfg_port (server_config o1))], pr_err = []\<rparr>)"

text \<open>The command line is refused with an exception, which \<open>main\<close> prints before it returns 2.\<close>

definition main :: "(string \<Rightarrow> bool \<times> string option) \<Rightarrow> string list \<Rightarrow> bool \<Rightarrow> bool \<Rightarrow> nat \<Rightarrow> size_t \<Rightarrow> (nat \<Rightarrow> bool) \<Rightarrow> (nat \<Rightarrow> int)
    \<Rightarrow> (cpp_exception \<times> int) + (options \<times> Program)" where
  "main dupenv args early debug slot_size cores oracle clock =
    (case main_options dupenv args of
       Inl e \<Rightarrow> Inl (e, 2)
     | Inr o1 \<Rightarrow> Inr (o1, main_begin o1 early debug slot_size (srv_new cores (server_config o1) oracle clock rt_new)))"

subsection \<open>Steps\<close>

definition look :: "Program \<Rightarrow> Program" where
  "look p = p\<lparr>pr_at := (if pr_stop_requested p then Leaving else Entering)\<rparr>"

definition after_wait :: "Program \<Rightarrow> Program" where
  "after_wait p =
    (if pr_stop_requested p then p\<lparr>pr_at := Leaving\<rparr>
     else p\<lparr>pr_out := pr_out p @ [metrics_line (Metrics (pr_server p))], pr_at := Looking\<rparr>)"

definition main_stop :: "Program \<Rightarrow> Program" where
  "main_stop p =
    (let s = Stop (Some OnDisconnect) (pr_server p)
     in p\<lparr>pr_server := s, pr_at := (if StopWaiting s then InStop else Exited 0)\<rparr>)"

text \<open>A wait ends by a notification, at its timeout or without a reason. The process is gone once \<open>main\<close> has
  returned.\<close>

inductive main_step :: "Router Handlers \<Rightarrow> Program \<Rightarrow> Program \<Rightarrow> bool" for hs where
  looked: "pr_at p = Looking \<Longrightarrow> main_step hs p (look p)"
| entered: "pr_at p = Entering \<Longrightarrow> main_step hs p (p\<lparr>pr_at := Waiting\<rparr>)"
| timed_out: "pr_at p = Waiting \<Longrightarrow> main_step hs p (p\<lparr>pr_at := Woken\<rparr>)"
| woken: "pr_at p = Woken \<Longrightarrow> main_step hs p (after_wait p)"
| stopping: "pr_at p = Leaving \<Longrightarrow> main_step hs p (main_stop p)"
| stopped: "pr_at p = InStop \<Longrightarrow> srv_outstanding (pr_server p) = 0 \<Longrightarrow>
    main_step hs p (p\<lparr>pr_server := StopEnd (pr_server p), pr_at := Exited 0\<rparr>)"
| signalled: "pr_at p \<notin> range Exited \<Longrightarrow> main_step hs p (snd (ConsoleHandler sig p))"
| worker: "pr_at p \<notin> range Exited \<Longrightarrow> deliverable c (pr_server p) \<Longrightarrow>
    main_step hs p (p\<lparr>pr_server := WorkerDispatch hs c (pr_server p)\<rparr>)"
| timer: "pr_at p \<notin> range Exited \<Longrightarrow> srv_running (pr_server p) \<Longrightarrow>
    main_step hs p (p\<lparr>pr_server := TimerPass (on_disconnect hs) (pr_server p)\<rparr>)"

inductive main_run :: "Router Handlers \<Rightarrow> Program \<Rightarrow> Program \<Rightarrow> bool" for hs p0 where
  begun: "main_run hs p0 p0"
| ran: "main_run hs p0 p \<Longrightarrow> main_step hs p q \<Longrightarrow> main_run hs p0 q"

subsection \<open>Numbers are printed so that they can be read back\<close>

lemma of_char_digit [simp]: "n < 10 \<Longrightarrow> of_char (char_of (48 + n :: nat)) = 48 + n"
  by (simp add: of_char_of)

lemma decimal_read:
  "decimal_value (decimal n) = n \<and> list_all is_decimal (decimal n) \<and> decimal n \<noteq> []"
proof (induction n rule: decimal.induct)
  case (1 n)
  have last: "is_decimal (char_of (48 + n mod 10 :: nat))" "is_decimal (char_of (48 + n :: nat))" if "n < 10" for n :: nat
    using that by (simp_all add: is_decimal_def)
  have "is_decimal (char_of (48 + n mod 10 :: nat))" by (simp add: is_decimal_def)
  with 1 last show ?case
    by (subst (1 2 3) decimal.simps) (auto simp: decimal_value_def)
qed

lemma decimal_cut:
  assumes "\<not> is_decimal c"
  shows "takeWhile is_decimal (decimal n @ c # r) = decimal n" and "dropWhile is_decimal (decimal n @ c # r) = c # r"
  using assms decimal_read [of n] by (simp_all add: list_all_iff takeWhile_append2 dropWhile_append2)

lemma decimal_inj:
  assumes "decimal n @ c # r = decimal k @ d # r'" and "\<not> is_decimal c" and "\<not> is_decimal d"
  shows "n = k \<and> c = d \<and> r = r'"
proof -
  have "decimal n = decimal k" "c # r = d # r'"
    using assms decimal_cut [OF assms(2), of n r] decimal_cut [OF assms(3), of k r'] by simp_all
  then show ?thesis using decimal_read [of n] decimal_read [of k] by (metis list.inject)
qed

lemma number_fields_head: "\<exists>c r. number_fields fs @ CHR ''}'' # t = c # r \<and> \<not> is_decimal c"
  by (cases fs) (auto simp: number_fields_def is_decimal_def split: prod.splits)

lemma number_fields_inj:
  "map fst xs = map fst ys \<Longrightarrow> number_fields xs @ CHR ''}'' # t = number_fields ys @ CHR ''}'' # u \<Longrightarrow> xs = ys"
proof (induction xs ys rule: list_induct2')
  case (4 x xs y ys)
  obtain k v w where xy: "x = (k, v)" "y = (k, w)" using "4.prems"(1) by (cases x; cases y) auto
  obtain c r where c: "number_fields xs @ CHR ''}'' # t = c # r" "\<not> is_decimal c" using number_fields_head by blast
  obtain d r' where d: "number_fields ys @ CHR ''}'' # u = d # r'" "\<not> is_decimal d" using number_fields_head by blast
  have "decimal (unat v) @ c # r = decimal (unat w) @ d # r'"
    using "4.prems"(2) by (simp add: xy number_fields_def flip: c(1) d(1))
  from decimal_inj [OF this c(2) d(2)] have "unat v = unat w" "number_fields xs @ CHR ''}'' # t = number_fields ys @ CHR ''}'' # u"
    using c(1) d(1) by simp_all
  with "4.IH" "4.prems"(1) xy show ?case by (simp add: word_unat_eq_iff)
qed simp_all

text \<open>The metrics line. Each line is determined by the eight printed counters and determines them: two snapshots
  print the same line exactly when they agree on every counter but \<open>rejected_connections\<close>, which is not printed.\<close>

lemma metrics_line_exact: "metrics_line m = metrics_line m' \<longleftrightarrow> metric_fields m = metric_fields m'"
proof -
  have "map fst (metric_fields m) = map fst (metric_fields m')" by (simp add: metric_fields_def)
  then show ?thesis using number_fields_inj [of "metric_fields m" "metric_fields m'" "[CHR 0x0A]" "[CHR 0x0A]"]
    by (auto simp: metrics_line_def)
qed

subsection \<open>The main thread and the server\<close>

definition main_ok :: "Program \<Rightarrow> bool" where
  "main_ok p \<longleftrightarrow>
     (case pr_at p of
        Leaving \<Rightarrow> srv_running (pr_server p) \<and> pr_stop_requested p
      | InStop \<Rightarrow> StopWaiting (pr_server p) \<and> pr_stop_requested p
      | Exited c \<Rightarrow> \<not> srv_running (pr_server p) \<and>
          (c = 1 \<or> c = 0 \<and> pr_stop_requested p \<and> srv_outstanding (pr_server p) = 0 \<and> \<not> srv_initialized (pr_server p))
      | _ \<Rightarrow> srv_running (pr_server p))"

text \<open>A step of the program is at most one step of the server.\<close>

lemma main_step_server:
  assumes "main_step hs p q" and "main_ok p" and "on_disconnect hs = Some OnDisconnect"
  shows "pr_server q = pr_server p \<or> server_step hs debug slot_size (pr_server p) (pr_server q)"
  using assms
proof (induction rule: main_step.induct)
  case (stopping p)
  then show ?case using server_step.stop [of hs debug slot_size "pr_server p"] by (simp add: main_stop_def Let_def)
next
  case (stopped p)
  then show ?case using server_step.stop_end [of "pr_server p" hs debug slot_size] by (simp add: main_ok_def)
next
  case (timer p)
  then show ?case using server_step.timer [of hs debug slot_size "pr_server p"] by simp
qed (auto simp: look_def after_wait_def ConsoleHandler_def RequestStop_def intro: server_step.completed)

lemma Stop_running_result:
  assumes "srv_inv None None s" and "srv_running s"
  shows "let t = Stop od s in \<not> srv_running t \<and> (StopWaiting t \<longleftrightarrow> srv_outstanding s \<noteq> 0) \<and>
    (\<not> StopWaiting t \<longrightarrow> srv_outstanding t = 0 \<and> \<not> srv_initialized t)"
proof -
  have "srv_initialized s" using assms by (simp add: srv_inv_def life_inv_def)
  then show ?thesis using assms(2) by (simp add: Stop_def StopEnd_def StopWaiting_def Let_def)
qed

context message_application
begin

lemma WorkerDispatch_running:
  assumes inv: "srv_inv None None s" and "deliverable c s"
  shows "srv_running (WorkerDispatch hs c s) = srv_running s"
proof (cases c)
  case (ReadDone a ok bytes)
  then show ?thesis using assms(2) HandleRead_running [OF inv] by simp
next
  case (WriteDone a ok n)
  then show ?thesis using keepsD(3) [OF keeps_HandleWrite [OF keeps_refl]] by simp
qed (simp add: HandleAccept_running)

end

lemma TimerPass_running: "srv_running (TimerPass od s) = srv_running s"
proof -
  have "keeps s (fold (TimerCheck od now) ps t)" if "keeps s t" for now ps t
    using that by (induction ps arbitrary: t) (simp_all add: keeps_TimerCheck)
  then have "keeps s (TimerPass od s)" by (simp add: TimerPass_def case_prod_unfold keeps_basic(5))
  then show ?thesis by (rule keepsD)
qed

lemma main_ok_step:
  assumes "main_step (main_handlers parse build o1 unix) p q" and "main_ok p"
    and "srv_inv None None (pr_server p)" and "quiet (pr_server p)"
  shows "main_ok q"
  using assms
proof (induction rule: main_step.induct)
  case (stopping p)
  then have "srv_running (pr_server p)" by (simp add: main_ok_def)
  with stopping show ?case using Stop_running_result [of "pr_server p" "Some OnDisconnect"]
    by (auto simp: main_stop_def main_ok_def Let_def)
next
  case (worker p c)
  let ?t = "WorkerDispatch (main_handlers parse build o1 unix) c (pr_server p)"
  have "srv_running ?t = srv_running (pr_server p)" using main_app.WorkerDispatch_running worker by blast
  moreover have "StopWaiting ?t" if "StopWaiting (pr_server p)" using main_app.drain_step(1) worker that by blast
  ultimately show ?case using worker(1,3) by (simp add: main_ok_def split: main_at.splits)
next
  case (timer p)
  then show ?case by (simp add: main_ok_def TimerPass_running StopWaiting_def split: main_at.splits)
qed (auto simp: main_ok_def look_def after_wait_def ConsoleHandler_def RequestStop_def StopEnd_def StopWaiting_def split: main_at.splits)

lemma main_begin_ok:
  assumes "config_ok (server_config o1)" and "4 \<le> slot_size" and "slot_size < 2 ^ 32"
    and "p0 = main_begin o1 early debug slot_size (srv_new cores (server_config o1) oracle clock rt_new)"
  shows "program_state parse build o1 unix debug slot_size cores oracle clock (pr_server p0)" and "main_ok p0"
proof -
  let ?s0 = "srv_new cores (server_config o1) oracle clock rt_new :: Router Server"
  have new: "\<not> srv_running ?s0" by (simp add: srv_new_def)
  show "program_state parse build o1 unix debug slot_size cores oracle clock (pr_server p0)"
    using main_start_state [OF assms(1-3)] assms(4) by (auto simp: main_begin_def case_prod_unfold case_bool_if)
  show "main_ok p0"
    using main_start_running [OF srv_new_inv [OF assms(1)] assms(2,3) new, of "Some OnDisconnect" debug] assms(4)
    by (auto simp: main_ok_def main_begin_def case_prod_unfold case_bool_if)
qed

lemma main_run_ok:
  assumes "main_run (main_handlers parse build o1 unix) p0 p" and "main_ok p0"
    and "program_state parse build o1 unix debug slot_size cores oracle clock (pr_server p0)"
  shows "program_state parse build o1 unix debug slot_size cores oracle clock (pr_server p) \<and> main_ok p"
  using assms
proof (induction rule: main_run.induct)
  case (ran p q)
  then have ok: "main_ok p" and state: "program_state parse build o1 unix debug slot_size cores oracle clock (pr_server p)" by simp_all
  have "pr_server q = pr_server p \<or> server_step (main_handlers parse build o1 unix) debug slot_size (pr_server p) (pr_server q)"
    using main_step_server [OF ran(2) ok] by simp
  with state have "program_state parse build o1 unix debug slot_size cores oracle clock (pr_server q)"
    by (auto simp: program_state_def intro: stepped)
  then show ?case using main_ok_step [OF ran(2) ok] program_state_ok(1,3) [OF state] by blast
qed simp

text \<open>While the main thread waits inside \<open>Stop\<close>, the completions that arrive are steps of the program.\<close>

lemma main_run_trans: "main_run hs p q \<Longrightarrow> main_run hs q r \<Longrightarrow> main_run hs p r"
  by (rotate_tac 1, induction rule: main_run.induct) (auto intro: main_run.ran)

lemma main_run_completes:
  assumes "completes hs cs (pr_server p)" and "pr_at p = InStop"
  shows "main_run hs p (p\<lparr>pr_server := fold (WorkerDispatch hs) cs (pr_server p)\<rparr>)"
  using assms
proof (induction cs arbitrary: p)
  case (Cons c cs)
  let ?q = "p\<lparr>pr_server := WorkerDispatch hs c (pr_server p)\<rparr>"
  have "main_run hs p ?q" using Cons.prems by (intro main_run.ran [OF main_run.begun main_step.worker]) auto
  moreover have "main_run hs ?q (?q\<lparr>pr_server := fold (WorkerDispatch hs) cs (pr_server ?q)\<rparr>)"
    by (rule Cons.IH) (use Cons.prems in simp_all)
  ultimately show ?case by (simp add: main_run_trans)
qed (simp add: main_run.begun)

lemma main_run_leaves:
  assumes "pr_stop_requested p" and "pr_at p \<in> {Looking, Entering, Waiting, Woken, Leaving}"
  shows "main_run hs p (p\<lparr>pr_at := Leaving\<rparr>)"
proof -
  have woken: "main_run hs q (q\<lparr>pr_at := Leaving\<rparr>)" if "pr_at q = Woken" "pr_stop_requested q" for q
    using main_run.ran [OF main_run.begun main_step.woken [OF that(1)]] that(2) by (simp add: after_wait_def)
  have waiting: "main_run hs q (q\<lparr>pr_at := Leaving\<rparr>)" if "pr_at q = Waiting" "pr_stop_requested q" for q
    using main_run_trans [OF main_run.ran [OF main_run.begun main_step.timed_out [OF that(1)]] woken] that(2) by simp
  have entering: "main_run hs q (q\<lparr>pr_at := Leaving\<rparr>)" if "pr_at q = Entering" "pr_stop_requested q" for q
    using main_run_trans [OF main_run.ran [OF main_run.begun main_step.entered [OF that(1)]] waiting] that(2) by simp
  have looking: "main_run hs q (q\<lparr>pr_at := Leaving\<rparr>)" if "pr_at q = Looking" "pr_stop_requested q" for q
    using main_run.ran [OF main_run.begun main_step.looked [OF that(1)]] that(2) by (simp add: look_def)
  have "main_run hs q (q\<lparr>pr_at := Leaving\<rparr>)" if "pr_at q = Leaving" for q
  proof -
    have "q\<lparr>pr_at := Leaving\<rparr> = q" using that by (cases q) simp
    then show ?thesis by (simp add: main_run.begun)
  qed
  with assms woken waiting entering looking show ?thesis by blast
qed

text \<open>Once a stop is requested, the loop can be left and every completion that \<open>Stop\<close> waits for can arrive.\<close>

lemma main_run_stops:
  assumes "p0 = main_begin o1 early debug slot_size (srv_new cores (server_config o1) oracle clock rt_new)"
    and "config_ok (server_config o1)" and "4 \<le> slot_size" and "slot_size < 2 ^ 32"
    and "main_run (main_handlers parse build o1 unix) p0 p" and "pr_stop_requested p" and "pr_at p \<notin> range Exited"
  shows "\<exists>q. main_run (main_handlers parse build o1 unix) p q \<and> pr_at q = Exited 0"
proof -
  let ?hs = "main_handlers parse build o1 unix"
  note start = main_begin_ok [OF assms(2-4,1)]
  note run_ok = main_run_ok [OF _ start(2,1)]
  have drain: "\<exists>r. main_run ?hs q r \<and> pr_at r = Exited 0" if "main_run ?hs p0 q" "pr_at q = InStop" for q
  proof -
    have state: "program_state parse build o1 unix debug slot_size cores oracle clock (pr_server q)" and wait: "StopWaiting (pr_server q)"
      using run_ok [OF that(1)] that(2) by (simp_all add: main_ok_def)
    note s = program_state_ok(1,3) [OF state] wait
    obtain cs where cs: "completes ?hs cs (pr_server q)" "length cs = in_flight (pr_server q)" using main_app.drain_exists [OF s] by blast
    note run = main_app.drain_run [OF s cs(1)]
    let ?r = "q\<lparr>pr_server := fold (WorkerDispatch ?hs) cs (pr_server q)\<rparr>"
    have "main_run ?hs q (?r\<lparr>pr_server := StopEnd (pr_server ?r), pr_at := Exited 0\<rparr>)"
      by (rule main_run.ran [OF main_run_completes [OF cs(1) that(2)] main_step.stopped])
        (use that(2) outstanding_zero [OF run(2)] run(3) cs(2) in simp_all)
    moreover have "pr_at (?r\<lparr>pr_server := StopEnd (pr_server ?r), pr_at := Exited 0\<rparr>) = Exited 0" by simp
    ultimately show ?thesis by blast
  qed
  show ?thesis
  proof (cases "pr_at p = InStop")
    case False
    then have "main_run ?hs p (p\<lparr>pr_at := Leaving\<rparr>)" using assms(6,7) by (intro main_run_leaves) (auto intro: main_at.exhaust [of "pr_at p"])
    then have left: "main_run ?hs p (main_stop (p\<lparr>pr_at := Leaving\<rparr>))" by (rule main_run.ran [OF _ main_step.stopping]) simp
    show ?thesis
    proof (cases "pr_at (main_stop (p\<lparr>pr_at := Leaving\<rparr>)) = InStop")
      case True
      then show ?thesis using drain [OF main_run_trans [OF assms(5) left]] main_run_trans [OF left] by blast
    next
      case False
      then have "pr_at (main_stop (p\<lparr>pr_at := Leaving\<rparr>)) = Exited 0" by (simp add: main_stop_def Let_def split: if_splits)
      with left show ?thesis by blast
    qed
  qed (use drain [OF assms(5)] in blast)
qed

subsection \<open>Properties\<close>

text \<open>C15. The life of the program. From the moment the command line is accepted, every state of \<open>main\<close>
  contains a state of the server for which the properties of the server hold; the server runs as long as the main
  thread is in its loop; \<open>main\<close> returns 0 only after a stop was requested and once no operation is in flight, 1
  otherwise, and in both cases no session is left and the server does not run.\<close>

theorem main_life:
  assumes "main dupenv args early debug slot_size cores oracle clock = Inr (o1, p0)"
    and "config_ok (server_config o1)" and "4 \<le> slot_size" and "slot_size < 2 ^ 32"
    and "main_run (main_handlers parse build o1 unix) p0 p"
  shows "program_state parse build o1 unix debug slot_size cores oracle clock (pr_server p) \<and>
    (pr_at p \<in> {Looking, Entering, Waiting, Woken, Leaving} \<longrightarrow> IsRunning (pr_server p)) \<and>
    (\<forall>c. pr_at p = Exited c \<longrightarrow> (c = 0 \<or> c = 1) \<and> \<not> IsRunning (pr_server p) \<and>
       (\<forall>x \<in> set (srv_store (pr_server p)). \<not> alive x) \<and> (c = 0 \<longrightarrow> pr_stop_requested p \<and> in_flight (pr_server p) = 0))"
proof -
  have "p0 = main_begin o1 early debug slot_size (srv_new cores (server_config o1) oracle clock rt_new)"
    using assms(1) by (simp add: main_def split: sum.splits)
  note start = main_begin_ok [OF assms(2-4) this]
  have state: "program_state parse build o1 unix debug slot_size cores oracle clock (pr_server p)" and ok: "main_ok p"
    using main_run_ok [OF assms(5) start(2,1)] by simp_all
  note s = program_state_ok(1,3) [OF state]
  show ?thesis using state ok s(2) outstanding_zero [OF s(1)] by (auto simp: main_ok_def IsRunning_def quiet_def split: main_at.splits)
qed

theorem main_life_witness:
  "\<exists>o1 p. main (\<lambda>_. (False, None)) [] False False 8 1 (\<lambda>_. False) (\<lambda>_. 0) = Inr (o1, p) \<and> pr_at p = Exited 1 \<and>
     \<not> IsRunning (pr_server p) \<and> pr_err p = [startup_failed_line]"
proof -
  let ?o1 = "initial_options None None"
  let ?p = "main_begin ?o1 False False 8 (srv_new 1 (server_config ?o1) (\<lambda>_. False) (\<lambda>_. 0) rt_new)"
  have main: "main (\<lambda>_. (False, None)) [] False False 8 1 (\<lambda>_. False) (\<lambda>_. 0) = Inr (?o1, ?p)"
    by (simp add: main_def main_options_def Environment_def)
  have "config_ok (server_config ?o1)"
    by (simp add: config_ok_def server_config_def initial_options_def default_config_def)
  note life = main_life [OF main this _ _ main_run.begun]
  have "pr_at ?p = Exited 1" "pr_err ?p = [startup_failed_line]"
    by (simp_all add: main_begin_def main_start_def Initialize_def WinsockStart_def draw_def srv_new_def)
  with main life show ?thesis by auto
qed

end
