(* ===== verification/Timer_Eviction.thy ===== *)
theory Timer_Eviction
  imports Lifecycle_Invariant
begin

text \<open>
  The timer checks the sessions one by one. An operation on one session leaves every other session as
  it is (the relation \<open>only\<close>), so a pass over all of them drops exactly the ones whose time is up,
  apart from those whose ping could not be sent.
\<close>

subsection \<open>Operations on one session\<close>

definition only :: "nat \<Rightarrow> 'app Server \<Rightarrow> 'app Server \<Rightarrow> bool" where
  "only p s t \<longleftrightarrow> length (srv_store t) = length (srv_store s) \<and> (\<forall>q. q \<noteq> p \<longrightarrow> sess q t = sess q s) \<and>
     srv_config t = srv_config s"

named_theorems only_intros \<open>operations on one session\<close>

lemma only_refl [simp]: "only p s s"
  by (simp add: only_def)

lemma only_trans: "only p s t \<Longrightarrow> only p t u \<Longrightarrow> only p s u"
  by (simp add: only_def)

lemma only_same: "only p s t \<Longrightarrow> srv_store u = srv_store t \<Longrightarrow> srv_config u = srv_config t \<Longrightarrow> only p s u"
  by (simp add: only_def sess_def)

lemma only_set_sess [only_intros]: "only p s t \<Longrightarrow> only p s (set_sess p f t)"
  by (simp add: only_def sess_def)

lemma only_basic [only_intros]:
  "only p s t \<Longrightarrow> only p s (count g t)" "only p s t \<Longrightarrow> only p s (send_failure t)" "only p s t \<Longrightarrow> only p s (ReleaseGlobalQueued n t)"
  "only p s t \<Longrightarrow> only p s (snd (draw t))" "only p s t \<Longrightarrow> only p s (snd (MonotonicMilliseconds t))"
  "only p s t \<Longrightarrow> only p s (TrackOperation t)" "only p s t \<Longrightarrow> only p s (CompleteOperation t)" "only p s t \<Longrightarrow> only p s (fail e t)"
  "only p s t \<Longrightarrow> only p s (t\<lparr>srv_writes := ws\<rparr>)" "only p s t \<Longrightarrow> only p s (t\<lparr>srv_accepted_log := l\<rparr>)"
  "only p s t \<Longrightarrow> only p s (snd (ReserveGlobalQueued n t))" "only p s t \<Longrightarrow> only p s (snd (PostWrite a t))"
  by (erule only_same;
      simp add: send_failure_def ReleaseGlobalQueued_def TrackOperation_def CompleteOperation_def fail_def
        ReserveGlobalQueued_def Let_def)+

lemma only_Disconnect [only_intros]: "only p s t \<Longrightarrow> only p s (Disconnect od p t)"
proof (erule only_trans)
  have store: "srv_store (Disconnect od p t) = (srv_store t)[p := closed_session (srv_store t ! p)]" if "alive (sess p t)"
  proof (cases "p < length (srv_store t)")
    case False
    then show ?thesis by (simp add: Disconnect_def Let_def DropQueue_eq list_update_beyond)
  qed (use Disconnect_alive(1) that in blast)
  show "only p t (Disconnect od p t)"
    by (cases "alive (sess p t)") (simp_all add: only_def sess_def store)
qed

lemma only_SettleWrite:
  "only p s t \<Longrightarrow> srv_writes t ! a = Some w \<Longrightarrow> wo_session w = p \<Longrightarrow> only p s (SettleWrite a ok t)"
  by (auto simp: SettleWrite_def Let_def intro!: only_intros)

lemma only_StartNextWrite [only_intros]:
  assumes "only p s t"
  shows "only p s (StartNextWrite od p t)"
proof (cases "se_send_queue (sess p t)")
  case Nil
  with assms show ?thesis by (simp add: StartNextWrite_def only_intros)
next
  case (Cons item rest)
  let ?s2 = "snd (draw (set_sess p (\<lambda>c. c\<lparr>se_send_queue := rest\<rparr>) t))"
  have s2: "only p s ?s2" using assms by (intro only_intros)
  have "only p s (SettleWrite (length (srv_writes t)) False (snd (PostWrite (length (srv_writes t))
      (TrackOperation (?s2\<lparr>srv_writes := srv_writes t @ [Some \<lparr>wo_session = p, wo_cursor = cur, wo_close_after = k\<rparr>]\<rparr>)))))" for cur k
    by (rule only_SettleWrite [where w = "\<lparr>wo_session = p, wo_cursor = cur, wo_close_after = k\<rparr>"], intro only_intros s2)
      (simp_all add: TrackOperation_def)
  with s2 Cons show ?thesis
    by (auto simp: StartNextWrite_def result_simps split: sum.split intro!: only_intros)
qed

lemma only_Enqueue [only_intros]: "only p s t \<Longrightarrow> only p s (snd (Enqueue od p item t))"
  by (auto simp: Enqueue_def result_simps intro!: only_intros)

lemma only_SendControl [only_intros]: "only p s t \<Longrightarrow> only p s (SendControl od p opcode payload k t)"
  by (auto simp: SendControl_def enqueue_or_close_def result_simps intro!: only_intros)

lemma only_TimerCheck: "only p s (TimerCheck od now p s)"
  by (auto simp: TimerCheck_def Let_def intro!: only_intros only_refl)

subsection \<open>Sessions whose time is up\<close>

definition expired :: "ServerConfig \<Rightarrow> int \<Rightarrow> ClientSession \<Rightarrow> bool" where
  "expired config now c \<longleftrightarrow>
     se_state c = Handshaking \<and> now - se_connected_at_ms c > cfg_handshake_timeout config \<or>
     se_state c = Closing \<and> now - se_close_started_ms c > cfg_close_timeout config \<or>
     se_state c = Open \<and> now - se_last_activity_ms c > cfg_idle_timeout config \<or>
     se_state c = Open \<and> se_transport c = WebSocket \<and> se_awaiting_pong c \<and> now - se_last_pong_ms c > cfg_websocket_pong_timeout config"

definition ping_due :: "ServerConfig \<Rightarrow> int \<Rightarrow> ClientSession \<Rightarrow> bool" where
  "ping_due config now c \<longleftrightarrow> se_state c = Open \<and> se_transport c = WebSocket \<and> \<not> se_awaiting_pong c \<and>
     now - se_last_pong_ms c > cfg_websocket_ping_interval config"

lemma TimerCheck_expired:
  assumes "p < length (srv_store s)" and "expired (srv_config s) now (sess p s)"
  shows "\<not> alive (sess p (TimerCheck od now p s))"
  using assms Disconnect_alive_iff [OF assms(1), of od]
  by (auto simp: TimerCheck_def expired_def Let_def alive_def)

lemma TimerCheck_other:
  assumes "\<not> expired (srv_config s) now (sess p s)" and "\<not> ping_due (srv_config s) now (sess p s)"
  shows "TimerCheck od now p s = s"
  using assms by (auto simp: TimerCheck_def expired_def ping_due_def Let_def)

lemma fold_TimerCheck_dead:
  assumes "p < length (srv_store s)" and "\<not> alive (sess p s)"
  shows "\<not> alive (sess p (fold (TimerCheck od now) ps s))"
  using assms
proof (induction ps arbitrary: s)
  case (Cons q ps)
  note k = keeps_TimerCheck [OF keeps_refl, of s od now q]
  have "p < length (srv_store (TimerCheck od now q s))" "\<not> alive (sess p (TimerCheck od now q s))"
    using keepsD(1) [OF k] keepsD(6) [OF k Cons.prems(1)] Cons.prems by auto
  from Cons.IH [OF this] show ?case by simp
qed simp

lemma fold_TimerCheck_expired:
  assumes "p \<in> set ps" and "p < length (srv_store s)" and "expired (srv_config s) now (sess p s)"
  shows "\<not> alive (sess p (fold (TimerCheck od now) ps s))"
  using assms
proof (induction ps arbitrary: s)
  case (Cons q ps)
  have q: "only q s (TimerCheck od now q s)" by (rule only_TimerCheck)
  show ?case
  proof (cases "q = p")
    case True
    then show ?thesis
      using TimerCheck_expired [OF Cons.prems(2,3)] fold_TimerCheck_dead [of p "TimerCheck od now p s"] q Cons.prems(2)
      by (simp add: only_def)
  next
    case False
    then show ?thesis using Cons q by (simp add: only_def)
  qed
qed simp

lemma fold_TimerCheck_other:
  assumes "\<not> expired (srv_config s) now (sess p s)" and "\<not> ping_due (srv_config s) now (sess p s)"
  shows "sess p (fold (TimerCheck od now) ps s) = sess p s"
  using assms
proof (induction ps arbitrary: s)
  case (Cons q ps)
  have q: "only q s (TimerCheck od now q s)" by (rule only_TimerCheck)
  show ?case
  proof (cases "q = p")
    case True
    then show ?thesis using TimerCheck_other [OF Cons.prems] Cons by simp
  next
    case False
    then show ?thesis using Cons q by (simp add: only_def)
  qed
qed simp

text \<open>A whole pass.\<close>

lemma TimerPass_evicts:
  assumes inv: "srv_inv None sk s" and on: "srv_running s" and p: "p < length (srv_store s)" and live: "alive (sess p s)"
    and now: "now = srv_clock s (srv_ticks s)"
  shows "expired (srv_config s) now (sess p s) \<Longrightarrow> \<not> alive (sess p (TimerPass od s))"
    and "\<not> expired (srv_config s) now (sess p s) \<Longrightarrow> \<not> ping_due (srv_config s) now (sess p s) \<Longrightarrow> sess p (TimerPass od s) = sess p s"
proof -
  let ?s1 = "snd (MonotonicMilliseconds s)"
  have eq: "TimerPass od s = fold (TimerCheck od now) (sr_Snapshot (srv_sessions s)) ?s1"
    using on now by (simp add: TimerPass_def MonotonicMilliseconds_def)
  have "p \<in> set (sr_Snapshot (srv_sessions s))" using directory_snapshot [OF inv] p live by (simp add: sess_def)
  then show "\<not> alive (sess p (TimerPass od s))" if "expired (srv_config s) now (sess p s)"
    unfolding eq by (rule fold_TimerCheck_expired) (use p that in simp_all)
  show "sess p (TimerPass od s) = sess p s" if "\<not> expired (srv_config s) now (sess p s)" "\<not> ping_due (srv_config s) now (sess p s)"
    unfolding eq using fold_TimerCheck_other [of ?s1 now p od] that by simp
qed

end
