(* ===== verification/Worker_Threads.thy ===== *)
theory Worker_Threads
  imports Server_Run
begin

text \<open>
  \<open>WorkerLoop\<close> of \<open>src/core/iocp_server.cpp\<close>: with thread affinity enabled a worker is first pinned
  to one processor, then it takes completions from the port until it receives the empty one that
  \<open>Stop\<close> posts. The number of processor groups and of processors in a group are what Windows
  reports: \<open>groups\<close> (a \<open>WORD\<close>) and \<open>processors\<close> (a \<open>DWORD\<close> for each group).
\<close>

subsection \<open>Affinity\<close>

text \<open>The loop that skips the processors of the groups before.\<close>

function find_group :: "u16 \<Rightarrow> (u16 \<Rightarrow> u32) \<Rightarrow> u16 \<Rightarrow> size_t \<Rightarrow> u16 \<times> size_t" where
  "find_group groups processors grp local_index =
    (if grp < groups then
       if local_index < ucast (processors grp) then (grp, local_index)
       else find_group groups processors (grp + 1) (local_index - ucast (processors grp))
     else (grp, local_index))"
  by pat_completeness auto

lemma next_group:
  assumes "(g :: u16) < n"
  shows "unat (g + 1) = Suc (unat g)"
proof -
  have "unat n < 2 ^ LENGTH(16)" by (rule unsigned_less)
  then show ?thesis using assms by (simp add: unat_word_ariths word_less_nat_alt)
qed

termination find_group
  by (relation "measure (\<lambda>(groups, _, grp, _). unat groups - unat grp)") (auto simp: next_group word_less_nat_alt)

declare find_group.simps [simp del]

text \<open>The group and the mask given to \<open>SetThreadGroupAffinity\<close>, when it is called. A \<open>KAFFINITY\<close> has
  64 bits.\<close>

definition worker_affinity :: "u16 \<Rightarrow> (u16 \<Rightarrow> u32) \<Rightarrow> size_t \<Rightarrow> (u16 \<times> u64) option" where
  "worker_affinity groups processors worker_index =
    (if groups = 0 then None
     else (case find_group groups processors 0 worker_index of (grp, local_index) \<Rightarrow>
       if grp < groups \<and> local_index < 64 then Some (grp, push_bit (unat local_index) 1) else None))"

subsection \<open>The loop\<close>

text \<open>What the port delivers to one worker; \<open>None\<close> is a completion without an operation. While the list
  is not used up the worker waits.\<close>

fun WorkerLoop :: "'app Handlers \<Rightarrow> completion option list \<Rightarrow> 'app Server \<Rightarrow> bool \<times> 'app Server" where
  "WorkerLoop hs [] s = (False, s)"
| "WorkerLoop hs (None # rest) s = (True, s)"
| "WorkerLoop hs (Some c # rest) s = WorkerLoop hs rest (WorkerDispatch hs c s)"

lemma WorkerLoop_ends: "WorkerLoop hs (map Some cs @ None # rest) s = (True, fold (WorkerDispatch hs) cs s)"
  by (induction cs arbitrary: s) simp_all

subsection \<open>Workers and processors\<close>

text \<open>The processors from group \<open>g\<close> on, group after group.\<close>

definition processors_from :: "u16 \<Rightarrow> (u16 \<Rightarrow> u32) \<Rightarrow> u16 \<Rightarrow> (nat \<times> nat) list" where
  "processors_from groups processors g =
    concat (map (\<lambda>h. map (Pair h) [0..<unat (processors (of_nat h))]) [unat g..<unat groups])"

lemma processors_from_next:
  assumes "g < groups"
  shows "processors_from groups processors g =
    map (Pair (unat g)) [0..<unat (processors g)] @ processors_from groups processors (g + 1)"
  using assms by (simp add: processors_from_def next_group upt_conv_Cons word_less_nat_alt)

lemma find_group_nth:
  "find_group groups processors g i = (h, j) \<Longrightarrow>
     (if unat i < length (processors_from groups processors g)
      then h < groups \<and> processors_from groups processors g ! unat i = (unat h, unat j) else \<not> h < groups)"
proof (induction groups processors g i rule: find_group.induct)
  case (1 groups processors g i)
  let ?n = "unat (processors g)"
  have n: "unat (ucast (processors g) :: size_t) = ?n" by (simp add: unat_ucast_up)
  show ?case
  proof (cases "g < groups")
    case in_range: True
    note split = processors_from_next [OF in_range, of processors]
    show ?thesis
    proof (cases "i < ucast (processors g)")
      case True
      then have "unat i < ?n" by (simp add: word_less_nat_alt n)
      then have "unat i < length (processors_from groups processors g)" "processors_from groups processors g ! unat i = (unat g, unat i)"
        by (simp_all add: split nth_append)
      with "1.prems" in_range True show ?thesis by (auto simp: find_group.simps [of groups processors g i])
    next
      case False
      then have le: "?n \<le> unat i" by (simp add: word_less_nat_alt n)
      then have sub: "unat (i - ucast (processors g)) = unat i - ?n" by (simp add: unat_sub word_le_nat_alt n)
      have "find_group groups processors (g + 1) (i - ucast (processors g)) = (h, j)"
        using "1.prems" in_range False by (simp add: find_group.simps [of groups processors g i])
      from "1.IH" [OF in_range False this] show ?thesis using le by (auto simp: split nth_append sub split: if_splits)
    qed
  next
    case False
    then have "processors_from groups processors g = []" by (simp add: processors_from_def word_less_nat_alt)
    with False "1.prems" show ?thesis by (simp add: find_group.simps [of groups processors g i])
  qed
qed

lemma processors_from_facts:
  shows "distinct (processors_from groups processors g)"
    and "x \<in> set (processors_from groups processors g) \<Longrightarrow> fst x < unat groups"
proof -
  show "x \<in> set (processors_from groups processors g) \<Longrightarrow> fst x < unat groups" by (auto simp: processors_from_def)
  have "distinct (concat (map (\<lambda>h. map (Pair h) [0..<c h]) xs))" if "distinct xs" for c :: "nat \<Rightarrow> nat" and xs :: "nat list"
    using that by (induction xs) (auto simp: distinct_map inj_on_def)
  then show "distinct (processors_from groups processors g)" unfolding processors_from_def by simp
qed

lemma mask_inj: "j < 64 \<Longrightarrow> k < 64 \<Longrightarrow> push_bit j (1 :: u64) = push_bit k 1 \<Longrightarrow> j = k"
proof -
  assume j: "j < 64" and eq: "push_bit j (1 :: u64) = push_bit k 1"
  have "bit (push_bit j (1 :: u64)) j" using j by (simp add: bit_simps)
  then have "bit (push_bit k (1 :: u64)) j" unfolding eq .
  then show "j = k" unfolding bit_push_bit_iff bit_1_iff by simp
qed

text \<open>C21. Thread affinity. Worker \<open>i\<close> is pinned to the \<open>i\<close>-th processor, counted through all processor groups
  in order, by a mask with the single bit of that processor; when there is no such processor, or its number does
  not fit into a mask, it is not pinned. Two pinned workers never share a processor, and the search ends.\<close>

theorem worker_affinity_exact:
  "worker_affinity groups processors i =
     (let all = processors_from groups processors 0
      in if unat i < length all \<and> snd (all ! unat i) < 64
         then Some (of_nat (fst (all ! unat i)), push_bit (snd (all ! unat i)) 1) else None) \<and>
   (\<forall>k. k \<noteq> i \<and> worker_affinity groups processors i \<noteq> None \<longrightarrow>
      worker_affinity groups processors k \<noteq> worker_affinity groups processors i)"
proof -
  let ?all = "processors_from groups processors 0"
  have eq: "worker_affinity groups processors i = (if unat i < length ?all \<and> snd (?all ! unat i) < 64
      then Some (of_nat (fst (?all ! unat i)), push_bit (snd (?all ! unat i)) 1) else None)" for i
  proof -
    obtain h j where f: "find_group groups processors 0 i = (h, j)" by fastforce
    show ?thesis
    proof (cases "groups = 0")
      case True
      then show ?thesis by (simp add: worker_affinity_def processors_from_def)
    next
      case False
      then show ?thesis using f find_group_nth [OF f] by (auto simp: worker_affinity_def word_less_nat_alt split: if_splits)
    qed
  qed
  moreover have "k = i" if "worker_affinity groups processors k = worker_affinity groups processors i"
      "worker_affinity groups processors i \<noteq> None" for k
  proof -
    have k: "unat k < length ?all" "snd (?all ! unat k) < 64" "unat i < length ?all" "snd (?all ! unat i) < 64"
      and same: "(of_nat (fst (?all ! unat k)) :: u16) = of_nat (fst (?all ! unat i))"
        "push_bit (snd (?all ! unat k)) (1 :: u64) = push_bit (snd (?all ! unat i)) 1"
      using that unfolding eq by (auto split: if_splits)
    have bound: "unat groups < 2 ^ LENGTH(16)" by (rule unsigned_less)
    have "fst (?all ! unat k) < 2 ^ 16" "fst (?all ! unat i) < 2 ^ 16"
      using processors_from_facts(2) [OF nth_mem [OF k(1)]] processors_from_facts(2) [OF nth_mem [OF k(3)]] bound by simp_all
    then have "fst (?all ! unat k) = fst (?all ! unat i)" using same(1) by (simp add: word_unat_eq_iff unat_of_nat)
    moreover have "snd (?all ! unat k) = snd (?all ! unat i)" using mask_inj [OF k(2,4) same(2)] .
    ultimately have "?all ! unat k = ?all ! unat i" by (rule prod_eqI)
    then show ?thesis using processors_from_facts(1) k by (simp add: nth_eq_iff_index_eq word_unat_eq_iff)
  qed
  ultimately show ?thesis unfolding Let_def by blast
qed

theorem worker_affinity_exact_witness:
  "worker_affinity 2 (\<lambda>_. 2) 3 = Some (1, 2) \<and> worker_affinity 2 (\<lambda>_. 2) 1 \<noteq> worker_affinity 2 (\<lambda>_. 2) 3"
proof -
  have "processors_from 2 (\<lambda>_. 2) 0 = [(0, 0), (0, 1), (1, 0), (1, 1)]" by (simp add: processors_from_def upt_rec)
  then have "worker_affinity 2 (\<lambda>_. 2) 3 = Some (1, 2)" using worker_affinity_exact [of 2 "\<lambda>_. 2" 3] by (simp add: Let_def)
  then show ?thesis using worker_affinity_exact [of 2 "\<lambda>_. 2" 3] by force
qed

end
