(* ===== verification/Native_Handles.thy ===== *)
theory Native_Handles
  imports Prelude
begin

text \<open>
  The move-only owners of native handles in \<open>src/core/iocp_server.cpp\<close>: \<open>UniqueSocket\<close> closes its
  \<open>SOCKET\<close>, \<open>UniqueHandle\<close> its \<open>HANDLE\<close>. Both hold one handle or none (\<open>INVALID_SOCKET\<close>,
  \<open>nullptr\<close>) and differ only in the function that closes, and in that a \<open>UniqueHandle\<close> cannot be moved.
  A variable of such a type is an index; a variable that does not exist (not yet constructed, or
  destroyed) has the value \<open>None\<close>. Handles that no owner holds belong to the code that released
  them, such as the socket of a session. \<open>hd_closed\<close> and \<open>hd_opened\<close> record the calls that
  closed and opened handles.
\<close>

subsection \<open>State and operations\<close>

record Handles =
  hd_owner :: "nat \<Rightarrow> nat option option"
  hd_raw :: "nat list"
  hd_closed :: "nat list"
  hd_opened :: "nat list"

text \<open>The system gives out a handle that was never used.\<close>

definition acquire :: "nat \<Rightarrow> Handles \<Rightarrow> Handles" where
  "acquire h s = s\<lparr>hd_raw := h # hd_raw s, hd_opened := h # hd_opened s\<rparr>"

definition close :: "nat option \<Rightarrow> Handles \<Rightarrow> Handles" where
  "close v s = (case v of None \<Rightarrow> s | Some h \<Rightarrow> s\<lparr>hd_closed := h # hd_closed s\<rparr>)"

text \<open>An owner takes a handle out of the hands of the surrounding code.\<close>

definition give :: "nat option \<Rightarrow> Handles \<Rightarrow> Handles" where
  "give v s = (case v of None \<Rightarrow> s | Some h \<Rightarrow> s\<lparr>hd_raw := remove1 h (hd_raw s)\<rparr>)"

definition held :: "nat \<Rightarrow> Handles \<Rightarrow> nat option" where
  "held x s = (case hd_owner s x of None \<Rightarrow> None | Some v \<Rightarrow> v)"

definition unique_new :: "nat \<Rightarrow> nat option \<Rightarrow> Handles \<Rightarrow> Handles" where
  "unique_new x v s = (give v s)\<lparr>hd_owner := (hd_owner s)(x \<mapsto> v)\<rparr>"

definition unique_Get :: "nat \<Rightarrow> Handles \<Rightarrow> nat option" where
  "unique_Get x s = held x s"

definition unique_Release :: "nat \<Rightarrow> Handles \<Rightarrow> nat option \<times> Handles" where
  "unique_Release x s =
    (held x s, case held x s of
       None \<Rightarrow> s | Some h \<Rightarrow> s\<lparr>hd_owner := (hd_owner s)(x \<mapsto> None), hd_raw := h # hd_raw s\<rparr>)"

definition unique_Reset :: "nat \<Rightarrow> nat option \<Rightarrow> Handles \<Rightarrow> Handles" where
  "unique_Reset x v s = (let s1 = give v (close (held x s) s) in s1\<lparr>hd_owner := (hd_owner s1)(x \<mapsto> v)\<rparr>)"

text \<open>\<open>std::exchange\<close> on the source, in the move constructor and, unless an object is assigned to
  itself, in the move assignment.\<close>

definition unique_move :: "nat \<Rightarrow> nat \<Rightarrow> Handles \<Rightarrow> Handles" where
  "unique_move x y s = s\<lparr>hd_owner := (hd_owner s)(y \<mapsto> None, x \<mapsto> held y s)\<rparr>"

definition unique_move_assign :: "nat \<Rightarrow> nat \<Rightarrow> Handles \<Rightarrow> Handles" where
  "unique_move_assign x y s =
    (if x = y then s
     else let v = held y s;
              s1 = close (held x s) (s\<lparr>hd_owner := (hd_owner s)(y \<mapsto> None)\<rparr>)
          in s1\<lparr>hd_owner := (hd_owner s1)(x \<mapsto> v)\<rparr>)"

definition unique_destroy :: "nat \<Rightarrow> Handles \<Rightarrow> Handles" where
  "unique_destroy x s = (let s1 = unique_Reset x None s in s1\<lparr>hd_owner := (hd_owner s1)(x := None)\<rparr>)"

definition unique_valid :: "nat \<Rightarrow> Handles \<Rightarrow> bool" where
  "unique_valid x s \<longleftrightarrow> held x s \<noteq> None"

text \<open>What a program does with its owners. A handle put into an owner belongs to the caller; objects are
  constructed once and used while they exist; a handle that nobody owns may be closed directly.\<close>

inductive handle_step :: "Handles \<Rightarrow> Handles \<Rightarrow> bool" where
  acquired: "h \<notin> set (hd_opened s) \<Longrightarrow> handle_step s (acquire h s)"
| created: "hd_owner s x = None \<Longrightarrow> set_option v \<subseteq> set (hd_raw s) \<Longrightarrow> handle_step s (unique_new x v s)"
| released: "hd_owner s x \<noteq> None \<Longrightarrow> handle_step s (snd (unique_Release x s))"
| reset: "hd_owner s x \<noteq> None \<Longrightarrow> set_option v \<subseteq> set (hd_raw s) \<Longrightarrow> handle_step s (unique_Reset x v s)"
| moved: "hd_owner s x = None \<Longrightarrow> hd_owner s y \<noteq> None \<Longrightarrow> handle_step s (unique_move x y s)"
| assigned: "hd_owner s x \<noteq> None \<Longrightarrow> hd_owner s y \<noteq> None \<Longrightarrow> handle_step s (unique_move_assign x y s)"
| destroyed: "hd_owner s x \<noteq> None \<Longrightarrow> handle_step s (unique_destroy x s)"
| closed_raw: "h \<in> set (hd_raw s) \<Longrightarrow> handle_step s (close (Some h) (give (Some h) s))"

inductive handle_run :: "Handles \<Rightarrow> bool" where
  start: "handle_run \<lparr>hd_owner = Map.empty, hd_raw = [], hd_closed = [], hd_opened = []\<rparr>"
| step: "handle_run s \<Longrightarrow> handle_step s t \<Longrightarrow> handle_run t"

subsection \<open>Every handle has one place\<close>

text \<open>\<open>g\<close> gives the handle an object holds.\<close>

definition placed :: "(nat \<Rightarrow> nat option) \<Rightarrow> nat list \<Rightarrow> nat list \<Rightarrow> nat list \<Rightarrow> bool" where
  "placed g raw closed opened \<longleftrightarrow>
     distinct raw \<and> distinct closed \<and> set raw \<inter> set closed = {} \<and>
     (\<forall>x y h. g x = Some h \<longrightarrow> g y = Some h \<longrightarrow> y = x) \<and>
     (\<forall>x h. g x = Some h \<longrightarrow> h \<notin> set raw \<and> h \<notin> set closed) \<and>
     (\<forall>h. h \<in> set opened \<longleftrightarrow> h \<in> set raw \<or> h \<in> set closed \<or> (\<exists>x. g x = Some h))"

text \<open>The ways a handle changes its place: into an object, out of it, from one to another, closed.\<close>

lemma ex_upd: "(\<exists>k. (g(x := v)) k = Some h) \<longleftrightarrow> v = Some h \<or> (\<exists>k. k \<noteq> x \<and> g k = Some h)"
  by (metis fun_upd_apply)

lemma placed_put:
  assumes "placed g raw closed opened" and "g x = None" and "a \<in> set raw"
  shows "placed (g(x \<mapsto> a)) (remove1 a raw) closed opened"
proof -
  have "(\<exists>k. k \<noteq> x \<and> g k = Some h) \<longleftrightarrow> (\<exists>k. g k = Some h)" for h using assms(2) by (metis option.distinct(1))
  then show ?thesis using assms unfolding placed_def ex_upd by (auto split: if_splits)
qed

lemma placed_take:
  assumes "placed g raw closed opened" and "g x = Some a"
  shows "placed (g(x := None)) (a # raw) closed opened" and "placed (g(x := None)) raw (a # closed) opened"
proof -
  have one: "k = x" if "g k = Some a" for k using assms that unfolding placed_def by blast
  have ex: "(\<exists>k. k \<noteq> x \<and> g k = Some h) \<longleftrightarrow> h \<noteq> a \<and> (\<exists>k. g k = Some h)" for h
    using assms(2) one by (metis option.inject)
  have "distinct (a # raw)" "distinct (a # closed)" "a \<in> set opened" using assms unfolding placed_def by auto
  then show "placed (g(x := None)) (a # raw) closed opened" "placed (g(x := None)) raw (a # closed) opened"
    using assms unfolding placed_def ex_upd ex by (auto split: if_splits)
qed

lemma placed_shift:
  assumes "placed g raw closed opened" and "g x = None" and "x \<noteq> y"
  shows "placed (g(y := None, x := g y)) raw closed opened"
proof -
  have "(\<exists>k. (g(y := None, x := g y)) k = Some h) \<longleftrightarrow> (\<exists>k. g k = Some h)" for h
    using assms(2,3) by (metis fun_upd_apply option.distinct(1))
  then show ?thesis using assms unfolding placed_def by (auto split: if_splits)
qed

definition handles_inv :: "Handles \<Rightarrow> bool" where
  "handles_inv s \<longleftrightarrow> placed (\<lambda>x. held x s) (hd_raw s) (hd_closed s) (hd_opened s)"

lemma held_owner: "(\<lambda>z. held z (s\<lparr>hd_owner := (hd_owner s')(x \<mapsto> v)\<rparr>)) = (\<lambda>z. held z (s\<lparr>hd_owner := hd_owner s'\<rparr>))(x := v)"
  by (auto simp: held_def)

lemma held_same [simp]: "held z (close v s) = held z s" "held z (give v s) = held z s" "hd_owner (close v s) = hd_owner s"
    "hd_owner (give v s) = hd_owner s"
  by (auto simp: held_def close_def give_def split: option.split)

lemma handles_inv_Reset:
  assumes "handles_inv s" and "set_option v \<subseteq> set (hd_raw s)"
  shows "handles_inv (unique_Reset x v s)"
proof -
  let ?g = "\<lambda>z. held z s"
  have shut: "placed (?g(x := None)) (hd_raw s) (hd_closed (close (held x s) s)) (hd_opened s)"
    using assms(1) placed_take(2) [of ?g "hd_raw s" "hd_closed s" "hd_opened s" x]
    by (cases "held x s") (auto simp: handles_inv_def close_def fun_upd_idem)
  have "(\<lambda>z. held z (unique_Reset x v s)) = ?g(x := v)" by (auto simp: unique_Reset_def Let_def held_def)
  moreover have "placed (?g(x := v)) (case v of None \<Rightarrow> hd_raw s | Some h \<Rightarrow> remove1 h (hd_raw s)) (hd_closed (close (held x s) s)) (hd_opened s)"
    using shut placed_put [OF shut, of x] assms(2) by (cases v) simp_all
  ultimately show ?thesis
    by (auto simp: handles_inv_def unique_Reset_def Let_def give_def close_def split: option.splits)
qed

lemma handles_inv_step: "handle_step s t \<Longrightarrow> handles_inv s \<Longrightarrow> handles_inv t"
proof (induction rule: handle_step.induct)
  case (acquired h s)
  then show ?case by (auto simp: handles_inv_def placed_def acquire_def held_def)
next
  case (created s x v)
  have "unique_new x v s = unique_Reset x v s" using created(1) by (simp add: unique_new_def unique_Reset_def Let_def held_def close_def)
  then show ?case using handles_inv_Reset [OF created(3,2)] by simp
next
  case (released s x)
  have "(\<lambda>z. held z (snd (unique_Release x s))) = (\<lambda>z. held z s)(x := None)"
    by (auto simp: unique_Release_def held_def split: option.splits)
  then show ?case using released(2) placed_take(1) [of "\<lambda>z. held z s" "hd_raw s" "hd_closed s" "hd_opened s" x]
    by (cases "held x s") (auto simp: handles_inv_def unique_Release_def)
next
  case (reset s x v)
  then show ?case by (intro handles_inv_Reset)
next
  case (moved s x y)
  have "(\<lambda>z. held z (unique_move x y s)) = (\<lambda>z. held z s)(y := None, x := held y s)" by (auto simp: unique_move_def held_def)
  moreover have "x \<noteq> y" "held x s = None" using moved(1,2) by (auto simp: held_def)
  ultimately show ?case using moved(3) placed_shift [of "\<lambda>z. held z s" _ _ _ x y] by (simp add: handles_inv_def unique_move_def)
next
  case (assigned s x y)
  show ?case
  proof (cases "x = y")
    case False
    let ?r = "unique_Reset x None s"
    have "(\<lambda>z. held z (unique_move_assign x y s)) = (\<lambda>z. held z ?r)(y := None, x := held y ?r)" "held x ?r = None"
      using False by (auto simp: unique_move_assign_def unique_Reset_def Let_def held_def)
    moreover have "hd_raw (unique_move_assign x y s) = hd_raw ?r" "hd_closed (unique_move_assign x y s) = hd_closed ?r"
      "hd_opened (unique_move_assign x y s) = hd_opened ?r"
      using False by (auto simp: unique_move_assign_def unique_Reset_def Let_def close_def give_def split: option.split)
    moreover have "handles_inv ?r" using assigned(3) by (intro handles_inv_Reset) simp_all
    ultimately show ?thesis using placed_shift [of "\<lambda>z. held z ?r" _ _ _ x y] False by (simp add: handles_inv_def)
  qed (use assigned in \<open>simp add: unique_move_assign_def\<close>)
next
  case (destroyed s x)
  have "(\<lambda>z. held z (unique_destroy x s)) = (\<lambda>z. held z (unique_Reset x None s))"
    by (auto simp: unique_destroy_def unique_Reset_def Let_def held_def)
  then show ?case using handles_inv_Reset [OF destroyed(2), of None x] by (simp add: handles_inv_def unique_destroy_def Let_def)
next
  case (closed_raw h s)
  have "(\<lambda>z. held z (close (Some h) (give (Some h) s))) = (\<lambda>z. held z s)" by simp
  then show ?case using closed_raw by (auto simp: handles_inv_def placed_def close_def give_def)
qed

text \<open>C20. Ownership of native handles. However objects that own a handle are constructed, moved, assigned,
  reset, released and destroyed, every handle the program has opened is in exactly one place: with one owner, with
  the code it was released to, or closed. None is closed twice, none is closed while an owner still holds it, and once
  the owners are gone and the released handles closed, none is leaked.\<close>

theorem handles_owned_once:
  assumes "handle_run s"
  shows "distinct (hd_closed s) \<and>
    (\<forall>x y h. held x s = Some h \<longrightarrow> h \<notin> set (hd_closed s) \<and> h \<notin> set (hd_raw s) \<and> (held y s = Some h \<longrightarrow> y = x)) \<and>
    (hd_raw s = [] \<and> (\<forall>x. hd_owner s x = None) \<longrightarrow> set (hd_closed s) = set (hd_opened s))"
proof -
  have "handles_inv s" using assms
  proof (induction rule: handle_run.induct)
    case start
    then show ?case by (simp add: handles_inv_def placed_def held_def)
  qed (rule handles_inv_step)
  then show ?thesis unfolding handles_inv_def placed_def by (auto simp: held_def)
qed

theorem handles_owned_once_witness:
  "let s = unique_destroy 1 (unique_move 1 0 (unique_new 0 (Some 7) (acquire 7
             \<lparr>hd_owner = Map.empty, hd_raw = [], hd_closed = [], hd_opened = []\<rparr>)))
   in hd_closed s = [7] \<and> distinct (hd_closed s) \<and> held 0 s = None"
proof -
  let ?s0 = "\<lparr>hd_owner = Map.empty, hd_raw = [], hd_closed = [], hd_opened = []\<rparr>"
  let ?s3 = "unique_move 1 0 (unique_new 0 (Some 7) (acquire 7 ?s0))"
  have "handle_run (acquire 7 ?s0)" by (rule handle_run.step [OF handle_run.start handle_step.acquired]) simp
  then have "handle_run (unique_new 0 (Some 7) (acquire 7 ?s0))"
    by (rule handle_run.step [OF _ handle_step.created]) (simp_all add: acquire_def)
  then have "handle_run ?s3" by (rule handle_run.step [OF _ handle_step.moved])
      (simp_all add: acquire_def unique_new_def give_def)
  then have "handle_run (unique_destroy 1 ?s3)" by (rule handle_run.step [OF _ handle_step.destroyed])
      (simp add: unique_move_def)
  from handles_owned_once [OF this] show ?thesis
    by (simp add: Let_def unique_destroy_def unique_Reset_def unique_move_def unique_new_def give_def close_def acquire_def held_def)
qed

end
