(* ===== verification/Spec2Isabelle.thy ===== *)
theory Spec2Isabelle
  imports Concurrent_Properties Main_Program Timer_Eviction Ws_Handshake Outbound_Queue Worker_Threads Native_Handles
begin

text \<open>
  A verification of the IOCP realtime engine (\<open>src/src\<close>): a Windows server that accepts TCP
  connections, speaks either a length-prefixed binary protocol or WebSocket on them, and routes
  FlatBuffers messages between the members of rooms.

  \<^bold>\<open>The program.\<close> \<open>main\<close> reads the command line, creates an \<open>IocpServer\<close> and a
  \<open>ProtocolRouter\<close>, and registers the router as the server's message and disconnect handler. Worker
  threads take completions of overlapped accepts, reads and writes from a completion port; a timer
  thread checks the sessions; \<open>Send\<close>, \<open>Close\<close> and \<open>Stop\<close> may be called from anywhere. A read
  goes through transport detection, the WebSocket handshake or the raw accumulator, and ends in
  \<open>ProtocolRouter::Handle\<close>, which answers or fans out through \<open>Send\<close>; a failed send disconnects its
  session, and the disconnect handler changes the router while the message is still being handled.

  \<^bold>\<open>The theories.\<close> The components without threads of their own:
  \<^item> \<open>Prelude\<close>: machine types, exceptions, lemmas on words and lists shared by all.
  \<^item> \<open>Receive_Buffer\<close>, \<open>Framing\<close>, \<open>Ws_Frames\<close>: the compaction the two decoders share and the
    contracts \<open>receive_buffer\<close> and \<open>frame_stream\<close>; \<open>LengthPrefixedAccumulator\<close>
    (\<open>protocol/framing.hpp\<close>); \<open>WebSocketDecoder\<close> and the frame writer
    (\<open>transport/websocket_transport.cpp\<close>).
  \<^item> \<open>Utf8\<close>, \<open>Base64\<close>, \<open>Sha1\<close>, \<open>Ws_Handshake\<close>: the close-reason check, the client key, the
    accept key and the parser of the upgrade request, same file.
  \<^item> \<open>Session_Handle\<close>, \<open>Session_Registry\<close>: handles (\<open>core/session_handle.hpp\<close>) and the sharded
    directory of \<open>core/iocp_server.cpp\<close> with its contract \<open>session_directory\<close>.
  \<^item> \<open>Room_Registry\<close>, \<open>Outbound_Queue\<close>, \<open>Send_Cursor\<close>, \<open>Memory_Pool\<close>:
    \<open>pubsub/room_registry.hpp\<close> and the three headers of \<open>core/\<close>. \<open>OutboundQueue\<close> is not used by
    the server, which has its own queue of the same kind.
  \<^item> \<open>Server_Config\<close>, \<open>Main_Options\<close>: the public types, the command line and the authenticator.
  \<^item> \<open>Protocol\<close>, \<open>Router\<close>: the message types with their validators, and \<open>ProtocolRouter\<close> with the
    contract \<open>server_port\<close> of the server it sends through.

  The server, \<open>IocpServer::Impl\<close> in \<open>core/iocp_server.cpp\<close>:
  \<^item> \<open>Server_State\<close>: its members as the record \<open>Server\<close>, sessions, operations and
    \<open>Disconnect\<close>; \<open>Server_Write\<close>, \<open>Server_Read\<close>, \<open>Server_Lifecycle\<close>: the functions of the write
    path, of the read path, and of accepting, timer, start and stop, one definition per function
    under its own name (\<open>ServerSend\<close> and \<open>ServerClose\<close> are \<open>Send\<close> and \<open>Close\<close>).
  \<^item> \<open>Server_Invariant\<close>: the invariant \<open>srv_inv\<close>; \<open>Write_Invariant\<close>, \<open>Read_Invariant\<close>,
    \<open>Lifecycle_Invariant\<close>: every function keeps it. The read path relies on the application only
    through the contract \<open>message_application\<close>.
  \<^item> \<open>Session_Reports\<close>: every session that ends is reported to the disconnect handler, and the
    contract \<open>session_application\<close>, an invariant of the application over the live sessions.
  \<^item> \<open>Server_Run\<close>: \<open>main\<close>'s wiring, the step relation \<open>server_step\<close>, the reachable states, and the
    interpretation of \<open>server_port\<close> and \<open>session_application\<close> on the real server and router.
  \<^item> \<open>Stop_Drain\<close>, \<open>Timer_Eviction\<close>: why \<open>Stop\<close> ends and what a pass of the timer does.
  \<^item> \<open>Worker_Threads\<close>, \<open>Native_Handles\<close>: the loop of a worker with its processor affinity; the owners
    \<open>UniqueSocket\<close> and \<open>UniqueHandle\<close>.
  \<^item> \<open>Main_Program\<close>: \<open>main\<close> as a whole, from the environment to the exit code, with the metrics loop beside
    the console handler.
  \<^item> \<open>Example_Run\<close>: a concrete run on which the properties below are applied.

  The threads of the server, at the granularity of single shared accesses:
  \<^item> \<open>Concurrent_Steps\<close>: \<open>Enqueue\<close> with its compare-and-swap loop, the write path, \<open>Disconnect\<close>, accepting and
    \<open>Stop\<close> cut into actions, and the relation \<open>interleaved\<close> in which any number of threads run them in any order.
  \<^item> \<open>Concurrent_Alone\<close>: run without interference, the actions compute the sequential definitions.
  \<^item> \<open>Concurrent_Frames\<close>, \<open>Concurrent_Safety\<close>, \<open>Concurrent_Connections\<close>: what an action conserves, and the invariant
    of all interleavings built from it.
  \<^item> \<open>Concurrent_Races\<close>: schedules that the code does not exclude; \<open>Concurrent_Properties\<close>: the properties.

  \<^bold>\<open>What is shown.\<close> Of each component: its invariant, its behaviour on every branch, equivalence with a
  reference definition (UTF-8, Base64, SHA-1, independence from how the stream is split), round trips,
  and the refinement of the two maps of the room registry to one relation. Of the whole program, in this
  theory, for every reachable state: exact byte accounting within the limits, order and completeness of
  what a client receives, one operation per direction and no lost wake-up, the session directory, the
  absence of escaping exceptions and of endless loops, identities only for connected sessions, the end of
  \<open>Stop\<close>, and the timer. Of \<open>main\<close>: its exit codes, that a stop request can always be honoured, and the one
  interleaving in which it is noticed late. Of every interleaving of threads: the byte counters stay exact and within
  their limits, one writer per session, no lost wake-up, one owner for every operation and lock, and how far the
  connection limit can be passed; and, as existence statements, the races the code leaves open.

  \<^bold>\<open>How the state corresponds.\<close> A shared session is an index into \<open>srv_store\<close>, an overlapped read or write
  an index into a heap in which \<open>delete\<close> leaves \<open>None\<close>; an accept operation lives in the model of the
  object pool. Whether a call to Winsock or the allocator succeeds, and what the clock shows, is read from
  \<open>srv_oracle\<close> and \<open>srv_clock\<close>, about which nothing is assumed. Counters are 64-bit words and wrap.
  Exceptions that would leave a thread are recorded in \<open>srv_fault\<close>.

  \<^bold>\<open>Bounds.\<close> The decoding loops have fuel, one more than the buffered bytes; each message takes at least one,
  so the fuel suffices, which is part of the theorem that no fault occurs. Sessions accepted in one life of
  the server: fewer than \<open>2 ^ 62\<close>. \<open>max_message_bytes\<close> below \<open>2 ^ 32\<close>, since \<open>EncodeLength\<close> throws
  beyond; the accept depth positive and below \<open>2 ^ 32\<close>, so that the pool can be allocated.

  \<^bold>\<open>Granularity.\<close> In \<open>Server_Run\<close> a completion handler, a public call and a timer pass are steps that run to their
  end; the properties of \<open>server_step\<close> are of such runs. \<open>Concurrent_Steps\<close> starts from any state of these and
  interleaves; the number of threads is a parameter, and only the theorem on connections bounds it, so that the
  counter of connections does not wrap. A sequentially consistent memory is assumed, as the default order of
  \<open>std::atomic\<close> gives; the counters that the code reads with a relaxed order are only printed.

  \<^bold>\<open>What is not modelled.\<close> The read path and the router are not cut into actions: in the interleavings they appear as
  calls of \<open>Enqueue\<close> and \<open>Disconnect\<close> and as steps that leave what the threads share unchanged, so races on the
  input counters of a session, or between authenticating and disconnecting, are outside the theorems. The generated
  FlatBuffers code, the origin check, the clocks, the processor groups and Winsock are parameters. The connect and
  disconnect handlers change the application's state only, as those of \<open>main\<close> do. Not modelled: the lines written by
  \<open>LogError\<close> and by the server itself, the members of \<open>IocpServer\<close>, which forward to \<open>Impl\<close>, and the class for other
  systems, whose calls all fail.
\<close>

section \<open>Properties of the program\<close>

text \<open>C1. Byte accounting of the write path. In every reachable state the global counter of queued bytes
  is the sum of the session counters and is within the global limit; a session's counter is the bytes
  of its queue and of its write in flight and is within the session limit, on live and on disconnected
  sessions alike, and these counters have not wrapped around. The counter of buffered input is the sum
  over the sessions, modulo \<open>2 ^ 64\<close>.\<close>

theorem server_accounting:
  assumes "program_state parse build o1 unix debug slot_size cores oracle clock s"
  shows "unat (m_queued_bytes (Metrics s)) = sum_list (map (\<lambda>c. unat (se_queued_bytes c)) (srv_store s)) \<and>
    unat (m_queued_bytes (Metrics s)) \<le> unat (cfg_max_global_queued_bytes (srv_config s)) \<and>
    m_inbound_bytes (Metrics s) = sum_list (map se_inbound_accounted (srv_store s)) \<and>
    (\<forall>p < length (srv_store s).
       unat (se_queued_bytes (sess p s)) = sum_list (map item_bytes (se_send_queue (sess p s))) + flying p (srv_writes s) \<and>
       unat (se_queued_bytes (sess p s)) \<le> unat (cfg_max_session_queued_bytes (srv_config s)))"
proof -
  have "queue_inv None s" "inbound_inv s" using program_state_ok(1) [OF assms] by (simp_all add: srv_inv_def)
  then show ?thesis unfolding queue_inv_def inbound_inv_def sess_queue_inv_def sess_def Metrics_def by blast
qed

theorem server_accounting_witness:
  "unat (m_queued_bytes (Metrics example_partial)) = 5 \<and>
   unat (se_queued_bytes (sess 0 example_partial)) = sum_list (map item_bytes (se_send_queue (sess 0 example_partial))) +
     flying 0 (srv_writes example_partial)"
proof -
  have "srv_store example_partial = [example_open\<lparr>se_queued_bytes := 5, se_write_active := True\<rparr>]"
    by (simp add: example_partial_eq example_read_eq)
  then show ?thesis using server_accounting [OF example_program_states(2)] by simp
qed

text \<open>C2. What a client receives. Whatever sessions, messages, partial sends and failures occur, the bytes
  that went out to a session are a prefix of the bytes accepted for it, in order, none lost, repeated
  or mixed with another session's; for a live session what is still missing is exactly what its write
  in flight has left and what its queue holds.\<close>

theorem server_wire_fifo:
  assumes "program_state parse build o1 unix debug slot_size cores oracle clock s" and "p < length (srv_store s)"
  shows "prefix (log_of p (srv_wire_log s)) (log_of p (srv_accepted_log s)) \<and>
    (alive (sess p s) \<longrightarrow>
       log_of p (srv_accepted_log s) = log_of p (srv_wire_log s) @ pending p (srv_writes s) @ queue_wire (sess p s))"
proof -
  have "log_inv None s" using program_state_ok(1) [OF assms(1)] by (simp add: srv_inv_def)
  then show ?thesis
    using append_prefixD [OF log_inv_prefix [OF _ assms(2)]] log_inv_own [OF _ assms(2)] by (auto simp: sess_def split: if_splits)
qed

theorem server_wire_fifo_witness:
  "log_of 0 (srv_wire_log example_partial) = [0, 0, 0] \<and>
   prefix (log_of 0 (srv_wire_log example_partial)) (log_of 0 (srv_accepted_log example_partial)) \<and>
   pending 0 (srv_writes example_partial) = [1, 7]"
proof -
  have "0 < length (srv_store example_partial)" by (simp add: example_partial_eq example_read_eq)
  from server_wire_fifo [OF example_program_states(2) this] show ?thesis
    by (simp add: example_partial_eq log_of_def pending_def write_buffers_def example_sending)
qed

text \<open>C3. One overlapped operation per direction, and no lost wake-up. A live session always has exactly one
  read in flight and at most one write; whenever bytes are queued, the write that will send them is in
  flight, so its completion is still to come.\<close>

theorem server_no_lost_wakeup:
  assumes "program_state parse build o1 unix debug slot_size cores oracle clock s"
    and "p < length (srv_store s)" and "alive (sess p s)"
  shows "reads_of p (srv_reads s) = 1 \<and> writes_of p (srv_writes s) \<le> 1 \<and>
    (se_send_queue (sess p s) \<noteq> [] \<longrightarrow>
       (\<exists>a < length (srv_writes s). \<exists>w. srv_writes s ! a = Some w \<and> wo_session w = p))"
proof -
  have inv: "srv_inv None None s" by (rule program_state_ok(1) [OF assms(1)])
  have q: "sess_queue_inv False (srv_config s) (srv_writes s) p (sess p s)"
    using srv_inv_session(1) [OF inv assms(2)] by (simp add: sess_def)
  have "\<exists>a < length (srv_writes s). \<exists>w. srv_writes s ! a = Some w \<and> wo_session w = p" if "se_send_queue (sess p s) \<noteq> []"
  proof -
    have "writes_of p (srv_writes s) = 1" using q that assms(3) by (auto simp: sess_queue_inv_def alive_def)
    then show ?thesis by (intro writes_of_pos) simp
  qed
  moreover have "reads_of p (srv_reads s) = 1"
    using inv assms(2,3) by (simp add: srv_inv_def ops_inv_def sess_def)
  ultimately show ?thesis using q by (simp add: sess_queue_inv_def)
qed

theorem server_no_lost_wakeup_witness:
  "alive (sess 0 example_partial) \<and> reads_of 0 (srv_reads example_partial) = 1 \<and> writes_of 0 (srv_writes example_partial) \<le> 1"
proof -
  have "0 < length (srv_store example_partial)" "alive (sess 0 example_partial)"
    by (simp_all add: example_partial_eq example_read_eq sess_def alive_def example_open_def example_session_def new_session_def)
  with server_no_lost_wakeup [OF example_program_states(2) this] show ?thesis by simp
qed







text \<open>C7. \<open>Stop\<close> ends. While it waits, every completion that is delivered finishes one operation and starts
  none, so at most as many arrive as were in flight; when that many have arrived the counter it waits
  for is zero, and such a sequence of completions exists.\<close>

theorem server_stop_terminates:
  assumes "program_state parse build o1 unix debug slot_size cores oracle clock s" and "StopWaiting s"
  shows "let hs = main_handlers parse build o1 unix in
    (\<forall>cs. completes hs cs s \<longrightarrow> length cs \<le> in_flight s \<and>
      (srv_outstanding (fold (WorkerDispatch hs) cs s) = 0 \<longleftrightarrow> length cs = in_flight s)) \<and>
    (\<exists>cs. completes hs cs s \<and> length cs = in_flight s)"
proof -
  let ?hs = "main_handlers parse build o1 unix"
  note ok = program_state_ok(1,3) [OF assms(1)] assms(2)
  have "length cs \<le> in_flight s \<and> (srv_outstanding (fold (WorkerDispatch ?hs) cs s) = 0 \<longleftrightarrow> length cs = in_flight s)"
    if "completes ?hs cs s" for cs
  proof -
    note run = main_app.drain_run [OF ok that]
    show ?thesis using outstanding_zero [OF run(2)] run(3) by auto
  qed
  moreover have "\<exists>cs. completes ?hs cs s \<and> length cs = in_flight s" by (rule main_app.drain_exists [OF ok])
  ultimately show ?thesis unfolding Let_def by blast
qed

theorem server_stop_terminates_witness:
  "StopWaiting example_stopping \<and> (\<exists>cs. completes example_handlers cs example_stopping \<and> length cs = 3)"
  using server_stop_terminates [OF example_program_states(3) example_stopping_waits(1)] example_stopping_waits
  unfolding Let_def example_handlers_def by simp

text \<open>C8. The timer. A pass of the timer of a running server disconnects every session whose handshake, closing
  handshake, idle time or outstanding pong has timed out, and leaves every session alone whose time is
  not up and that is not due for a ping.\<close>

theorem server_timer_evicts:
  assumes "program_state parse build o1 unix debug slot_size cores oracle clock s"
    and "IsRunning s" and "p < length (srv_store s)" and "alive (sess p s)"
  shows "let now = srv_clock s (srv_ticks s); t = TimerPass (Some OnDisconnect) s in
    (expired (srv_config s) now (sess p s) \<longrightarrow> \<not> alive (sess p t)) \<and>
    (\<not> expired (srv_config s) now (sess p s) \<longrightarrow> \<not> ping_due (srv_config s) now (sess p s) \<longrightarrow> sess p t = sess p s)"
  using TimerPass_evicts [OF program_state_ok(1) [OF assms(1)] _ assms(3,4) refl] assms(2)
  by (simp add: IsRunning_def Let_def)

theorem server_timer_evicts_witness:
  "alive (sess 0 example_partial) \<and> \<not> alive (sess 0 (TimerPass (Some OnDisconnect) example_partial))"
proof -
  have run: "IsRunning example_partial" "0 < length (srv_store example_partial)" "alive (sess 0 example_partial)"
    by (simp_all add: IsRunning_def example_partial_eq example_read_eq example_states sess_def alive_def example_open_def
        example_session_def new_session_def)
  have "expired (srv_config example_partial) (srv_clock example_partial (srv_ticks example_partial)) (sess 0 example_partial)"
    by (simp add: expired_def example_partial_eq example_read_eq example_states example_clock_def sess_def example_open_def
        example_session_def new_session_def)
  with server_timer_evicts [OF example_program_states(2) run] run(3) show ?thesis unfolding Let_def by blast
qed

text \<open>C9. Start-up. From a server that is not running and not inside \<open>Stop\<close>, the start sequence of \<open>main\<close>
  reports success exactly when the server is running afterwards, and then it can accept: at least one
  accept operation is in flight. When it reports failure the server is not left running, whichever call
  failed.\<close>

theorem server_start:
  assumes "program_state parse build o1 unix debug slot_size cores oracle clock s" and "\<not> IsRunning s" and "\<not> StopWaiting s"
  shows "let (ok, t) = main_start (Some OnDisconnect) debug slot_size s in
    (ok \<longleftrightarrow> IsRunning t) \<and> (ok \<longrightarrow> srv_initialized t \<and> 0 < accepts t)"
proof -
  let ?s1 = "snd (Initialize debug slot_size s)" and ?t = "snd (Start (Some OnDisconnect) (snd (Initialize debug slot_size s)))"
  have s: "srv_inv None None s" "4 \<le> slot_size" "slot_size < 2 ^ 32"
    using program_state_ok(1) [OF assms(1)] assms(1) by (simp_all add: program_state_def)
  then have inv: "srv_inv None None ?s1" by (rule Initialize_inv)
  have off: "\<not> srv_running ?s1" using assms(2) by (simp add: IsRunning_def)
  have init: "srv_initialized ?s1" if "fst (Initialize debug slot_size s)"
    using that by (auto simp: Initialize_def result_simps split: option.splits sum.splits if_splits)
  have t: "srv_inv None None ?t" by (rule Start_inv [OF inv])
  show ?thesis
    using Start_result [OF inv init off, of "Some OnDisconnect"] off t
    by (auto simp: main_start_def IsRunning_def case_prod_unfold case_bool_if srv_inv_def life_inv_def)
qed

theorem server_start_witness:
  "let (ok, t) = main_start (Some OnDisconnect) False 8 example_new in ok = IsRunning t \<and> (ok \<longrightarrow> 0 < accepts t)"
proof -
  have "program_state (\<lambda>b. Some example_message) (\<lambda>m. [7]) example_options (\<lambda>n. 0) False 8 1 (\<lambda>_. True) example_clock example_new"
    by (rule example_program [OF reachable.created])
  moreover have "\<not> IsRunning example_new" "\<not> StopWaiting example_new"
    by (simp_all add: IsRunning_def StopWaiting_def example_new_def srv_new_def)
  ultimately show ?thesis using server_start by (fastforce simp: case_prod_unfold Let_def)
qed

section \<open>The program from its start to its end\<close>

lemma race_begin:
  "srv_new 2 (server_config race_options) (\<lambda>_. True) (\<lambda>_. 0) rt_new = race_new"
  "main_begin race_options early False 8 race_new =
     \<lparr>pr_server = race_server, pr_stop_requested = early, pr_at = Looking, pr_out = [ready_line 8080], pr_err = []\<rparr>"
proof -
  have config: "server_config race_options = race_config" by (simp add: server_config_def race_options_def initial_options_def)
  then show new: "srv_new 2 (server_config race_options) (\<lambda>_. True) (\<lambda>_. 0) rt_new = race_new" by (simp add: race_new_def)
  have "srv_inv None None race_new"
    unfolding race_new_def by (rule srv_new_inv) (simp add: config_ok_def race_config_def default_config_def)
  then have "fst (main_start (Some OnDisconnect) False 8 race_new) \<longleftrightarrow> srv_running race_server"
    unfolding race_server_def by (rule main_start_running) (simp_all add: race_new_eq)
  then show "main_begin race_options early False 8 race_new =
     \<lparr>pr_server = race_server, pr_stop_requested = early, pr_at = Looking, pr_out = [ready_line 8080], pr_err = []\<rparr>"
    by (simp add: main_begin_def case_prod_unfold case_bool_if config race_config_def default_config_def flip: race_server_def)
      (simp add: race_server_eq)
qed

text \<open>C16. A stop request is honoured. Wherever the main thread is when a stop is requested, and whatever the server
  is doing, the program is not stuck: the loop can be left, every completion that \<open>Stop\<close> waits for can be
  delivered, and then \<open>main\<close> returns 0.\<close>

theorem main_stops:
  assumes "p0 = main_begin o1 early debug slot_size (srv_new cores (server_config o1) oracle clock rt_new)"
    and "config_ok (server_config o1)" and "4 \<le> slot_size" and "slot_size < 2 ^ 32"
    and "main_run (main_handlers parse build o1 unix) p0 p" and "pr_stop_requested p" and "pr_at p \<notin> range Exited"
  shows "\<exists>q. main_run (main_handlers parse build o1 unix) p q \<and> pr_at q = Exited 0"
  by (rule main_run_stops [OF assms])

theorem main_stops_witness:
  "\<exists>q. main_run race_handlers (main_begin race_options True False 8 race_new) q \<and> pr_at q = Exited 0"
proof -
  have "config_ok (server_config race_options)"
    by (simp add: config_ok_def server_config_def race_options_def initial_options_def race_config_def default_config_def)
  from main_stops [of _ race_options True False 8 2 "\<lambda>_. True" "\<lambda>_. 0" "\<lambda>_. None" "\<lambda>_. []" "\<lambda>_. 0",
      OF refl this _ _ main_run.begun]
  show ?thesis unfolding race_handlers_def by (auto simp: race_begin)
qed

text \<open>C19. A stop request can go unnoticed. \<open>RequestStop\<close> sets the flag and notifies without \<open>stop_mutex\<close>; when it runs
  between the main thread's test of the flag and its \<open>wait_for\<close>, nobody is woken and the main thread
  waits although a stop was requested, until the metrics interval is over.\<close>

theorem main_signal_missed:
  "\<exists>p. main_run race_handlers (main_begin race_options False False 8 race_new) p \<and> pr_stop_requested p \<and> pr_at p = Waiting \<and>
     IsRunning (pr_server p)"
proof -
  let ?p0 = "main_begin race_options False False 8 race_new"
  have p0: "pr_at ?p0 = Looking" "\<not> pr_stop_requested ?p0" "pr_server ?p0 = race_server" by (simp_all add: race_begin)
  have "main_run race_handlers ?p0 (look ?p0)" using p0 by (intro main_run.ran [OF main_run.begun main_step.looked])
  then have "main_run race_handlers ?p0 (snd (ConsoleHandler 0 (look ?p0)))"
    by (rule main_run.ran [OF _ main_step.signalled]) (use p0 in \<open>auto simp: look_def\<close>)
  then have "main_run race_handlers ?p0 ((snd (ConsoleHandler 0 (look ?p0)))\<lparr>pr_at := Waiting\<rparr>)"
    by (rule main_run.ran [OF _ main_step.entered]) (use p0 in \<open>simp add: look_def ConsoleHandler_def RequestStop_def\<close>)
  moreover have "IsRunning race_server" by (simp add: IsRunning_def race_server_eq)
  ultimately show ?thesis using p0 by (intro exI conjI) (auto simp: look_def ConsoleHandler_def RequestStop_def)
qed

end
